(* ===== verification/Prelude.thy ===== *)
theory Prelude
  imports Main "HOL-Library.Word"
begin

unbundle bit_operations_syntax

text \<open>
  Shared vocabulary of the development: the machine integer types of the sources, the
  outcomes of a C++ call that does not return normally, vectors that are resized and
  indexed, and reachability in a transition system together with the interface
  (\<^emph>\<open>locale\<close>) through which every component proves its invariant.
\<close>

section \<open>Machine integers and addresses\<close>

type_synonym u64 = "64 word"
type_synonym u32 = "32 word"

text \<open>Heap addresses; 0 is \<^verbatim>\<open>nullptr\<close>.\<close>

type_synonym addr = nat

text \<open>\<^verbatim>\<open>std::numeric_limits<uint64_t>::max()\<close>\<close>

definition u64_max :: u64 where
  "u64_max = - 1"

section \<open>Outcomes\<close>

text \<open>
  A call either returns or ends in one of three ways: \<^verbatim>\<open>SYLAR_ASSERT\<close> fails and
  aborts the process (the build sets no \<^verbatim>\<open>NDEBUG\<close>), the call runs into undefined
  behaviour (an out-of-range index, a null dereference, erasing \<^verbatim>\<open>end()\<close>), or it
  throws a C++ exception.
\<close>

datatype fault = AssertFailed string | UndefinedBehaviour string | Exception string

type_synonym 'a result = "fault + 'a"

definition rbind :: "'a result \<Rightarrow> ('a \<Rightarrow> 'b result) \<Rightarrow> 'b result" where
  "rbind r f = (case r of Inl e \<Rightarrow> Inl e | Inr x \<Rightarrow> f x)"

definition sylar_assert :: "string \<Rightarrow> bool \<Rightarrow> 'a result \<Rightarrow> 'a result" where
  "sylar_assert what b k = (if b then k else Inl (AssertFailed what))"

definition returns :: "'a result \<Rightarrow> bool" where
  "returns r \<longleftrightarrow> (\<exists>x. r = Inr x)"

section \<open>Vectors\<close>

text \<open>\<^verbatim>\<open>std::vector::resize\<close>: cut off, or pad with value-initialised elements.\<close>

definition vec_resize :: "nat \<Rightarrow> 'a \<Rightarrow> 'a list \<Rightarrow> 'a list" where
  "vec_resize n d xs = take n xs @ replicate (n - length xs) d"

section \<open>Reachability\<close>

inductive reach :: "('s \<Rightarrow> bool) \<Rightarrow> ('s \<Rightarrow> 's \<Rightarrow> bool) \<Rightarrow> 's \<Rightarrow> bool"
  for init :: "'s \<Rightarrow> bool" and step :: "'s \<Rightarrow> 's \<Rightarrow> bool" where
  reach_init: "init s \<Longrightarrow> reach init step s"
| reach_step: "reach init step s \<Longrightarrow> step s s' \<Longrightarrow> reach init step s'"

section \<open>Lemma collections\<close>

named_theorems outcome_simps \<open>unfolding of the outcome combinators\<close>
named_theorems inv_intros \<open>operations keep the invariant of their component\<close>

section \<open>Shared lemmas\<close>

lemma rbind_Inl [simp]: "rbind (Inl e) f = Inl e"
  by (simp add: rbind_def)

lemma rbind_Inr [simp]: "rbind (Inr x) f = f x"
  by (simp add: rbind_def)

lemma rbind_eq_Inr: "rbind r f = Inr y \<longleftrightarrow> (\<exists>x. r = Inr x \<and> f x = Inr y)"
  by (cases r) auto

lemma sylar_assert_True [simp]: "b \<Longrightarrow> sylar_assert w b k = k"
  by (simp add: sylar_assert_def)

lemma sylar_assert_False [simp]: "\<not> b \<Longrightarrow> sylar_assert w b k = Inl (AssertFailed w)"
  by (simp add: sylar_assert_def)

lemma sylar_assert_eq_Inr: "sylar_assert w b k = Inr y \<longleftrightarrow> b \<and> k = Inr y"
  by (simp add: sylar_assert_def)

lemma returns_Inr [simp]: "returns (Inr x)"
  by (simp add: returns_def)

lemma returns_Inl [simp]: "\<not> returns (Inl e)"
  by (simp add: returns_def)

lemmas outcome_inversions [outcome_simps] = rbind_eq_Inr sylar_assert_eq_Inr

lemma length_vec_resize [simp]: "length (vec_resize n d xs) = n"
  by (simp add: vec_resize_def)

lemma nth_vec_resize:
  "i < n \<Longrightarrow> vec_resize n d xs ! i = (if i < length xs then xs ! i else d)"
  by (simp add: vec_resize_def nth_append)

lemma set_take_Un_drop: "set (take i xs) \<union> set (drop i xs) = set xs"
  by (metis append_take_drop_id set_append)

lemma u64_max_greatest [simp]: "x \<le> u64_max"
  by (simp add: u64_max_def)

lemma unat_sub_le: "(b :: 'a::len word) \<le> a \<Longrightarrow> unat (a - b) = unat a - unat b"
  by (rule unat_sub)

text \<open>Flag words: testing, setting and clearing one bit.\<close>

lemma flag_unset_iff: "(w :: 'a::len word) AND 2 ^ n = 0 \<longleftrightarrow> \<not> bit w n"
  by (rule and_exp_eq_0_iff_not_bit)

lemma flag_or_idem: "bit (w :: 'a::len word) n \<Longrightarrow> w OR 2 ^ n = w"
  by (rule bit_eqI) (auto simp: bit_or_iff bit_exp_iff)

lemma flag_set_clear: "\<not> bit (w :: 'a::len word) n \<Longrightarrow> (w OR 2 ^ n) AND NOT (2 ^ n) = w"
  by (rule bit_eqI) (auto simp: bit_and_iff bit_or_iff bit_not_iff bit_exp_iff)

lemma sorted_wrt_congI:
  assumes "sorted_wrt P xs" and "\<And>x y. x \<in> set xs \<Longrightarrow> y \<in> set xs \<Longrightarrow> P x y \<Longrightarrow> Q x y"
  shows "sorted_wrt Q xs"
  using assms by (induction xs) auto

section \<open>Invariants\<close>

text \<open>
  A component offers the initial states, the steps and an invariant; what it promises is
  that the initial states satisfy the invariant and every step keeps it.
\<close>

locale inductive_invariant =
  fixes init :: "'s \<Rightarrow> bool"
    and step :: "'s \<Rightarrow> 's \<Rightarrow> bool"
    and inv :: "'s \<Rightarrow> bool"
  assumes inv_init: "init s \<Longrightarrow> inv s"
    and inv_step: "inv s \<Longrightarrow> step s s' \<Longrightarrow> inv s'"
begin

lemma reach_inv: "reach init step s \<Longrightarrow> inv s"
  by (induction rule: reach.induct) (auto intro: inv_init inv_step)

lemma reach_strengthen:
  assumes "reach init step s"
    and "\<And>t. init t \<Longrightarrow> P t"
    and "\<And>t t'. inv t \<Longrightarrow> P t \<Longrightarrow> step t t' \<Longrightarrow> P t'"
  shows "P s"
  using assms(1)
proof (induction rule: reach.induct)
  case (reach_init s)
  then show ?case by (rule assms(2))
next
  case (reach_step s s')
  then show ?case using assms(3) reach_inv by blast
qed

end

end
