(* ===== verification/Std_Set.thy ===== *)
theory Std_Set
  imports Prelude
begin

text \<open>
  \<^verbatim>\<open>std::set\<close> as the sequence of its elements in iteration order. \<^verbatim>\<open>lower_bound\<close>,
  \<^verbatim>\<open>find\<close>, \<^verbatim>\<open>insert\<close> and \<^verbatim>\<open>erase\<close> search with the comparator the program
  supplies, so that what they do is only right as long as the sequence is sorted by it.
  The comparator is the interface: \<open>strict_weak_order\<close> states what the standard requires
  of it, \<open>strict_total_order\<close> what comparators that also order by identity provide.
\<close>

section \<open>Operations\<close>

text \<open>Positions are indices, \<open>length xs\<close> is \<^verbatim>\<open>end()\<close>.\<close>

fun set_lower_bound :: "('a \<Rightarrow> 'a \<Rightarrow> bool) \<Rightarrow> 'a \<Rightarrow> 'a list \<Rightarrow> nat" where
  "set_lower_bound lt k [] = 0"
| "set_lower_bound lt k (x # xs) = (if lt x k then Suc (set_lower_bound lt k xs) else 0)"

definition set_find :: "('a \<Rightarrow> 'a \<Rightarrow> bool) \<Rightarrow> 'a \<Rightarrow> 'a list \<Rightarrow> nat" where
  "set_find lt k xs =
     (let i = set_lower_bound lt k xs
      in if i < length xs \<and> \<not> lt k (xs ! i) then i else length xs)"

text \<open>The new sequence, the position of the element and whether it was inserted.\<close>

definition set_insert :: "('a \<Rightarrow> 'a \<Rightarrow> bool) \<Rightarrow> 'a \<Rightarrow> 'a list \<Rightarrow> 'a list \<times> nat \<times> bool" where
  "set_insert lt k xs =
     (let i = set_lower_bound lt k xs
      in if i < length xs \<and> \<not> lt k (xs ! i) then (xs, i, False)
         else (take i xs @ k # drop i xs, i, True))"

definition set_erase_at :: "nat \<Rightarrow> 'a list \<Rightarrow> 'a list" where
  "set_erase_at i xs = take i xs @ drop (Suc i) xs"

section \<open>Facts that need no order\<close>

lemma set_lower_bound_le: "set_lower_bound lt k xs \<le> length xs"
  by (induction xs) auto

lemma take_lower_bound: "x \<in> set (take (set_lower_bound lt k xs) xs) \<Longrightarrow> lt x k"
  by (induction xs) (auto split: if_splits)

lemma nth_lower_bound:
  "set_lower_bound lt k xs < length xs \<Longrightarrow> \<not> lt (xs ! set_lower_bound lt k xs) k"
  by (induction xs) auto

lemma set_lower_bound_cong:
  "(\<And>x. x \<in> set xs \<Longrightarrow> lt x k = lt' x k) \<Longrightarrow> set_lower_bound lt k xs = set_lower_bound lt' k xs"
  by (induction xs) auto

lemma set_erase_at_subset: "set (set_erase_at i xs) \<subseteq> set xs"
  unfolding set_erase_at_def by (auto dest: in_set_takeD in_set_dropD)

lemma sorted_erase_at: "sorted_wrt lt xs \<Longrightarrow> sorted_wrt lt (set_erase_at i xs)"
proof -
  assume s: "sorted_wrt lt xs"
  have "sorted_wrt lt (take i xs @ drop i xs)" using s by simp
  then have cross: "\<forall>x\<in>set (take i xs). \<forall>y\<in>set (drop i xs). lt x y"
    unfolding sorted_wrt_append by blast
  have "set (drop (Suc i) xs) \<subseteq> set (drop i xs)"
    by (rule set_drop_subset_set_drop) simp
  then show ?thesis
    unfolding set_erase_at_def sorted_wrt_append
    using cross s by (auto simp: sorted_wrt_take sorted_wrt_drop)
qed

section \<open>The comparator's contract\<close>

locale strict_weak_order =
  fixes lt :: "'a \<Rightarrow> 'a \<Rightarrow> bool"
  assumes lt_irrefl: "\<not> lt x x"
    and lt_trans: "lt x y \<Longrightarrow> lt y z \<Longrightarrow> lt x z"
    and incomparable_trans:
      "\<not> lt x y \<Longrightarrow> \<not> lt y x \<Longrightarrow> \<not> lt y z \<Longrightarrow> \<not> lt z y \<Longrightarrow> \<not> lt x z \<and> \<not> lt z x"
begin

lemma lt_asym: "lt x y \<Longrightarrow> \<not> lt y x"
  using lt_irrefl lt_trans by blast

lemma not_lt_trans: "\<not> lt x k \<Longrightarrow> lt x y \<Longrightarrow> \<not> lt y k"
  using lt_trans by blast

lemma lt_cross: "lt x k \<Longrightarrow> \<not> lt y k \<Longrightarrow> lt x y"
  using incomparable_trans lt_trans by blast

lemma drop_lower_bound:
  assumes "sorted_wrt lt xs" and "x \<in> set (drop (set_lower_bound lt k xs) xs)"
  shows "\<not> lt x k"
  using assms by (induction xs) (auto split: if_splits dest: not_lt_trans)

lemma sorted_distinct: "sorted_wrt lt xs \<Longrightarrow> distinct xs"
  by (induction xs) (auto simp: lt_irrefl)

text \<open>\<^verbatim>\<open>find\<close> returns \<^verbatim>\<open>end()\<close> exactly when no element is equivalent to the key.\<close>

lemma set_find_end_iff:
  assumes "sorted_wrt lt xs"
  shows "set_find lt k xs = length xs \<longleftrightarrow> (\<forall>x\<in>set xs. lt x k \<or> lt k x)"
proof -
  let ?i = "set_lower_bound lt k xs"
  note split = set_take_Un_drop [of ?i xs, symmetric]
  show ?thesis
  proof (cases "?i < length xs \<and> \<not> lt k (xs ! ?i)")
    case True
    then have "\<not> lt (xs ! ?i) k" using nth_lower_bound [of lt k xs] by blast
    with True show ?thesis by (auto simp: set_find_def Let_def intro: nth_mem)
  next
    case False
    have "lt k x" if x: "x \<in> set (drop ?i xs)" for x
    proof -
      from x have i: "?i < length xs" by (cases "?i < length xs") auto
      with False have k: "lt k (xs ! ?i)" by simp
      from assms i have "sorted_wrt lt (xs ! ?i # drop (Suc ?i) xs)"
        by (simp add: Cons_nth_drop_Suc sorted_wrt_drop)
      with x i k show ?thesis
        by (metis Cons_nth_drop_Suc lt_trans set_ConsD sorted_wrt.simps(2))
    qed
    then show ?thesis
      using False split take_lower_bound [of _ lt k xs] by (auto simp: set_find_def Let_def)
  qed
qed

lemma set_find_at:
  assumes "set_find lt k xs < length xs"
  shows "\<not> lt (xs ! set_find lt k xs) k" and "\<not> lt k (xs ! set_find lt k xs)"
  using assms nth_lower_bound [of lt k xs] by (auto simp: set_find_def Let_def split: if_splits)

lemma sorted_insert:
  assumes "sorted_wrt lt xs"
  shows "sorted_wrt lt (fst (set_insert lt k xs))"
proof (cases "set_find lt k xs = length xs")
  case False
  then show ?thesis
    using assms by (auto simp: set_insert_def set_find_def Let_def split: if_splits)
next
  case True
  let ?i = "set_lower_bound lt k xs"
  from True have sep: "\<forall>x\<in>set xs. lt x k \<or> lt k x"
    using set_find_end_iff [OF assms] by simp
  have below: "\<forall>x\<in>set (take ?i xs). lt x k" using take_lower_bound [of _ lt k xs] by blast
  have above: "\<forall>x\<in>set (drop ?i xs). lt k x"
    using drop_lower_bound [OF assms] sep by (meson in_set_dropD)
  have "sorted_wrt lt (take ?i xs @ k # drop ?i xs)"
    unfolding sorted_wrt_append
    using assms below above
    by (auto simp: sorted_wrt_take sorted_wrt_drop intro: lt_trans)
  with assms show ?thesis by (auto simp: set_insert_def Let_def)
qed

lemma set_insert_new:
  assumes "sorted_wrt lt xs" and "\<forall>x\<in>set xs. lt x k \<or> lt k x"
  shows "set (fst (set_insert lt k xs)) = insert k (set xs)"
    and "fst (set_insert lt k xs) ! fst (snd (set_insert lt k xs)) = k"
    and "fst (snd (set_insert lt k xs)) \<le> length xs"
proof -
  let ?i = "set_lower_bound lt k xs"
  from assms have "set_find lt k xs = length xs" by (simp add: set_find_end_iff)
  then have ins: "set_insert lt k xs = (take ?i xs @ k # drop ?i xs, ?i, True)"
    by (auto simp: set_insert_def set_find_def Let_def split: if_splits)
  show "set (fst (set_insert lt k xs)) = insert k (set xs)"
    unfolding ins using set_take_Un_drop [of ?i xs] by auto
  show "fst (set_insert lt k xs) ! fst (snd (set_insert lt k xs)) = k"
    unfolding ins by (simp add: nth_append set_lower_bound_le)
  show "fst (snd (set_insert lt k xs)) \<le> length xs"
    unfolding ins by (simp add: set_lower_bound_le)
qed

end

locale strict_total_order = strict_weak_order +
  assumes lt_total: "x \<noteq> y \<Longrightarrow> lt x y \<or> lt y x"
begin

lemma set_find_mem:
  assumes "sorted_wrt lt xs"
  shows "set_find lt k xs < length xs \<longleftrightarrow> k \<in> set xs"
proof -
  have "set_find lt k xs \<noteq> length xs \<longleftrightarrow> k \<in> set xs"
    unfolding set_find_end_iff [OF assms] using lt_irrefl [of k] lt_total [of _ k] by metis
  moreover have "set_find lt k xs \<le> length xs" by (simp add: set_find_def Let_def)
  ultimately show ?thesis by linarith
qed

lemma nth_set_find:
  assumes "set_find lt k xs < length xs"
  shows "xs ! set_find lt k xs = k"
  using set_find_at [OF assms] lt_total by blast

lemma set_insert_set:
  assumes "sorted_wrt lt xs"
  shows "set (fst (set_insert lt k xs)) = insert k (set xs)"
proof (cases "k \<in> set xs")
  case True
  with assms have "set_find lt k xs < length xs" by (simp add: set_find_mem)
  then have "fst (set_insert lt k xs) = xs"
    by (auto simp: set_insert_def set_find_def Let_def split: if_splits)
  with True show ?thesis by auto
next
  case False
  then have "\<forall>x\<in>set xs. lt x k \<or> lt k x" using lt_total by metis
  with assms show ?thesis by (simp add: set_insert_new)
qed

text \<open>Erasing what \<^verbatim>\<open>find\<close> found removes exactly the key.\<close>

lemma set_erase_found:
  assumes "sorted_wrt lt xs" and "k \<in> set xs"
  shows "set (set_erase_at (set_find lt k xs) xs) = set xs - {k}"
proof -
  let ?i = "set_find lt k xs"
  from assms have i: "?i < length xs" by (simp add: set_find_mem)
  then have k: "xs ! ?i = k" by (rule nth_set_find)
  have xs: "xs = take ?i xs @ k # drop (Suc ?i) xs" using i k id_take_nth_drop by metis
  have "distinct xs" using assms(1) by (rule sorted_distinct)
  then have "k \<notin> set (take ?i xs) \<union> set (drop (Suc ?i) xs)"
    using xs by (metis Un_iff distinct.simps(2) distinct_append not_distinct_conv_prefix)
  then show ?thesis
    unfolding set_erase_at_def using arg_cong [OF xs, of set] by auto
qed

text \<open>A new element comes first exactly when it is below every other.\<close>

lemma set_insert_at_front:
  assumes "sorted_wrt lt xs" and "k \<notin> set xs"
  shows "fst (snd (set_insert lt k xs)) = 0 \<longleftrightarrow> (\<forall>x\<in>set xs. lt k x)"
proof -
  have "fst (snd (set_insert lt k xs)) = set_lower_bound lt k xs"
    by (simp add: set_insert_def Let_def)
  moreover have "set_lower_bound lt k xs = 0 \<longleftrightarrow> (\<forall>x\<in>set xs. lt k x)"
  proof (cases xs)
    case (Cons y ys)
    have "k \<noteq> y" using assms(2) Cons by auto
    then have "\<not> lt y k \<longleftrightarrow> lt k y" using lt_total [of k y] lt_asym [of k y] by blast
    moreover have "\<forall>x\<in>set ys. lt y x" using assms(1) Cons by simp
    ultimately show ?thesis using Cons lt_trans [of k y] by auto
  qed simp
  ultimately show ?thesis by simp
qed

text \<open>Two sorted sequences of the same elements are equal.\<close>

lemma sorted_unique:
  assumes "sorted_wrt lt xs" and "sorted_wrt lt ys" and "set xs = set ys"
  shows "xs = ys"
  using assms
proof (induction xs arbitrary: ys)
  case Nil
  then show ?case by simp
next
  case (Cons x xs)
  then obtain y ys' where ys: "ys = y # ys'" by (cases ys) auto
  have "x = y"
    using Cons.prems unfolding ys by (metis lt_asym list.set_intros(1) set_ConsD sorted_wrt.simps(2))
  moreover have "x \<notin> set xs" "y \<notin> set ys'"
    using Cons.prems(1,2) sorted_distinct unfolding ys by (meson distinct.simps(2))+
  ultimately have "set xs = set ys'" using Cons.prems(3) unfolding ys by auto
  then show ?case using Cons unfolding ys \<open>x = y\<close> by simp
qed

end

end
