(* ===== verification/Timer.thy ===== *)
theory Timer
  imports Std_Set
begin

text \<open>
  \<^verbatim>\<open>sylar/timer.h\<close> and \<^verbatim>\<open>sylar/timer.cpp\<close>. Timers are heap objects shared between
  their owners and the manager, so the manager's state carries the store of timer objects;
  \<^verbatim>\<open>m_timers\<close> is a \<^verbatim>\<open>std::set\<close> of pointers ordered by the \<^emph>\<open>current\<close> deadline of the
  objects pointed to. Every public operation holds \<^verbatim>\<open>m_mutex\<close> while it touches this
  state, so each is one atomic step; \<^verbatim>\<open>GetElapsedMS()\<close> and the addresses returned by
  \<^verbatim>\<open>new\<close> are inputs of the step. An operation that calls the virtual
  \<^verbatim>\<open>onTimerInsertedAtFront()\<close> reports the call in its result.
\<close>

section \<open>Data\<close>

text \<open>A timer callback; \<^verbatim>\<open>addConditionTimer\<close> binds one to a weak pointer.\<close>

datatype ('w, 'c) callback = Plain 'c | OnTimer 'w "'c option"

record 'cb Timer =
  m_recurring :: bool
  m_interval :: u64
  m_next :: u64
  m_timer_cb :: "'cb option"

type_synonym 'cb timer_store = "addr \<rightharpoonup> 'cb Timer"

record 'cb TimerManager =
  m_store :: "'cb timer_store"
  m_timers :: "addr list"
  m_tickled :: bool
  m_previousTime :: u64

section \<open>Timer objects and their order\<close>

text \<open>The two constructors: a timer of a manager, and the key used for searching.\<close>

definition Timer_new :: "u64 \<Rightarrow> 'cb option \<Rightarrow> bool \<Rightarrow> u64 \<Rightarrow> 'cb Timer" where
  "Timer_new interval cb recurring now =
     \<lparr>m_recurring = recurring, m_interval = interval, m_next = now + interval, m_timer_cb = cb\<rparr>"

definition Timer_key :: "u64 \<Rightarrow> 'cb Timer" where
  "Timer_key next = \<lparr>m_recurring = False, m_interval = 0, m_next = next, m_timer_cb = None\<rparr>"

text \<open>Reading through a pointer; a pointer the store does not know reads as a blank object.\<close>

definition timer_at :: "'cb timer_store \<Rightarrow> addr \<Rightarrow> 'cb Timer" where
  "timer_at h p = (case h p of Some t \<Rightarrow> t | None \<Rightarrow> Timer_key 0)"

definition Comparator :: "'cb timer_store \<Rightarrow> addr \<Rightarrow> addr \<Rightarrow> bool" where
  "Comparator h lhs rhs =
     (if lhs = 0 \<and> rhs = 0 then False
      else if lhs = 0 then True
      else if rhs = 0 then False
      else if m_next (timer_at h lhs) < m_next (timer_at h rhs) then True
      else if m_next (timer_at h rhs) < m_next (timer_at h lhs) then False
      else lhs < rhs)"

section \<open>Operations\<close>

definition TimerManager_new :: "u64 \<Rightarrow> 'cb TimerManager" where
  "TimerManager_new now =
     \<lparr>m_store = Map.empty, m_timers = [], m_tickled = False, m_previousTime = now\<rparr>"

text \<open>
  The protected \<^verbatim>\<open>addTimer(Timer::ptr, WriteLock&)\<close>. The flag says whether
  \<^verbatim>\<open>onTimerInsertedAtFront()\<close> is called.
\<close>

definition addTimer_locked :: "addr \<Rightarrow> 'cb TimerManager \<Rightarrow> bool \<times> 'cb TimerManager" where
  "addTimer_locked val tm =
     (case set_insert (Comparator (m_store tm)) val (m_timers tm) of (timers, it, res) \<Rightarrow>
        let atFront = (it = 0) \<and> \<not> m_tickled tm
        in (atFront, tm\<lparr>m_timers := timers, m_tickled := (if atFront then True else m_tickled tm)\<rparr>))"

text \<open>
  \<^verbatim>\<open>addTimer(interval, cb, recurring)\<close>: \<open>p\<close> is the address \<^verbatim>\<open>new\<close> returns, which is
  also the result of the call.
\<close>

definition addTimer ::
  "u64 \<Rightarrow> 'cb option \<Rightarrow> bool \<Rightarrow> u64 \<Rightarrow> addr \<Rightarrow> 'cb TimerManager \<Rightarrow> bool \<times> 'cb TimerManager" where
  "addTimer interval cb recurring now p tm =
     addTimer_locked p (tm\<lparr>m_store := (m_store tm)(p \<mapsto> Timer_new interval cb recurring now)\<rparr>)"

definition addConditionTimer ::
  "u64 \<Rightarrow> 'c option \<Rightarrow> 'w \<Rightarrow> bool \<Rightarrow> u64 \<Rightarrow> addr \<Rightarrow> ('w, 'c) callback TimerManager
   \<Rightarrow> bool \<times> ('w, 'c) callback TimerManager" where
  "addConditionTimer interval cb weakCond recurring now p tm =
     addTimer interval (Some (OnTimer weakCond cb)) recurring now p tm"

text \<open>
  Calling a callback: the plain functions it invokes. \<open>alive\<close> tells which objects behind
  weak pointers still exist. Invoking an empty \<^verbatim>\<open>std::function\<close> throws.
\<close>

fun run_callback :: "('w \<Rightarrow> bool) \<Rightarrow> ('w, 'c) callback \<Rightarrow> 'c list result" where
  "run_callback alive (Plain c) = Inr [c]"
| "run_callback alive (OnTimer weakCond cb) =
     (if alive weakCond
      then case cb of Some c \<Rightarrow> Inr [c] | None \<Rightarrow> Inl (Exception ''bad_function_call'')
      else Inr [])"

text \<open>
  \<^verbatim>\<open>Timer::cancel\<close>: the position found is passed to \<^verbatim>\<open>erase\<close> unchecked, which is
  undefined for \<^verbatim>\<open>end()\<close>.
\<close>

definition Timer_cancel :: "addr \<Rightarrow> 'cb TimerManager \<Rightarrow> (bool \<times> 'cb TimerManager) result" where
  "Timer_cancel p tm =
     (case m_store tm p of
        None \<Rightarrow> Inl (UndefinedBehaviour ''dangling timer'')
      | Some t \<Rightarrow>
          if m_timer_cb t \<noteq> None then
            (let h = (m_store tm)(p \<mapsto> t\<lparr>m_timer_cb := None\<rparr>);
                 it = set_find (Comparator h) p (m_timers tm)
             in if it = length (m_timers tm) then Inl (UndefinedBehaviour ''erase(end())'')
                else Inr (True, tm\<lparr>m_store := h, m_timers := set_erase_at it (m_timers tm)\<rparr>))
          else Inr (False, tm))"

definition Timer_refresh :: "addr \<Rightarrow> u64 \<Rightarrow> 'cb TimerManager \<Rightarrow> (bool \<times> 'cb TimerManager) result" where
  "Timer_refresh p now tm =
     (case m_store tm p of
        None \<Rightarrow> Inl (UndefinedBehaviour ''dangling timer'')
      | Some t \<Rightarrow>
          if m_timer_cb t = None then Inr (False, tm)
          else
            (let it = set_find (Comparator (m_store tm)) p (m_timers tm)
             in if it = length (m_timers tm) then Inr (False, tm)
                else
                  (let timers = set_erase_at it (m_timers tm);
                       h = (m_store tm)(p \<mapsto> t\<lparr>m_next := now + m_interval t\<rparr>)
                   in Inr (True, tm\<lparr>m_store := h,
                                     m_timers := fst (set_insert (Comparator h) p timers)\<rparr>))))"

text \<open>\<^verbatim>\<open>Timer::reset\<close>: the returned value, whether the front callback ran, the state.\<close>

definition Timer_reset ::
  "addr \<Rightarrow> u64 \<Rightarrow> bool \<Rightarrow> u64 \<Rightarrow> 'cb TimerManager \<Rightarrow> (bool \<times> bool \<times> 'cb TimerManager) result" where
  "Timer_reset p interval fromNow now tm =
     (case m_store tm p of
        None \<Rightarrow> Inl (UndefinedBehaviour ''dangling timer'')
      | Some t \<Rightarrow>
          if m_interval t = interval \<and> \<not> fromNow then Inr (True, False, tm)
          else if m_timer_cb t = None then Inr (False, False, tm)
          else
            (let it = set_find (Comparator (m_store tm)) p (m_timers tm)
             in if it = length (m_timers tm) then Inr (False, False, tm)
                else
                  (let start = (if fromNow then now else m_next t - m_interval t);
                       t' = t\<lparr>m_interval := interval, m_next := start + interval\<rparr>;
                       (atFront, tm') = addTimer_locked p
                         (tm\<lparr>m_store := (m_store tm)(p \<mapsto> t'),
                             m_timers := set_erase_at it (m_timers tm)\<rparr>)
                   in Inr (True, atFront, tm'))))"

definition getNextTimer :: "u64 \<Rightarrow> 'cb TimerManager \<Rightarrow> u64 \<times> 'cb TimerManager" where
  "getNextTimer now tm =
     (case m_timers tm of
        [] \<Rightarrow> (u64_max, tm\<lparr>m_tickled := False\<rparr>)
      | next # _ \<Rightarrow>
          (let n = m_next (timer_at (m_store tm) next)
           in (if n \<le> now then 0 else n - now, tm\<lparr>m_tickled := False\<rparr>)))"

text \<open>The subtraction of one hour wraps around below one hour.\<close>

definition detectClockRollover :: "u64 \<Rightarrow> 'cb TimerManager \<Rightarrow> bool \<times> 'cb TimerManager" where
  "detectClockRollover now tm =
     (now < m_previousTime tm \<and> now < m_previousTime tm - 60 * 60 * 1000,
      tm\<lparr>m_previousTime := now\<rparr>)"

text \<open>The loop \<^verbatim>\<open>while (it != end() && (*it)->m_next == nowMs) ++it\<close>.\<close>

function skip_due_now :: "'cb timer_store \<Rightarrow> addr list \<Rightarrow> u64 \<Rightarrow> nat \<Rightarrow> nat" where
  "skip_due_now h timers now it =
     (if it < length timers \<and> m_next (timer_at h (timers ! it)) = now
      then skip_due_now h timers now (Suc it) else it)"
  by pat_completeness auto
termination
  by (relation "measure (\<lambda>(h, timers, now, it). length timers - it)") auto

declare skip_due_now.simps [simp del]

text \<open>The loop over \<^verbatim>\<open>expired\<close>: callbacks collected, recurring timers re-armed.\<close>

fun expire_loop ::
  "u64 \<Rightarrow> addr list \<Rightarrow> 'cb option list \<Rightarrow> 'cb timer_store \<Rightarrow> addr list
   \<Rightarrow> 'cb option list \<times> 'cb timer_store \<times> addr list" where
  "expire_loop now [] cbs h timers = (cbs, h, timers)"
| "expire_loop now (p # ps) cbs h timers =
     (let t = timer_at h p; cbs' = cbs @ [m_timer_cb t]
      in if m_recurring t then
           (let h' = h(p \<mapsto> t\<lparr>m_next := now + m_interval t\<rparr>)
            in expire_loop now ps cbs' h' (fst (set_insert (Comparator h') p timers)))
         else expire_loop now ps cbs' (h(p \<mapsto> t\<lparr>m_timer_cb := None\<rparr>)) timers)"

text \<open>\<open>q\<close> is the address of the temporary key object \<^verbatim>\<open>nowTimer\<close>.\<close>

definition listExpiredCb ::
  "u64 \<Rightarrow> addr \<Rightarrow> 'cb option list \<Rightarrow> 'cb TimerManager \<Rightarrow> 'cb option list \<times> 'cb TimerManager" where
  "listExpiredCb now q cbs tm =
     (if m_timers tm = [] then (cbs, tm)
      else
        (let (rollover, tm1) = detectClockRollover now tm; h = m_store tm1; timers = m_timers tm1
         in if \<not> rollover \<and> now < m_next (timer_at h (hd timers)) then (cbs, tm1)
            else
              (let hq = h(q \<mapsto> Timer_key now);
                   it0 = (if rollover then length timers
                          else set_lower_bound (Comparator hq) q timers);
                   it = skip_due_now h timers now it0;
                   (cbs', h', timers') = expire_loop now (take it timers) cbs h (drop it timers)
               in (cbs', tm1\<lparr>m_store := h', m_timers := timers'\<rparr>))))"

definition hasTimer :: "'cb TimerManager \<Rightarrow> bool" where
  "hasTimer tm = (m_timers tm \<noteq> [])"

section \<open>Invariant, steps and the abstract timer table\<close>

text \<open>
  The set is sorted by the current deadlines, holds live objects only, and a timer whose
  callback is still set is in the set.
\<close>

definition timer_inv :: "'cb TimerManager \<Rightarrow> bool" where
  "timer_inv tm \<longleftrightarrow>
     sorted_wrt (Comparator (m_store tm)) (m_timers tm) \<and>
     set (m_timers tm) \<subseteq> dom (m_store tm) \<and>
     0 \<notin> dom (m_store tm) \<and>
     (\<forall>p t. m_store tm p = Some t \<longrightarrow> m_timer_cb t \<noteq> None \<longrightarrow> p \<in> set (m_timers tm))"

text \<open>What any number of threads may do with a manager, one locked section at a time.\<close>

inductive timer_step :: "'cb TimerManager \<Rightarrow> 'cb TimerManager \<Rightarrow> bool" where
  step_add: "m_store tm p = None \<Longrightarrow> p \<noteq> 0 \<Longrightarrow>
     timer_step tm (snd (addTimer interval cb recurring now p tm))"
| step_cancel: "Timer_cancel p tm = Inr (b, tm') \<Longrightarrow> timer_step tm tm'"
| step_refresh: "Timer_refresh p now tm = Inr (b, tm') \<Longrightarrow> timer_step tm tm'"
| step_reset: "Timer_reset p interval fromNow now tm = Inr (b, front, tm') \<Longrightarrow> timer_step tm tm'"
| step_next: "timer_step tm (snd (getNextTimer now tm))"
| step_expire: "m_store tm q = None \<Longrightarrow> q \<noteq> 0 \<Longrightarrow>
     timer_step tm (snd (listExpiredCb now q cbs tm))"

definition timer_init :: "'cb TimerManager \<Rightarrow> bool" where
  "timer_init tm \<longleftrightarrow> (\<exists>now. tm = TimerManager_new now)"

text \<open>
  The contract: a table of armed timers. It knows nothing of the set, its order or the
  pointers' addresses.
\<close>

definition armed :: "'cb TimerManager \<Rightarrow> 'cb timer_store" where
  "armed tm = m_store tm |` set (m_timers tm)"

definition rearm :: "u64 \<Rightarrow> 'cb Timer \<Rightarrow> 'cb Timer" where
  "rearm now t = t\<lparr>m_next := now + m_interval t\<rparr>"

definition with_interval :: "u64 \<Rightarrow> bool \<Rightarrow> u64 \<Rightarrow> 'cb Timer \<Rightarrow> 'cb Timer" where
  "with_interval interval fromNow now t =
     t\<lparr>m_interval := interval, m_next := (if fromNow then now else m_next t - m_interval t) + interval\<rparr>"

text \<open>Expiry on the table; \<open>back\<close> tells that the clock was set back, and then every timer counts as due.\<close>

definition spec_expire :: "bool \<Rightarrow> u64 \<Rightarrow> 'cb timer_store \<Rightarrow> 'cb timer_store" where
  "spec_expire back now T = (\<lambda>p. case T p of
       None \<Rightarrow> None
     | Some t \<Rightarrow> if \<not> back \<and> now < m_next t then Some t
                 else if m_recurring t then Some (rearm now t) else None)"

definition due :: "u64 \<Rightarrow> 'cb TimerManager \<Rightarrow> addr \<Rightarrow> bool" where
  "due now tm p \<longleftrightarrow> m_next (timer_at (m_store tm) p) \<le> now"

section \<open>The comparator is a strict total order\<close>

lemma Comparator_total: "x \<noteq> y \<Longrightarrow> Comparator h x y \<or> Comparator h y x"
  unfolding Comparator_def by (auto split: if_splits)

interpretation timer_order: strict_total_order "Comparator h" for h :: "'cb timer_store"
proof
  show "\<not> Comparator h x x" for x
    by (simp add: Comparator_def)
  show "Comparator h x y \<Longrightarrow> Comparator h y z \<Longrightarrow> Comparator h x z" for x y z
    unfolding Comparator_def by (auto split: if_splits)
  show "\<not> Comparator h x y \<Longrightarrow> \<not> Comparator h y x \<Longrightarrow> \<not> Comparator h y z \<Longrightarrow> \<not> Comparator h z y
    \<Longrightarrow> \<not> Comparator h x z \<and> \<not> Comparator h z x" for x y z
    using Comparator_total [of x y h] Comparator_total [of y z h] by auto
  show "x \<noteq> y \<Longrightarrow> Comparator h x y \<or> Comparator h y x" for x y
    by (rule Comparator_total)
qed

lemma timer_at_Some [simp]: "h p = Some t \<Longrightarrow> timer_at h p = t"
  by (simp add: timer_at_def)

lemma timer_at_upd [simp]: "timer_at (h(p \<mapsto> t)) r = (if r = p then t else timer_at h r)"
  by (simp add: timer_at_def)

lemma Comparator_cong:
  "m_next (timer_at h x) = m_next (timer_at h' x) \<Longrightarrow> m_next (timer_at h y) = m_next (timer_at h' y)
   \<Longrightarrow> Comparator h x y = Comparator h' x y"
  by (simp add: Comparator_def)

lemma Comparator_other [simp]:
  "x \<noteq> p \<Longrightarrow> y \<noteq> p \<Longrightarrow> Comparator (h(p \<mapsto> t)) x y = Comparator h x y"
  by (rule Comparator_cong) simp_all

lemma Comparator_same_next [simp]:
  "m_next t = m_next (timer_at h p) \<Longrightarrow> Comparator (h(p \<mapsto> t)) = Comparator h"
  by (intro ext Comparator_cong) auto

lemma sorted_upd_absent:
  "sorted_wrt (Comparator h) xs \<Longrightarrow> p \<notin> set xs \<Longrightarrow> sorted_wrt (Comparator (h(p \<mapsto> t))) xs"
  by (erule sorted_wrt_congI) (metis Comparator_other)

lemma Comparator_next_le:
  "Comparator h x y \<Longrightarrow> x \<noteq> 0 \<Longrightarrow> m_next (timer_at h x) \<le> m_next (timer_at h y)"
  by (auto simp: Comparator_def split: if_splits)

section \<open>Every operation keeps the invariant\<close>

lemma timer_invD:
  assumes "timer_inv tm"
  shows "sorted_wrt (Comparator (m_store tm)) (m_timers tm)"
    and "set (m_timers tm) \<subseteq> dom (m_store tm)"
    and "0 \<notin> dom (m_store tm)"
    and "m_store tm p = Some t \<Longrightarrow> m_timer_cb t \<noteq> None \<Longrightarrow> p \<in> set (m_timers tm)"
  using assms by (auto simp: timer_inv_def)

text \<open>
  The pattern common to all re-insertions: take \<open>p\<close> out of the set, write its object, put
  it back.
\<close>

lemma timer_inv_reinsert:
  assumes "sorted_wrt (Comparator h) xs" and "p \<notin> set xs"
    and "set xs \<subseteq> dom h" and "0 \<notin> dom h" and "p \<noteq> 0"
    and "\<forall>r t. h r = Some t \<longrightarrow> m_timer_cb t \<noteq> None \<longrightarrow> r \<noteq> p \<longrightarrow> r \<in> set xs"
    and "m_store tm = h(p \<mapsto> t)"
    and "m_timers tm = fst (set_insert (Comparator (h(p \<mapsto> t))) p xs)"
  shows "timer_inv tm"
proof -
  have s: "sorted_wrt (Comparator (h(p \<mapsto> t))) xs"
    using assms(1,2) by (rule sorted_upd_absent)
  show ?thesis
    unfolding timer_inv_def assms(7,8)
    using timer_order.sorted_insert [OF s] timer_order.set_insert_set [OF s] assms(3-6)
    by (auto split: if_splits)
qed

lemma timer_inv_tickled [simp]: "timer_inv (tm\<lparr>m_tickled := b\<rparr>) = timer_inv tm"
  by (simp add: timer_inv_def)

lemma timer_inv_previousTime [simp]: "timer_inv (tm\<lparr>m_previousTime := t\<rparr>) = timer_inv tm"
  by (simp add: timer_inv_def)

lemma addTimer_locked_store [simp]: "m_store (snd (addTimer_locked p tm)) = m_store tm"
  by (simp add: addTimer_locked_def Let_def split: prod.splits)

lemma addTimer_locked_timers [simp]:
  "m_timers (snd (addTimer_locked p tm)) = fst (set_insert (Comparator (m_store tm)) p (m_timers tm))"
  by (simp add: addTimer_locked_def Let_def split: prod.splits)

lemma erase_found_timer:
  assumes "timer_inv tm" and "p \<in> set (m_timers tm)"
  defines "xs \<equiv> set_erase_at (set_find (Comparator (m_store tm)) p (m_timers tm)) (m_timers tm)"
  shows "sorted_wrt (Comparator (m_store tm)) xs" and "set xs = set (m_timers tm) - {p}"
  unfolding xs_def using timer_invD(1) [OF assms(1)] assms(2)
  by (simp_all add: sorted_erase_at timer_order.set_erase_found)

lemma timer_found_iff:
  assumes "timer_inv tm"
  shows "set_find (Comparator (m_store tm)) p (m_timers tm) = length (m_timers tm)
    \<longleftrightarrow> p \<notin> set (m_timers tm)"
proof -
  have "set_find (Comparator (m_store tm)) p (m_timers tm) \<le> length (m_timers tm)"
    by (simp add: set_find_def Let_def)
  then show ?thesis
    using timer_order.set_find_mem [OF timer_invD(1) [OF assms], of p] by linarith
qed

lemma TimerManager_new_inv [inv_intros]: "timer_inv (TimerManager_new now)"
  by (simp add: timer_inv_def TimerManager_new_def)

lemma addTimer_inv [inv_intros]:
  assumes "timer_inv tm" and "m_store tm p = None" and "p \<noteq> 0"
  shows "timer_inv (snd (addTimer interval cb recurring now p tm))"
proof -
  have fresh: "p \<notin> set (m_timers tm)" using timer_invD(2) [OF assms(1)] assms(2) by auto
  show ?thesis
    unfolding addTimer_def
    by (rule timer_inv_reinsert [OF timer_invD(1) [OF assms(1)] fresh])
       (use assms timer_invD [OF assms(1)] in auto)
qed

lemma cancel_inv [inv_intros]:
  assumes "timer_inv tm" and "Timer_cancel p tm = Inr (b, tm')"
  shows "timer_inv tm'"
proof (cases b)
  case False
  with assms show ?thesis by (auto simp: Timer_cancel_def Let_def split: option.splits if_splits)
next
  case True
  with assms(2) obtain t where t: "m_store tm p = Some t" "m_timer_cb t \<noteq> None"
    and tm': "tm' = tm\<lparr>m_store := (m_store tm)(p \<mapsto> t\<lparr>m_timer_cb := None\<rparr>),
      m_timers := set_erase_at (set_find (Comparator (m_store tm)) p (m_timers tm)) (m_timers tm)\<rparr>"
    by (auto simp: Timer_cancel_def Let_def split: option.splits if_splits)
  have "p \<in> set (m_timers tm)" using timer_invD(4) [OF assms(1)] t by blast
  note erased = erase_found_timer [OF assms(1) this]
  show ?thesis
    unfolding timer_inv_def tm' using erased t timer_invD [OF assms(1)]
    by (auto split: if_splits)
qed

lemma refresh_inv [inv_intros]:
  assumes "timer_inv tm" and "Timer_refresh p now tm = Inr (b, tm')"
  shows "timer_inv tm'"
proof (cases b)
  case False
  with assms show ?thesis by (auto simp: Timer_refresh_def Let_def split: option.splits if_splits)
next
  case True
  with assms(2) obtain t where t: "m_store tm p = Some t"
    and mem: "p \<in> set (m_timers tm)"
    and tm': "m_store tm' = (m_store tm)(p \<mapsto> t\<lparr>m_next := now + m_interval t\<rparr>)"
      "m_timers tm' = fst (set_insert (Comparator ((m_store tm)(p \<mapsto> t\<lparr>m_next := now + m_interval t\<rparr>))) p
        (set_erase_at (set_find (Comparator (m_store tm)) p (m_timers tm)) (m_timers tm)))"
    by (auto simp: Timer_refresh_def Let_def timer_found_iff [OF assms(1)] split: option.splits if_splits)
  note erased = erase_found_timer [OF assms(1) mem]
  show ?thesis
    by (rule timer_inv_reinsert [OF erased(1) _ _ _ _ _ tm'])
       (use erased(2) t timer_invD [OF assms(1)] in auto)
qed

lemma reset_inv [inv_intros]:
  assumes "timer_inv tm" and "Timer_reset p interval fromNow now tm = Inr (b, front, tm')"
  shows "timer_inv tm'"
proof (cases "tm' = tm")
  case True
  with assms(1) show ?thesis by simp
next
  case False
  with assms(2) obtain t t' where t: "m_store tm p = Some t"
    and mem: "p \<in> set (m_timers tm)"
    and tm': "addTimer_locked p (tm\<lparr>m_store := (m_store tm)(p \<mapsto> t'),
        m_timers := set_erase_at (set_find (Comparator (m_store tm)) p (m_timers tm)) (m_timers tm)\<rparr>)
      = (front, tm')"
    by (auto simp: Timer_reset_def Let_def timer_found_iff [OF assms(1)]
        split: option.splits if_splits prod.splits)
  note erased = erase_found_timer [OF assms(1) mem]
  have new: "m_store tm' = (m_store tm)(p \<mapsto> t')"
    "m_timers tm' = fst (set_insert (Comparator ((m_store tm)(p \<mapsto> t'))) p
        (set_erase_at (set_find (Comparator (m_store tm)) p (m_timers tm)) (m_timers tm)))"
    using arg_cong [OF tm', of "m_store \<circ> snd"] arg_cong [OF tm', of "m_timers \<circ> snd"] by simp_all
  show ?thesis
    by (rule timer_inv_reinsert [OF erased(1) _ _ _ _ _ new])
       (use erased(2) t timer_invD [OF assms(1)] in auto)
qed

lemma getNextTimer_inv [inv_intros]: "timer_inv tm \<Longrightarrow> timer_inv (snd (getNextTimer now tm))"
  by (simp add: getNextTimer_def Let_def split: list.splits)

subsection \<open>Expiry\<close>

text \<open>What firing does to a timer object.\<close>

definition fired :: "u64 \<Rightarrow> 'cb Timer \<Rightarrow> 'cb Timer" where
  "fired now t = (if m_recurring t then rearm now t else t\<lparr>m_timer_cb := None\<rparr>)"

lemma expire_loop_Cons:
  "expire_loop now (p # ps) cbs h xs =
     (let h' = h(p \<mapsto> fired now (timer_at h p))
      in expire_loop now ps (cbs @ [m_timer_cb (timer_at h p)]) h'
           (if m_recurring (timer_at h p) then fst (set_insert (Comparator h') p xs) else xs))"
  by (simp add: fired_def rearm_def Let_def)

lemma expire_loop_spec:
  assumes "distinct ps" and "set ps \<inter> set xs = {}" and "sorted_wrt (Comparator h) xs"
    and "expire_loop now ps cbs h xs = (cbs', h', xs')"
  shows "cbs' = cbs @ map (\<lambda>p. m_timer_cb (timer_at h p)) ps
    \<and> h' = (\<lambda>r. if r \<in> set ps then Some (fired now (timer_at h r)) else h r)
    \<and> sorted_wrt (Comparator h') xs'
    \<and> set xs' = set xs \<union> {p \<in> set ps. m_recurring (timer_at h p)}"
  using assms
proof (induction ps arbitrary: cbs h xs)
  case Nil
  then show ?case by simp
next
  case (Cons p ps)
  let ?t = "timer_at h p"
  define hp where "hp = h(p \<mapsto> fired now ?t)"
  define xp where "xp = (if m_recurring ?t then fst (set_insert (Comparator hp) p xs) else xs)"
  have sorted: "sorted_wrt (Comparator hp) xs"
    using Cons.prems unfolding hp_def by (intro sorted_upd_absent) auto
  have sorted_xp: "sorted_wrt (Comparator hp) xp"
    using sorted by (simp add: xp_def timer_order.sorted_insert)
  have xp: "set xp = set xs \<union> {r. r = p \<and> m_recurring ?t}"
    using sorted by (auto simp: xp_def timer_order.set_insert_set)
  have same: "timer_at hp r = timer_at h r" if "r \<in> set ps" for r
    using that Cons.prems(1) by (auto simp: hp_def)
  have "expire_loop now ps (cbs @ [m_timer_cb ?t]) hp xp = (cbs', h', xs')"
    using Cons.prems(4) unfolding expire_loop_Cons Let_def hp_def xp_def .
  then have IH: "cbs' = (cbs @ [m_timer_cb ?t]) @ map (\<lambda>p. m_timer_cb (timer_at hp p)) ps"
    "h' = (\<lambda>r. if r \<in> set ps then Some (fired now (timer_at hp r)) else hp r)"
    "sorted_wrt (Comparator h') xs'"
    "set xs' = set xp \<union> {p \<in> set ps. m_recurring (timer_at hp p)}"
    using Cons.IH [of xp hp "cbs @ [m_timer_cb ?t]"] Cons.prems xp sorted_xp by auto
  have "p \<notin> set ps" using Cons.prems(1) by simp
  then have "h' = (\<lambda>r. if r \<in> set (p # ps) then Some (fired now (timer_at h r)) else h r)"
    unfolding IH(2) using same by (auto simp: fun_eq_iff hp_def)
  moreover have "cbs' = cbs @ map (\<lambda>p. m_timer_cb (timer_at h p)) (p # ps)"
    unfolding IH(1) using same by simp
  moreover have "set xs' = set xs \<union> {r \<in> set (p # ps). m_recurring (timer_at h r)}"
    unfolding IH(4) xp using same by auto
  ultimately show ?case using IH(3) by blast
qed

text \<open>
  Where the walk over the set stops: the position splits it into the timers due and the
  timers not yet due, wherever the address of the key object sorts among equal deadlines.
\<close>

lemma filter_eq_take:
  assumes "\<forall>x\<in>set (take j xs). P x" and "\<forall>x\<in>set (drop j xs). \<not> P x"
  shows "filter P xs = take j xs" and "filter (\<lambda>x. \<not> P x) xs = drop j xs"
proof -
  have "filter P (take j xs @ drop j xs) = take j xs"
    using assms by (simp only: filter_append) (simp add: filter_id_conv filter_empty_conv)
  moreover have "filter (\<lambda>x. \<not> P x) (take j xs @ drop j xs) = drop j xs"
    using assms by (simp only: filter_append) (simp add: filter_id_conv filter_empty_conv)
  ultimately show "filter P xs = take j xs" and "filter (\<lambda>x. \<not> P x) xs = drop j xs" by simp_all
qed

lemma sorted_next_mono:
  assumes "sorted_wrt (Comparator h) xs" and "0 \<notin> set xs" and "i < length xs"
    and "x \<in> set (drop i xs)"
  shows "m_next (timer_at h (xs ! i)) \<le> m_next (timer_at h x)"
proof -
  from assms(4) obtain k where "k < length xs - i" and "x = xs ! (i + k)"
    by (auto simp: in_set_conv_nth)
  then have k: "i + k < length xs" "x = xs ! (i + k)" by simp_all
  show ?thesis
  proof (cases k)
    case (Suc m)
    then have "Comparator h (xs ! i) (xs ! (i + k))"
      using sorted_wrt_nth_less [OF assms(1)] k(1) by simp
    then show ?thesis using Comparator_next_le assms(2,3) k(2) by (metis nth_mem)
  qed (use k in simp)
qed

lemma skip_due_now_split:
  assumes "sorted_wrt (Comparator h) xs" and "0 \<notin> set xs" and "it \<le> length xs"
    and "\<forall>x\<in>set (take it xs). m_next (timer_at h x) \<le> now"
    and "\<forall>x\<in>set (drop it xs). now \<le> m_next (timer_at h x)"
  shows "(\<forall>x\<in>set (take (skip_due_now h xs now it) xs). m_next (timer_at h x) \<le> now)
    \<and> (\<forall>x\<in>set (drop (skip_due_now h xs now it) xs). \<not> m_next (timer_at h x) \<le> now)"
  using assms
proof (induction h xs now it rule: skip_due_now.induct)
  case (1 h xs now it)
  show ?case
  proof (cases "it < length xs \<and> m_next (timer_at h (xs ! it)) = now")
    case True
    moreover have "set (drop (Suc it) xs) \<subseteq> set (drop it xs)"
      by (rule set_drop_subset_set_drop) simp
    ultimately show ?thesis
      using "1.IH" "1.prems"
      by (auto simp: skip_due_now.simps [of h xs now it] take_Suc_conv_app_nth)
  next
    case False
    have "\<not> m_next (timer_at h x) \<le> now" if x: "x \<in> set (drop it xs)" for x
    proof -
      have it: "it < length xs" using x by (cases "it < length xs") auto
      then have "xs ! it \<in> set (drop it xs)" by (metis Cons_nth_drop_Suc list.set_intros(1))
      then have "now < m_next (timer_at h (xs ! it))"
        using "1.prems"(5) False it by (auto simp: order.strict_iff_order)
      with sorted_next_mono [OF "1.prems"(1,2) it x] show ?thesis by simp
    qed
    with False "1.prems" show ?thesis
      by (auto simp: skip_due_now.simps [of h xs now it])
  qed
qed

lemma lower_bound_key_split:
  fixes now :: u64
  assumes "sorted_wrt (Comparator h) xs" and "0 \<notin> set xs" and "q \<noteq> 0" and "q \<notin> set xs"
  defines "it \<equiv> set_lower_bound (Comparator (h(q \<mapsto> Timer_key now))) q xs"
  shows "\<forall>x\<in>set (take it xs). m_next (timer_at h x) \<le> now"
    and "\<forall>x\<in>set (drop it xs). now \<le> m_next (timer_at h x)"
proof -
  let ?h = "h(q \<mapsto> Timer_key now)"
  have s: "sorted_wrt (Comparator ?h) xs" using assms(1,4) by (rule sorted_upd_absent)
  have key: "Comparator ?h x q \<longleftrightarrow>
      m_next (timer_at h x) < now \<or> m_next (timer_at h x) = now \<and> x < q" if "x \<in> set xs" for x
    using that assms(2-4) by (auto simp: Comparator_def Timer_key_def)
  show "\<forall>x\<in>set (take it xs). m_next (timer_at h x) \<le> now"
  proof
    fix x assume x: "x \<in> set (take it xs)"
    with take_lower_bound [of x "Comparator ?h" q xs] have "Comparator ?h x q"
      by (simp add: it_def)
    with key in_set_takeD [OF x] show "m_next (timer_at h x) \<le> now" by auto
  qed
  show "\<forall>x\<in>set (drop it xs). now \<le> m_next (timer_at h x)"
  proof
    fix x assume x: "x \<in> set (drop it xs)"
    with timer_order.drop_lower_bound [OF s, of x q] have "\<not> Comparator ?h x q"
      by (simp add: it_def)
    with key in_set_dropD [OF x] show "now \<le> m_next (timer_at h x)" by auto
  qed
qed

definition expiring :: "u64 \<Rightarrow> 'cb TimerManager \<Rightarrow> addr list" where
  "expiring now tm =
     (if fst (detectClockRollover now tm) then m_timers tm else filter (due now tm) (m_timers tm))"

lemma listExpiredCb_split:
  fixes now :: u64
  assumes "timer_inv tm" and "m_store tm q = None" and "q \<noteq> 0"
  defines "h \<equiv> m_store tm" and "xs \<equiv> m_timers tm"
  defines "j \<equiv> skip_due_now h xs now
    (if fst (detectClockRollover now tm) then length xs
     else set_lower_bound (Comparator (h(q \<mapsto> Timer_key now))) q xs)"
  shows "take j xs = expiring now tm" and "set (drop j xs) = set xs - set (expiring now tm)"
proof -
  have s: "sorted_wrt (Comparator h) xs" and nz: "0 \<notin> set xs" and q: "q \<notin> set xs"
    using timer_invD [OF assms(1)] assms(2) unfolding h_def xs_def by auto
  have ordered: "distinct xs" using s by (rule timer_order.sorted_distinct)
  show split: "take j xs = expiring now tm"
  proof (cases "fst (detectClockRollover now tm)")
    case True
    then have "j = length xs" by (simp add: j_def skip_due_now.simps)
    with True show ?thesis by (simp add: expiring_def xs_def)
  next
    case False
    note lb = lower_bound_key_split [OF s nz assms(3) q, of now]
    show ?thesis
      using filter_eq_take(1) [of j xs "\<lambda>x. m_next (timer_at h x) \<le> now"]
        skip_due_now_split [OF s nz set_lower_bound_le lb] False
      by (simp add: expiring_def due_def [abs_def] j_def h_def xs_def)
  qed
  show "set (drop j xs) = set xs - set (expiring now tm)"
    unfolding split [symmetric]
    using set_take_Un_drop [of j xs] set_take_disj_set_drop_if_distinct [OF ordered, of j j]
    by auto
qed

lemma listExpiredCb_spec:
  assumes "timer_inv tm" and "m_store tm q = None" and "q \<noteq> 0"
    and "listExpiredCb now q cbs tm = (cbs', tm')"
  shows "cbs' = cbs @ map (\<lambda>p. m_timer_cb (timer_at (m_store tm) p)) (expiring now tm)"
    and "m_store tm' = (\<lambda>r. if r \<in> set (expiring now tm)
           then Some (fired now (timer_at (m_store tm) r)) else m_store tm r)"
    and "sorted_wrt (Comparator (m_store tm')) (m_timers tm')"
    and "set (m_timers tm') = (set (m_timers tm) - set (expiring now tm)) \<union>
           {p \<in> set (expiring now tm). m_recurring (timer_at (m_store tm) p)}"
proof -
  let ?h = "m_store tm" and ?xs = "m_timers tm" and ?ps = "expiring now tm"
  have s: "sorted_wrt (Comparator ?h) ?xs" and nz: "0 \<notin> set ?xs"
    using timer_invD [OF assms(1)] by auto
  have "cbs' = cbs @ map (\<lambda>p. m_timer_cb (timer_at ?h p)) ?ps
    \<and> m_store tm' = (\<lambda>r. if r \<in> set ?ps then Some (fired now (timer_at ?h r)) else ?h r)
    \<and> sorted_wrt (Comparator (m_store tm')) (m_timers tm')
    \<and> set (m_timers tm') = (set ?xs - set ?ps) \<union> {p \<in> set ?ps. m_recurring (timer_at ?h p)}"
  proof (cases "?xs = [] \<or> \<not> fst (detectClockRollover now tm) \<and> now < m_next (timer_at ?h (hd ?xs))")
    case True
    have "?ps = []"
    proof (cases "?xs = []")
      case False
      then have "m_next (timer_at ?h (hd ?xs)) \<le> m_next (timer_at ?h x)" if "x \<in> set ?xs" for x
        using that sorted_next_mono [OF s nz, of 0 x] by (simp add: hd_conv_nth)
      with True False show ?thesis
        by (fastforce simp: expiring_def due_def filter_empty_conv)
    qed (simp add: expiring_def)
    moreover have "cbs' = cbs \<and> m_store tm' = ?h \<and> m_timers tm' = ?xs"
      using True assms(4) by (auto simp: listExpiredCb_def detectClockRollover_def Let_def split: if_splits)
    ultimately show ?thesis using s by simp
  next
    case False
    define j where "j = skip_due_now ?h ?xs now
      (if fst (detectClockRollover now tm) then length ?xs
       else set_lower_bound (Comparator (?h(q \<mapsto> Timer_key now))) q ?xs)"
    note split = listExpiredCb_split [OF assms(1-3), of now, folded j_def]
    have "expire_loop now (take j ?xs) cbs ?h (drop j ?xs) = (cbs', m_store tm', m_timers tm')"
      using False assms(4) unfolding listExpiredCb_def j_def
      by (auto simp: detectClockRollover_def Let_def split: prod.splits if_splits)
    then have loop: "expire_loop now ?ps cbs ?h (drop j ?xs) = (cbs', m_store tm', m_timers tm')"
      unfolding split(1) .
    have "distinct ?ps" using timer_order.sorted_distinct [OF s] by (simp add: split(1) [symmetric])
    moreover have "set ?ps \<inter> set (drop j ?xs) = {}" unfolding split(2) by auto
    ultimately show ?thesis
      using expire_loop_spec [OF _ _ sorted_wrt_drop [OF s] loop] unfolding split(2) by blast
  qed
  then show "cbs' = cbs @ map (\<lambda>p. m_timer_cb (timer_at (m_store tm) p)) (expiring now tm)"
    and "m_store tm' = (\<lambda>r. if r \<in> set (expiring now tm)
           then Some (fired now (timer_at (m_store tm) r)) else m_store tm r)"
    and "sorted_wrt (Comparator (m_store tm')) (m_timers tm')"
    and "set (m_timers tm') = (set (m_timers tm) - set (expiring now tm)) \<union>
           {p \<in> set (expiring now tm). m_recurring (timer_at (m_store tm) p)}"
    by blast+
qed

lemma set_expiring: "set (expiring now tm) \<subseteq> set (m_timers tm)"
  by (auto simp: expiring_def)

lemma fired_simps [simp]:
  "m_recurring (fired now t) = m_recurring t" "m_interval (fired now t) = m_interval t"
  "m_timer_cb (fired now t) = (if m_recurring t then m_timer_cb t else None)"
  "m_recurring t \<Longrightarrow> fired now t = rearm now t"
  by (simp_all add: fired_def rearm_def)

lemma listExpiredCb_inv [inv_intros]:
  assumes "timer_inv tm" and "m_store tm q = None" and "q \<noteq> 0"
  shows "timer_inv (snd (listExpiredCb now q cbs tm))"
proof -
  obtain cbs' tm' where run: "listExpiredCb now q cbs tm = (cbs', tm')" by fastforce
  note spec = listExpiredCb_spec [OF assms run]
  have "p \<in> set (m_timers tm')" if "m_store tm' p = Some t" "m_timer_cb t \<noteq> None" for p t
    using that timer_invD(4) [OF assms(1), of p t] unfolding spec(2,4)
    by (auto split: if_splits)
  moreover have "set (m_timers tm') \<subseteq> dom (m_store tm')"
    using timer_invD(2) [OF assms(1)] set_expiring unfolding spec(2,4) by fastforce
  moreover have "0 \<notin> dom (m_store tm')"
    using timer_invD(2,3) [OF assms(1)] set_expiring unfolding spec(2)
    by (fastforce split: if_splits)
  ultimately show ?thesis using spec(3) run by (auto simp: timer_inv_def)
qed

text \<open>So every state threads can bring a manager into satisfies the invariant.\<close>

interpretation timer_machine: inductive_invariant timer_init timer_step timer_inv
proof
  show "timer_init tm \<Longrightarrow> timer_inv tm" for tm :: "'a TimerManager"
    by (auto simp: timer_init_def intro: inv_intros)
  show "timer_inv tm \<Longrightarrow> timer_step tm tm' \<Longrightarrow> timer_inv tm'" for tm tm' :: "'a TimerManager"
    by (erule timer_step.cases) (auto intro: inv_intros)
qed

section \<open>The operations on the table of armed timers\<close>

lemma armed_apply: "armed tm p = (if p \<in> set (m_timers tm) then m_store tm p else None)"
  by (simp add: armed_def restrict_map_def)

lemma dom_armed: "timer_inv tm \<Longrightarrow> dom (armed tm) = set (m_timers tm)"
  using timer_invD(2) [of tm] by (auto simp: armed_def)

lemma armed_reinsert:
  assumes "sorted_wrt (Comparator h) xs" and "p \<notin> set xs"
    and "m_store tm = h(p \<mapsto> t)"
    and "m_timers tm = fst (set_insert (Comparator (h(p \<mapsto> t))) p xs)"
  shows "armed tm = (h |` set xs)(p \<mapsto> t)"
  using timer_order.set_insert_set [OF sorted_upd_absent [OF assms(1,2), of t], of p] assms(3,4)
  by (auto simp: armed_def restrict_map_def fun_eq_iff)

lemma armed_add:
  assumes "timer_inv tm" and "m_store tm p = None"
  shows "armed (snd (addTimer interval cb recurring now p tm)) =
    (armed tm)(p \<mapsto> Timer_new interval cb recurring now)"
  unfolding armed_def [of tm]
  by (rule armed_reinsert [OF timer_invD(1) [OF assms(1)]])
     (use timer_invD(2) [OF assms(1)] assms(2) in \<open>auto simp: addTimer_def\<close>)

lemma armed_cancel:
  assumes "timer_inv tm" and "Timer_cancel p tm = Inr (True, tm')"
  shows "armed tm' = (armed tm)(p := None)"
    and "\<exists>t. m_store tm' p = Some t \<and> m_timer_cb t = None"
proof -
  from assms(2) obtain t where t: "m_store tm p = Some t" "m_timer_cb t \<noteq> None"
    and tm': "tm' = tm\<lparr>m_store := (m_store tm)(p \<mapsto> t\<lparr>m_timer_cb := None\<rparr>),
      m_timers := set_erase_at (set_find (Comparator (m_store tm)) p (m_timers tm)) (m_timers tm)\<rparr>"
    by (auto simp: Timer_cancel_def Let_def split: option.splits if_splits)
  note mem = timer_invD(4) [OF assms(1) t]
  show "armed tm' = (armed tm)(p := None)"
    using erase_found_timer(2) [OF assms(1) mem] unfolding tm'
    by (auto simp: armed_def restrict_map_def fun_eq_iff)
  show "\<exists>t. m_store tm' p = Some t \<and> m_timer_cb t = None" unfolding tm' by simp
qed

lemma refresh_cases:
  assumes "timer_inv tm" and "m_store tm p = Some t"
  shows "(p \<notin> set (m_timers tm) \<or> m_timer_cb t = None) \<and> Timer_refresh p now tm = Inr (False, tm)
    \<or> p \<in> set (m_timers tm) \<and> m_timer_cb t \<noteq> None \<and>
      (\<exists>tm'. Timer_refresh p now tm = Inr (True, tm') \<and> m_store tm' = (m_store tm)(p \<mapsto> rearm now t)
        \<and> armed tm' = (armed tm)(p \<mapsto> rearm now t) \<and> m_tickled tm' = m_tickled tm)"
proof (cases "p \<in> set (m_timers tm) \<and> m_timer_cb t \<noteq> None")
  case False
  then show ?thesis
    using assms by (auto simp: Timer_refresh_def Let_def timer_found_iff split: option.splits)
next
  case True
  note erased = erase_found_timer [OF assms(1) conjunct1 [OF True]]
  let ?xs = "set_erase_at (set_find (Comparator (m_store tm)) p (m_timers tm)) (m_timers tm)"
  let ?h = "(m_store tm)(p \<mapsto> rearm now t)"
  let ?tm = "tm\<lparr>m_store := ?h, m_timers := fst (set_insert (Comparator ?h) p ?xs)\<rparr>"
  have "Timer_refresh p now tm = Inr (True, ?tm)"
    using True assms by (auto simp: Timer_refresh_def Let_def rearm_def timer_found_iff)
  moreover have "armed ?tm = (m_store tm |` set ?xs)(p \<mapsto> rearm now t)"
    by (rule armed_reinsert [OF erased(1)]) (simp_all add: erased(2))
  moreover have "(m_store tm |` set ?xs)(p \<mapsto> rearm now t) = (armed tm)(p \<mapsto> rearm now t)"
    unfolding erased(2) by (auto simp: armed_def restrict_map_def fun_eq_iff)
  ultimately show ?thesis using True by auto
qed

lemma reset_cases:
  assumes "timer_inv tm" and "m_store tm p = Some t"
    and "\<not> (m_interval t = interval \<and> \<not> fromNow)"
    and "p \<in> set (m_timers tm)" and "m_timer_cb t \<noteq> None"
    and "t' = with_interval interval fromNow now t"
  shows "\<exists>front tm'. Timer_reset p interval fromNow now tm = Inr (True, front, tm')
    \<and> m_store tm' = (m_store tm)(p \<mapsto> t') \<and> armed tm' = (armed tm)(p \<mapsto> t')"
proof -
  note erased = erase_found_timer [OF assms(1,4)]
  let ?xs = "set_erase_at (set_find (Comparator (m_store tm)) p (m_timers tm)) (m_timers tm)"
  obtain front tm' where add:
    "addTimer_locked p (tm\<lparr>m_store := (m_store tm)(p \<mapsto> t'), m_timers := ?xs\<rparr>) = (front, tm')"
    by fastforce
  have "Timer_reset p interval fromNow now tm = Inr (True, front, tm')"
    using assms(2-5) add timer_found_iff [OF assms(1), of p]
    by (auto simp: Timer_reset_def Let_def assms(6) with_interval_def split: prod.splits)
  moreover have st: "m_store tm' = (m_store tm)(p \<mapsto> t')"
    "m_timers tm' = fst (set_insert (Comparator ((m_store tm)(p \<mapsto> t'))) p ?xs)"
    using arg_cong [OF add, of "m_store \<circ> snd"] arg_cong [OF add, of "m_timers \<circ> snd"] by simp_all
  moreover have "armed tm' = (m_store tm |` set ?xs)(p \<mapsto> t')"
    by (rule armed_reinsert [OF erased(1) _ st]) (simp add: erased(2))
  moreover have "(m_store tm |` set ?xs)(p \<mapsto> t') = (armed tm)(p \<mapsto> t')"
    unfolding erased(2) by (auto simp: armed_def restrict_map_def fun_eq_iff)
  ultimately show ?thesis by metis
qed

lemma armed_expire:
  assumes "timer_inv tm" and "m_store tm q = None" and "q \<noteq> 0"
  shows "armed (snd (listExpiredCb now q cbs tm)) = spec_expire (fst (detectClockRollover now tm)) now (armed tm)"
proof
  fix p
  obtain cbs' tm' where run: "listExpiredCb now q cbs tm = (cbs', tm')" by fastforce
  note spec = listExpiredCb_spec [OF assms(1-3) run]
  have exp: "p \<in> set (expiring now tm) \<longleftrightarrow>
      p \<in> set (m_timers tm) \<and> (fst (detectClockRollover now tm) \<or> due now tm p)"
    by (auto simp: expiring_def)
  obtain t where t: "p \<in> set (m_timers tm) \<Longrightarrow> m_store tm p = Some t"
    using timer_invD(2) [OF assms(1)] by fastforce
  show "armed (snd (listExpiredCb now q cbs tm)) p = spec_expire (fst (detectClockRollover now tm)) now (armed tm) p"
  proof (cases "p \<in> set (m_timers tm)")
    case True
    then show ?thesis
      using t exp unfolding run snd_conv armed_apply spec(2,4) spec_expire_def
      by (auto simp: armed_apply due_def)
  next
    case False
    then show ?thesis
      using exp unfolding run snd_conv armed_apply spec(4) spec_expire_def by (simp add: armed_apply)
  qed
qed

section \<open>Cancelled timers\<close>

definition dead :: "addr \<Rightarrow> 'cb TimerManager \<Rightarrow> bool" where
  "dead p tm \<longleftrightarrow> p \<notin> set (m_timers tm) \<and> (\<exists>t. m_store tm p = Some t \<and> m_timer_cb t = None)"

lemma dead_armed:
  "dead p tm \<longleftrightarrow> armed tm p = None \<and> (\<exists>t. m_store tm p = Some t \<and> m_timer_cb t = None)"
  by (auto simp: dead_def armed_apply)

lemma dead_step:
  assumes "timer_inv tm" and "dead p tm" and "timer_step tm tm'"
  shows "dead p tm'"
proof -
  have absent: "p \<notin> set (m_timers tm)" using assms(2) by (simp add: dead_def)
  from assms(3) show ?thesis
  proof cases
    case (step_add r interval cb recurring now)
    then show ?thesis
      using assms(2) armed_add [OF assms(1) step_add(2), of interval cb recurring now]
      by (auto simp: dead_armed addTimer_def)
  next
    case (step_cancel r b)
    show ?thesis
    proof (cases b)
      case True
      have "r \<noteq> p" using step_cancel True assms(2) by (auto simp: dead_def Timer_cancel_def)
      moreover have "m_store tm' p = m_store tm p"
        using step_cancel True \<open>r \<noteq> p\<close> by (auto simp: Timer_cancel_def Let_def split: option.splits if_splits)
      ultimately show ?thesis
        using assms(2) armed_cancel(1) [OF assms(1)] step_cancel True by (auto simp: dead_armed)
    next
      case False
      with step_cancel have "tm' = tm" by (auto simp: Timer_cancel_def Let_def split: option.splits if_splits)
      with assms(2) show ?thesis by simp
    qed
  next
    case (step_refresh r now b)
    then obtain t where "m_store tm r = Some t" by (auto simp: Timer_refresh_def split: option.splits)
    from refresh_cases [OF assms(1) this, of now] step_refresh assms(2) absent show ?thesis
      by (auto simp: dead_armed)
  next
    case (step_reset r interval fromNow now b front)
    then obtain t where t: "m_store tm r = Some t" by (auto simp: Timer_reset_def split: option.splits)
    show ?thesis
    proof (cases "tm' = tm")
      case False
      then have "r \<in> set (m_timers tm)" "m_timer_cb t \<noteq> None" "\<not> (m_interval t = interval \<and> \<not> fromNow)"
        using step_reset t timer_found_iff [OF assms(1), of r]
        by (auto simp: Timer_reset_def Let_def split: if_splits)
      from reset_cases [OF assms(1) t this(3,1,2) refl, of now] this(1) step_reset assms(2) absent
      show ?thesis by (auto simp: dead_armed)
    qed (use assms(2) in simp)
  next
    case (step_next now)
    with assms(2) show ?thesis by (auto simp: dead_def getNextTimer_def Let_def split: list.splits)
  next
    case (step_expire q now cbs)
    obtain cbs' where "listExpiredCb now q cbs tm = (cbs', tm')" using step_expire(1) by (metis prod.collapse)
    note spec = listExpiredCb_spec [OF assms(1) step_expire(2,3) this]
    have "p \<notin> set (expiring now tm)" using assms(2) set_expiring by (auto simp: dead_def)
    then show ?thesis using assms(2) by (auto simp: dead_def spec(2,4))
  qed
qed

section \<open>Properties\<close>

text \<open>
  C8. Whatever threads do with a timer manager, \<^verbatim>\<open>Timer::cancel\<close> on a live timer returns:
  its unchecked \<^verbatim>\<open>erase(find(...))\<close> never erases \<^verbatim>\<open>end()\<close>, and it returns true exactly
  when the timer still had its callback.
\<close>

theorem cancel_never_erases_end:
  assumes "reach timer_init timer_step tm" and "m_store tm p = Some t"
  shows "\<exists>tm'. Timer_cancel p tm = Inr (m_timer_cb t \<noteq> None, tm')"
proof -
  have inv: "timer_inv tm" using assms(1) by (rule timer_machine.reach_inv)
  have "p \<in> set (m_timers tm)" if "m_timer_cb t \<noteq> None"
    using timer_invD(4) [OF inv assms(2) that] .
  then show ?thesis
    using assms(2) timer_found_iff [OF inv, of p] by (auto simp: Timer_cancel_def Let_def)
qed

text \<open>A manager with one one-shot timer, due at 15.\<close>

definition one_timer :: "bool TimerManager" where
  "one_timer = snd (addTimer 5 (Some True) False 10 1 (TimerManager_new 10))"

lemma reach_one_timer: "reach timer_init timer_step one_timer"
  unfolding one_timer_def
  by (rule reach_step [OF reach_init], unfold timer_init_def, blast, rule step_add)
     (simp_all add: TimerManager_new_def)

lemma one_timer_eq:
  "one_timer = \<lparr>m_store = [1 \<mapsto> Timer_new 5 (Some True) False 10], m_timers = [1],
     m_tickled = True, m_previousTime = 10\<rparr>"
  by (simp add: one_timer_def addTimer_def addTimer_locked_def set_insert_def TimerManager_new_def)

theorem cancel_never_erases_end_witness: "\<exists>tm'. Timer_cancel 1 one_timer = Inr (True, tm')"
  using cancel_never_erases_end [OF reach_one_timer, of 1 "Timer_new 5 (Some True) False 10"]
  by (simp add: one_timer_eq Timer_new_def)

text \<open>
  C4. \<^verbatim>\<open>listExpiredCb\<close> implements the table of armed timers: it fires exactly the armed
  timers whose deadline has passed, appends their callbacks in the order of their deadlines,
  disarms the one-shot ones, re-arms the recurring ones at \<^verbatim>\<open>now + interval\<close> and leaves the
  others alone. Only when the clock was set back, by more than an hour behind the last call that found a timer, it does the same
  with all armed timers, due or not. The address of the temporary key object used for the search does not matter.
  (The hour is subtracted from an unsigned number: with the last time below an hour, any step back counts.)
\<close>

theorem listExpiredCb_refines_table:
  assumes "reach timer_init timer_step tm" and "m_store tm q = None" and "q \<noteq> 0"
    and "listExpiredCb now q cbs tm = (cbs', tm')"
  defines "back \<equiv> now < m_previousTime tm \<and> now < m_previousTime tm - 3600000"
  shows "armed tm' = spec_expire back now (armed tm) \<and>
    (\<exists>ps. sorted_wrt (\<lambda>p r. m_next (timer_at (armed tm) p) \<le> m_next (timer_at (armed tm) r)) ps \<and>
       distinct ps \<and> set ps = {p \<in> dom (armed tm). back \<or> m_next (timer_at (armed tm) p) \<le> now} \<and>
       cbs' = cbs @ map (\<lambda>p. m_timer_cb (timer_at (armed tm) p)) ps) \<and>
    (armed tm \<noteq> Map.empty \<longrightarrow> m_previousTime tm' = now)"
proof -
  let ?ps = "expiring now tm" and ?h = "m_store tm"
  have inv: "timer_inv tm" using assms(1) by (rule timer_machine.reach_inv)
  have set_back: "fst (detectClockRollover now tm) = back" by (simp add: detectClockRollover_def back_def)
  have at: "timer_at (armed tm) p = timer_at ?h p" if "p \<in> set (m_timers tm)" for p
    using that by (simp add: timer_at_def armed_apply)
  have s: "sorted_wrt (Comparator ?h) ?ps"
    unfolding expiring_def using timer_invD(1) [OF inv] by (simp add: sorted_wrt_filter)
  have nz: "0 \<notin> set ?ps" and sub: "set ?ps \<subseteq> set (m_timers tm)"
    using set_expiring [of now tm] timer_invD(2,3) [OF inv] by auto
  have "sorted_wrt (\<lambda>p r. m_next (timer_at (armed tm) p) \<le> m_next (timer_at (armed tm) r)) ?ps"
    by (rule sorted_wrt_congI [OF s]) (use Comparator_next_le nz sub at in \<open>metis subsetD\<close>)
  moreover have "distinct ?ps" using s by (rule timer_order.sorted_distinct)
  moreover have "set ?ps = {p \<in> dom (armed tm). back \<or> m_next (timer_at (armed tm) p) \<le> now}"
    using at by (auto simp: expiring_def set_back due_def dom_armed [OF inv])
  moreover have "cbs' = cbs @ map (\<lambda>p. m_timer_cb (timer_at (armed tm) p)) ?ps"
    using listExpiredCb_spec(1) [OF inv assms(2,3,4)] at sub by (auto intro!: map_cong)
  moreover have "armed tm' = spec_expire back now (armed tm)"
    using armed_expire [OF inv assms(2,3), of now cbs] assms(4) set_back by simp
  moreover have "m_previousTime tm' = now" if "armed tm \<noteq> Map.empty"
  proof -
    have "m_timers tm \<noteq> []" using that dom_armed [OF inv] by auto
    then show ?thesis
      using assms(4) by (auto simp: listExpiredCb_def detectClockRollover_def Let_def split: if_splits prod.splits)
  qed
  ultimately show ?thesis by blast
qed

text \<open>A timer that is due, and the same timer when the clock was set back from 10 to 3.\<close>

theorem listExpiredCb_refines_table_witness:
  "armed (snd (listExpiredCb 15 2 [] one_timer)) = spec_expire False 15 (armed one_timer) \<and>
   fst (listExpiredCb 15 2 [] one_timer) = [Some True] \<and>
   armed (snd (listExpiredCb 3 2 [] one_timer)) = spec_expire True 3 (armed one_timer)"
proof -
  have "m_store one_timer 2 = None" "m_previousTime one_timer = 10" by (simp_all add: one_timer_eq)
  with listExpiredCb_refines_table [OF reach_one_timer this(1) _ surjective_pairing, of 15 "[]"]
    listExpiredCb_refines_table [OF reach_one_timer this(1) _ surjective_pairing, of 3 "[]"]
  have "armed (snd (listExpiredCb 15 2 [] one_timer)) = spec_expire False 15 (armed one_timer)"
    "armed (snd (listExpiredCb 3 2 [] one_timer)) = spec_expire True 3 (armed one_timer)"
    by simp_all
  moreover have "fst (listExpiredCb 15 2 [] one_timer) = [Some True]"
    by (simp add: one_timer_eq listExpiredCb_def detectClockRollover_def Let_def skip_due_now.simps
        Comparator_def Timer_new_def Timer_key_def)
  ultimately show ?thesis by simp
qed

text \<open>
  C24. A timer that was cancelled never fires again: in no later state is it armed, so no
  later \<^verbatim>\<open>listExpiredCb\<close> hands out its callback, and no call re-arms it.
\<close>

theorem cancelled_stays_disarmed:
  assumes "reach timer_init timer_step tm" and "Timer_cancel p tm = Inr (True, tm1)"
    and "timer_step\<^sup>*\<^sup>* tm1 tm2"
  shows "p \<notin> dom (armed tm2) \<and> p \<notin> set (expiring now tm2) \<and> Timer_cancel p tm2 = Inr (False, tm2)
    \<and> Timer_refresh p now tm2 = Inr (False, tm2)"
proof -
  have inv: "timer_inv tm" using assms(1) by (rule timer_machine.reach_inv)
  have "timer_inv tm2 \<and> dead p tm2"
    using assms(3)
  proof (induction rule: rtranclp_induct)
    case base
    show ?case
      using cancel_inv [OF inv assms(2)] armed_cancel [OF inv assms(2)] by (auto simp: dead_armed)
  next
    case (step tm tm')
    then show ?case using dead_step timer_machine.inv_step by blast
  qed
  then show ?thesis
    using set_expiring [of now tm2]
    by (auto simp: dead_def armed_apply Timer_cancel_def Timer_refresh_def split: if_splits)
qed

theorem cancelled_stays_disarmed_witness:
  "\<exists>tm1. Timer_cancel 1 one_timer = Inr (True, tm1) \<and> 1 \<notin> set (expiring 99 (snd (getNextTimer 20 tm1)))"
proof -
  obtain tm1 where c: "Timer_cancel 1 one_timer = Inr (True, tm1)"
    by (auto simp: one_timer_eq Timer_cancel_def Timer_new_def set_find_def Comparator_def Let_def)
  have "timer_step\<^sup>*\<^sup>* tm1 (snd (getNextTimer 20 tm1))" by (rule r_into_rtranclp, rule step_next)
  from cancelled_stays_disarmed [OF reach_one_timer c this, of 99] c show ?thesis by blast
qed

text \<open>
  \<^verbatim>\<open>getNextTimer\<close> answers \<^verbatim>\<open>~0ull\<close> when no timer is armed, 0 when one is due, and
  otherwise the exact time left until the earliest deadline: sleeping that long is neither
  too short for the earliest timer nor too long for any.
\<close>

theorem getNextTimer_earliest:
  assumes "reach timer_init timer_step tm"
  shows "case getNextTimer now tm of (r, tm') \<Rightarrow>
     armed tm' = armed tm \<and> \<not> m_tickled tm' \<and>
     (armed tm = Map.empty \<longrightarrow> r = u64_max) \<and>
     (\<forall>p t. armed tm p = Some t \<longrightarrow> (if m_next t \<le> now then r = 0 else unat now + unat r \<le> unat (m_next t))) \<and>
     (armed tm \<noteq> Map.empty \<longrightarrow> (\<exists>p t. armed tm p = Some t \<and> (m_next t \<le> now \<or> now + r = m_next t)))"
proof (cases "m_timers tm")
  case Nil
  then show ?thesis by (simp add: getNextTimer_def armed_def)
next
  case (Cons p ps)
  have inv: "timer_inv tm" using assms by (rule timer_machine.reach_inv)
  obtain t where t: "m_store tm p = Some t" using timer_invD(2) [OF inv] Cons by auto
  have ptr: "armed tm p = Some t" using t Cons by (simp add: armed_apply)
  have least: "m_next t \<le> m_next t'" if "armed tm p' = Some t'" for p' t'
  proof -
    have "p' \<in> set (drop 0 (m_timers tm))" and "m_store tm p' = Some t'"
      using that by (auto simp: armed_apply split: if_splits)
    moreover have "0 \<notin> set (m_timers tm)" using timer_invD(2,3) [OF inv] by auto
    ultimately show ?thesis
      using sorted_next_mono [OF timer_invD(1) [OF inv], of 0 p'] t Cons by auto
  qed
  have run: "getNextTimer now tm = (if m_next t \<le> now then 0 else m_next t - now, tm\<lparr>m_tickled := False\<rparr>)"
    using Cons t by (simp add: getNextTimer_def)
  have keep: "armed (tm\<lparr>m_tickled := False\<rparr>) = armed tm" and some: "armed tm \<noteq> Map.empty"
    using ptr by (auto simp: armed_def)
  show ?thesis
  proof (cases "m_next t \<le> now")
    case True
    have "unat now \<le> unat (m_next t')" if "\<not> m_next t' \<le> now" for t' :: "'a Timer"
      using that by (simp add: word_le_nat_alt)
    with True keep some ptr show ?thesis unfolding run by auto
  next
    case False
    have bound: "unat now + unat (m_next t - now) \<le> unat (m_next t') \<and> \<not> m_next t' \<le> now"
      if "armed tm p' = Some t'" for p' t'
      using least [OF that] False by (simp add: unat_sub word_le_nat_alt)
    have "now + (m_next t - now) = m_next t" by simp
    with False keep some ptr bound show ?thesis unfolding run by (simp split del: if_split) blast
  qed
qed

theorem getNextTimer_earliest_witness: "fst (getNextTimer 12 one_timer) = 3"
proof -
  have "armed one_timer = [1 \<mapsto> Timer_new 5 (Some True) False 10]"
    by (auto simp: one_timer_eq armed_def restrict_map_def)
  then show ?thesis
    using getNextTimer_earliest [OF reach_one_timer, of 12]
    by (auto simp: Timer_new_def split: prod.splits if_splits)
qed

text \<open>
  C13. The remaining operations on the table: adding arms the new timer at \<^verbatim>\<open>now + interval\<close>,
  cancelling an active timer disarms exactly it, \<^verbatim>\<open>refresh\<close> and \<^verbatim>\<open>reset\<close> of an armed timer
  move exactly its deadline (and interval), and \<^verbatim>\<open>refresh\<close> answers false without effect on
  a timer that has fired or was cancelled.
\<close>

theorem timer_operations_refine_table:
  assumes "reach timer_init timer_step tm"
  shows "(m_store tm p = None \<longrightarrow>
        armed (snd (addTimer interval cb recurring now p tm)) =
          (armed tm)(p \<mapsto> Timer_new interval cb recurring now)) \<and>
     (Timer_cancel p tm = Inr (True, tm') \<longrightarrow> armed tm' = (armed tm)(p := None)) \<and>
     (armed tm p = Some t \<and> m_timer_cb t \<noteq> None \<longrightarrow>
        (\<exists>tm'. Timer_refresh p now tm = Inr (True, tm') \<and> armed tm' = (armed tm)(p \<mapsto> rearm now t))) \<and>
     (m_store tm p = Some t \<and> (armed tm p = None \<or> m_timer_cb t = None) \<longrightarrow>
        Timer_refresh p now tm = Inr (False, tm)) \<and>
     (armed tm p = Some t \<and> m_timer_cb t \<noteq> None \<and> (m_interval t \<noteq> interval \<or> fromNow) \<longrightarrow>
        (\<exists>front tm'. Timer_reset p interval fromNow now tm = Inr (True, front, tm') \<and>
           armed tm' = (armed tm)(p \<mapsto> with_interval interval fromNow now t)))"
proof -
  have inv: "timer_inv tm" using assms by (rule timer_machine.reach_inv)
  have arm: "armed tm p = Some t \<longleftrightarrow> p \<in> set (m_timers tm) \<and> m_store tm p = Some t"
    by (auto simp: armed_apply)
  have none: "m_store tm p = Some t \<Longrightarrow> armed tm p = None \<longleftrightarrow> p \<notin> set (m_timers tm)"
    by (auto simp: armed_apply)
  show ?thesis
  proof (intro conjI impI)
    show "armed (snd (addTimer interval cb recurring now p tm)) =
        (armed tm)(p \<mapsto> Timer_new interval cb recurring now)" if "m_store tm p = None"
      using armed_add [OF inv that] .
    show "armed tm' = (armed tm)(p := None)" if "Timer_cancel p tm = Inr (True, tm')"
      using armed_cancel(1) [OF inv that] .
    show "\<exists>tm'. Timer_refresh p now tm = Inr (True, tm') \<and> armed tm' = (armed tm)(p \<mapsto> rearm now t)"
      if "armed tm p = Some t \<and> m_timer_cb t \<noteq> None"
      using that refresh_cases [OF inv, of p t now] unfolding arm by auto
    show "Timer_refresh p now tm = Inr (False, tm)"
      if "m_store tm p = Some t \<and> (armed tm p = None \<or> m_timer_cb t = None)"
      using that refresh_cases [OF inv, of p t now] none by auto
    show "\<exists>front tm'. Timer_reset p interval fromNow now tm = Inr (True, front, tm') \<and>
        armed tm' = (armed tm)(p \<mapsto> with_interval interval fromNow now t)"
      if "armed tm p = Some t \<and> m_timer_cb t \<noteq> None \<and> (m_interval t \<noteq> interval \<or> fromNow)"
      using that reset_cases [OF inv _ _ _ _ refl, of p t interval fromNow now] unfolding arm by blast
  qed
qed

theorem timer_operations_refine_table_witness:
  "armed (snd (addTimer 7 (Some False) True 10 3 one_timer)) =
     (armed one_timer)(3 \<mapsto> Timer_new 7 (Some False) True 10)"
  using timer_operations_refine_table [OF reach_one_timer, of 3 7 "Some False" True 10]
  by (simp add: one_timer_eq)

text \<open>
  \<^verbatim>\<open>addTimer\<close> calls \<^verbatim>\<open>onTimerInsertedAtFront\<close> exactly when the new timer has become
  the earliest one and the manager was not already told so since the last \<^verbatim>\<open>getNextTimer\<close>.
\<close>

theorem addTimer_wakes_iff_earliest:
  assumes "reach timer_init timer_step tm" and "m_store tm p = None" and "p \<noteq> 0"
  shows "fst (addTimer interval cb recurring now p tm) \<longleftrightarrow>
     \<not> m_tickled tm \<and>
     (\<forall>r t. armed tm r = Some t \<longrightarrow> now + interval < m_next t \<or> now + interval = m_next t \<and> p < r)"
proof -
  let ?t = "Timer_new interval cb recurring now" and ?h = "(m_store tm)(p \<mapsto> Timer_new interval cb recurring now)"
  have inv: "timer_inv tm" using assms(1) by (rule timer_machine.reach_inv)
  have p: "p \<notin> set (m_timers tm)" using timer_invD(2) [OF inv] assms(2) by auto
  have s: "sorted_wrt (Comparator ?h) (m_timers tm)"
    using timer_invD(1) [OF inv] p by (rule sorted_upd_absent)
  have cmp: "Comparator ?h p r \<longleftrightarrow> now + interval < m_next t \<or> now + interval = m_next t \<and> p < r"
    if "armed tm r = Some t" for r t
  proof -
    have "r \<in> set (m_timers tm)" "m_store tm r = Some t" using that by (auto simp: armed_apply split: if_splits)
    moreover then have "r \<noteq> p" "r \<noteq> 0" using p timer_invD(3) [OF inv] by auto
    ultimately show ?thesis using assms(3) by (auto simp: Comparator_def Timer_new_def)
  qed
  have "fst (snd (set_insert (Comparator ?h) p (m_timers tm))) = 0
    \<longleftrightarrow> (\<forall>r\<in>set (m_timers tm). Comparator ?h p r)"
    using timer_order.set_insert_at_front [OF s p] .
  also have "\<dots> \<longleftrightarrow> (\<forall>r t. armed tm r = Some t \<longrightarrow> Comparator ?h p r)"
    using dom_armed [OF inv] by blast
  finally show ?thesis
    using cmp by (auto simp: addTimer_def addTimer_locked_def Let_def split: prod.splits)
qed

theorem addTimer_wakes_iff_earliest_witness:
  "fst (addTimer 2 (Some False) False 10 3 (snd (getNextTimer 10 one_timer)))"
proof -
  have r: "reach timer_init timer_step (snd (getNextTimer 10 one_timer))"
    by (rule reach_step [OF reach_one_timer step_next])
  show ?thesis
    by (subst addTimer_wakes_iff_earliest [OF r])
       (auto simp: one_timer_eq getNextTimer_def armed_def restrict_map_def Timer_new_def split: if_splits)
qed

text \<open>
  The clock is taken to have rolled over when it is more than an hour behind the
  previous reading; but while the previous reading is below one hour the subtraction wraps
  around, and any step backwards counts as a rollover.
\<close>

theorem detectClockRollover_iff:
  "fst (detectClockRollover now tm) \<longleftrightarrow>
     (if 3600000 \<le> m_previousTime tm then unat now + 3600000 < unat (m_previousTime tm)
      else now < m_previousTime tm)"
proof (cases "3600000 \<le> m_previousTime tm")
  case True
  then have "unat (m_previousTime tm - 3600000) = unat (m_previousTime tm) - 3600000"
    by (simp add: unat_sub)
  with True show ?thesis
    by (auto simp: detectClockRollover_def word_less_nat_alt word_le_nat_alt)
next
  case False
  then have "now < m_previousTime tm - 3600000" if "now < m_previousTime tm"
    using that by (simp add: unat_sub_if' word_less_nat_alt word_le_nat_alt)
  with False show ?thesis by (auto simp: detectClockRollover_def)
qed

end
