(* ===== verification/Fiber.thy ===== *)
theory Fiber
  imports Prelude
begin

text \<open>
  \<^verbatim>\<open>sylar/fiber.h\<close> and \<^verbatim>\<open>sylar/fiber.cpp\<close>, seen from one thread: the fiber objects, the
  two process-wide counters, the thread-local pointers \<^verbatim>\<open>t_fiber\<close>, \<^verbatim>\<open>t_thread_fiber\<close>
  (and \<^verbatim>\<open>t_scheduler_fiber\<close> of \<^verbatim>\<open>scheduler.cpp\<close>), and which flow of control the thread is
  executing. A flow of control is named by the fiber whose code it runs. A saved
  \<^verbatim>\<open>ucontext_t\<close> holds the entry point \<^verbatim>\<open>MainFunc\<close> or the flow that was switched away from,
  so that \<^verbatim>\<open>swapcontext\<close> is a store followed by a load. \<^verbatim>\<open>getcontext\<close>, \<^verbatim>\<open>makecontext\<close>
  and \<^verbatim>\<open>swapcontext\<close> are taken to succeed.
\<close>

section \<open>Data\<close>

text \<open>\<open>TERMINATED\<close> is \<^verbatim>\<open>TERM\<close> of the source (a reserved word here).\<close>

datatype State = READY | RUNNING | TERMINATED

text \<open>
  What a \<^verbatim>\<open>ucontext_t\<close> holds: only what \<^verbatim>\<open>getcontext\<close> put there, the entry set by
  \<^verbatim>\<open>makecontext\<close>, or a suspended flow.
\<close>

datatype ctx = Fresh | Entry | Flow addr

record 'c Fiber =
  m_id :: u64
  m_stacksize :: u32
  m_state :: State
  m_ctx :: ctx
  m_stack :: bool
  m_fiber_cb :: "'c option"
  m_runInScheduler :: bool

record 'c fiber_env =
  fibers :: "addr \<rightharpoonup> 'c Fiber"
  s_fiber_id :: u64
  s_fiber_count :: u64
  t_fiber :: addr
  t_thread_fiber :: addr
  t_scheduler_fiber :: addr
  executing :: addr
  raw_flag :: "addr \<Rightarrow> bool"

section \<open>Operations\<close>

definition GetFiberId :: "'c fiber_env \<Rightarrow> u64 result" where
  "GetFiberId e =
     (if t_fiber e \<noteq> 0
      then case fibers e (t_fiber e) of
             Some f \<Rightarrow> Inr (m_id f)
           | None \<Rightarrow> Inl (UndefinedBehaviour ''dangling t_fiber'')
      else Inr 0)"

definition SetThis :: "addr \<Rightarrow> 'c fiber_env \<Rightarrow> 'c fiber_env" where
  "SetThis p e = e\<lparr>t_fiber := p\<rparr>"

text \<open>
  The private constructor: the main fiber of a thread, at address \<open>p\<close>. It leaves \<^verbatim>\<open>m_runInScheduler\<close> uninitialised:
  the member is whatever the memory at \<open>p\<close> holds, \<open>raw_flag\<close>.
\<close>

definition Fiber_main :: "addr \<Rightarrow> 'c fiber_env \<Rightarrow> 'c fiber_env" where
  "Fiber_main p e =
     (let f = \<lparr>m_id = s_fiber_id e, m_stacksize = 0, m_state = RUNNING, m_ctx = Fresh,
               m_stack = False, m_fiber_cb = None, m_runInScheduler = raw_flag e p\<rparr>
      in (SetThis p e)\<lparr>fibers := (fibers e)(p \<mapsto> f), s_fiber_count := s_fiber_count e + 1,
                        s_fiber_id := s_fiber_id e + 1\<rparr>)"

text \<open>\<^verbatim>\<open>Fiber::GetThis\<close>; \<open>p\<close> is the address of a main fiber, should one be made.\<close>

definition GetThis :: "addr \<Rightarrow> 'c fiber_env \<Rightarrow> addr \<times> 'c fiber_env" where
  "GetThis p e =
     (if t_fiber e \<noteq> 0 then (t_fiber e, e)
      else (p, (Fiber_main p e)\<lparr>t_thread_fiber := p, executing := p\<rparr>))"

text \<open>
  The public constructor. The stack size is a \<^verbatim>\<open>size_t\<close> stored into a \<^verbatim>\<open>uint32_t\<close>;
  \<open>conf\<close> is the value of \<^verbatim>\<open>fiber.stack_size\<close>.
\<close>

definition Fiber_new ::
  "'c option \<Rightarrow> u64 \<Rightarrow> bool \<Rightarrow> u32 \<Rightarrow> addr \<Rightarrow> 'c fiber_env \<Rightarrow> 'c fiber_env" where
  "Fiber_new cb stacksize run_in_scheduler conf p e =
     (let f = \<lparr>m_id = s_fiber_id e,
               m_stacksize = (if stacksize \<noteq> 0 then ucast stacksize else conf),
               m_state = READY, m_ctx = Entry, m_stack = True, m_fiber_cb = cb,
               m_runInScheduler = run_in_scheduler\<rparr>
      in e\<lparr>fibers := (fibers e)(p \<mapsto> f), s_fiber_id := s_fiber_id e + 1,
           s_fiber_count := s_fiber_count e + 1\<rparr>)"

definition Fiber_delete :: "addr \<Rightarrow> 'c fiber_env \<Rightarrow> 'c fiber_env result" where
  "Fiber_delete p e =
     (case fibers e p of
        None \<Rightarrow> Inl (UndefinedBehaviour ''deleting a dangling fiber'')
      | Some f \<Rightarrow>
          (let e1 = e\<lparr>s_fiber_count := s_fiber_count e - 1\<rparr>;
               freed = (\<lambda>e'. e'\<lparr>fibers := (fibers e')(p := None)\<rparr>)
           in if m_stack f then
                sylar_assert ''m_state == TERM'' (m_state f = TERMINATED) (Inr (freed e1))
              else
                sylar_assert ''!m_cb'' (m_fiber_cb f = None)
                 (sylar_assert ''m_state == RUNNING'' (m_state f = RUNNING)
                   (Inr (freed (if t_fiber e1 = p then SetThis 0 e1 else e1))))))"

definition Fiber_reset :: "'c option \<Rightarrow> addr \<Rightarrow> 'c fiber_env \<Rightarrow> 'c fiber_env result" where
  "Fiber_reset cb p e =
     (case fibers e p of
        None \<Rightarrow> Inl (UndefinedBehaviour ''dangling fiber'')
      | Some f \<Rightarrow>
          sylar_assert ''m_stack'' (m_stack f)
           (sylar_assert ''m_state == TERM'' (m_state f = TERMINATED)
             (Inr (e\<lparr>fibers := (fibers e)(p \<mapsto>
                f\<lparr>m_fiber_cb := cb, m_ctx := Entry, m_state := READY\<rparr>)\<rparr>))))"

text \<open>
  \<^verbatim>\<open>swapcontext(&a->m_ctx, &b->m_ctx)\<close>: the current flow is stored in \<open>a\<close>, the one in
  \<open>b\<close> continues. A flow that starts at \<^verbatim>\<open>MainFunc\<close> finds out which fiber it is from
  \<^verbatim>\<open>t_fiber\<close>.
\<close>

definition swapcontext :: "addr \<Rightarrow> addr \<Rightarrow> 'c fiber_env \<Rightarrow> 'c fiber_env result" where
  "swapcontext a b e =
     (case fibers e a of
        None \<Rightarrow> Inl (UndefinedBehaviour ''null context'')
      | Some fa \<Rightarrow>
          (let e1 = e\<lparr>fibers := (fibers e)(a \<mapsto> fa\<lparr>m_ctx := Flow (executing e)\<rparr>)\<rparr>
           in case fibers e1 b of
                None \<Rightarrow> Inl (UndefinedBehaviour ''null context'')
              | Some fb \<Rightarrow>
                  (case m_ctx fb of
                     Fresh \<Rightarrow> Inl (UndefinedBehaviour ''context without a flow'')
                   | Entry \<Rightarrow> Inr (e1\<lparr>executing := t_fiber e1\<rparr>)
                   | Flow g \<Rightarrow> Inr (e1\<lparr>executing := g\<rparr>))))"

text \<open>The fiber object whose context stands for \<open>p\<close>'s resumer.\<close>

definition resumer :: "'c Fiber \<Rightarrow> 'c fiber_env \<Rightarrow> addr" where
  "resumer f e = (if m_runInScheduler f then t_scheduler_fiber e else t_thread_fiber e)"

definition Fiber_resume :: "addr \<Rightarrow> 'c fiber_env \<Rightarrow> 'c fiber_env result" where
  "Fiber_resume p e =
     (case fibers e p of
        None \<Rightarrow> Inl (UndefinedBehaviour ''dangling fiber'')
      | Some f \<Rightarrow>
          sylar_assert ''m_state != TERM && m_state != RUNNING''
            (m_state f \<noteq> TERMINATED \<and> m_state f \<noteq> RUNNING)
            (swapcontext (resumer f e) p
              ((SetThis p e)\<lparr>fibers := (fibers e)(p \<mapsto> f\<lparr>m_state := RUNNING\<rparr>)\<rparr>)))"

definition Fiber_yield :: "addr \<Rightarrow> 'c fiber_env \<Rightarrow> 'c fiber_env result" where
  "Fiber_yield p e =
     (case fibers e p of
        None \<Rightarrow> Inl (UndefinedBehaviour ''dangling fiber'')
      | Some f \<Rightarrow>
          sylar_assert ''m_state == RUNNING || m_state == TERM''
            (m_state f = RUNNING \<or> m_state f = TERMINATED)
            (let f' = (if m_state f \<noteq> TERMINATED then f\<lparr>m_state := READY\<rparr> else f)
             in swapcontext p (resumer f e)
                  ((SetThis (t_thread_fiber e) e)\<lparr>fibers := (fibers e)(p \<mapsto> f')\<rparr>)))"

text \<open>
  The end of \<^verbatim>\<open>MainFunc\<close>, after \<^verbatim>\<open>cur->m_cb()\<close> returned: \<^verbatim>\<open>cur\<close> was read when the flow
  started, so it is the fiber whose flow this is.
\<close>

definition MainFunc_end :: "'c fiber_env \<Rightarrow> 'c fiber_env result" where
  "MainFunc_end e =
     (let cur = executing e
      in case fibers e cur of
           None \<Rightarrow> Inl (UndefinedBehaviour ''dangling fiber'')
         | Some f \<Rightarrow>
             Fiber_yield cur
               (e\<lparr>fibers := (fibers e)(cur \<mapsto> f\<lparr>m_fiber_cb := None, m_state := TERMINATED\<rparr>)\<rparr>))"

section \<open>A thread that uses fibers\<close>

definition fiber_init :: "'c fiber_env \<Rightarrow> bool" where
  "fiber_init e \<longleftrightarrow> (\<exists>p raw. p \<noteq> 0 \<and> e = snd (GetThis p
     \<lparr>fibers = Map.empty, s_fiber_id = 0, s_fiber_count = 0, t_fiber = 0,
      t_thread_fiber = 0, t_scheduler_fiber = 0, executing = 0, raw_flag = raw\<rparr>))"

text \<open>
  The discipline the library itself keeps: a fiber is resumed only by the flow its
  \<^verbatim>\<open>yield\<close> goes back to, only the fiber that is executing yields or ends, and the
  scheduler fiber of the thread is chosen by the main flow (\<^verbatim>\<open>Scheduler::run\<close> on a worker
  thread, the constructor of \<^verbatim>\<open>Scheduler\<close> on the caller's).
\<close>

inductive fiber_step :: "'c fiber_env \<Rightarrow> 'c fiber_env \<Rightarrow> bool" where
  fs_new: "fibers e p = None \<Longrightarrow> p \<noteq> 0 \<Longrightarrow> fiber_step e (Fiber_new cb stacksize sched conf p e)"
| fs_resume: "fibers e p = Some f \<Longrightarrow> executing e = resumer f e \<Longrightarrow> Fiber_resume p e = Inr e' \<Longrightarrow>
     fiber_step e e'"
| fs_yield: "executing e \<noteq> t_thread_fiber e \<Longrightarrow> Fiber_yield (executing e) e = Inr e' \<Longrightarrow> fiber_step e e'"
| fs_finish: "executing e \<noteq> t_thread_fiber e \<Longrightarrow> MainFunc_end e = Inr e' \<Longrightarrow> fiber_step e e'"
| fs_reset: "Fiber_reset cb p e = Inr e' \<Longrightarrow> fiber_step e e'"
| fs_delete: "p \<noteq> t_thread_fiber e \<Longrightarrow> p \<noteq> t_scheduler_fiber e \<Longrightarrow> Fiber_delete p e = Inr e' \<Longrightarrow>
     fiber_step e e'"
| fs_worker: "executing e = t_thread_fiber e \<Longrightarrow>
     fiber_step e (e\<lparr>t_scheduler_fiber := t_thread_fiber e\<rparr>)"
| fs_caller: "executing e = t_thread_fiber e \<Longrightarrow> fibers e p = Some f \<Longrightarrow> \<not> m_runInScheduler f \<Longrightarrow>
     m_state f = READY \<Longrightarrow> fiber_step e (e\<lparr>t_scheduler_fiber := p\<rparr>)"

text \<open>A fiber other than a main fiber, whose \<^verbatim>\<open>yield\<close> goes back to the scheduler fiber.\<close>

definition in_task :: "'c Fiber \<Rightarrow> bool" where
  "in_task f \<longleftrightarrow> m_stack f \<and> m_runInScheduler f"

text \<open>The fibers whose flow is not suspended by a \<^verbatim>\<open>yield\<close>: the current one and its resumers.\<close>

definition active :: "'c fiber_env \<Rightarrow> addr set" where
  "active e = {t_thread_fiber e, executing e} \<union>
     (case fibers e (executing e) of
        Some f \<Rightarrow> if in_task f then {t_scheduler_fiber e} else {}
      | None \<Rightarrow> {})"

definition suspended :: "addr \<Rightarrow> 'c fiber_env \<Rightarrow> bool" where
  "suspended p e \<longleftrightarrow> (\<exists>f. fibers e p = Some f \<and> m_ctx f = Flow p)"

definition counted :: "'c fiber_env \<Rightarrow> bool" where
  "counted e \<longleftrightarrow> finite (dom (fibers e)) \<and> 0 \<notin> dom (fibers e) \<and>
     s_fiber_count e = of_nat (card (dom (fibers e)))"

text \<open>The main fiber of the thread and its scheduler fiber are where they belong.\<close>

definition rooted :: "'c fiber_env \<Rightarrow> bool" where
  "rooted e \<longleftrightarrow> executing e \<in> dom (fibers e) \<and>
     (\<exists>fm. fibers e (t_thread_fiber e) = Some fm \<and> \<not> m_stack fm) \<and>
     (t_scheduler_fiber e = 0 \<or>
        (\<exists>fs. fibers e (t_scheduler_fiber e) = Some fs \<and> \<not> in_task fs)) \<and>
     (t_fiber e = executing e \<or> t_fiber e = t_thread_fiber e)"

definition fiber_ok :: "addr set \<Rightarrow> addr \<Rightarrow> addr \<Rightarrow> 'c Fiber \<Rightarrow> bool" where
  "fiber_ok A m p f \<longleftrightarrow> (m_state f = RUNNING \<longleftrightarrow> p \<in> A) \<and>
     (m_state f = READY \<longrightarrow> m_ctx f = Entry \<or> m_ctx f = Flow p) \<and> (p \<noteq> m \<longrightarrow> m_stack f)"

text \<open>The flows below the current one are stored where its \<^verbatim>\<open>yield\<close> will look for them.\<close>

definition returnable :: "'c fiber_env \<Rightarrow> bool" where
  "returnable e \<longleftrightarrow> (\<forall>f. fibers e (executing e) = Some f \<longrightarrow> executing e \<noteq> t_thread_fiber e \<longrightarrow>
     suspended (t_thread_fiber e) e \<and>
     (m_runInScheduler f \<longrightarrow> suspended (t_scheduler_fiber e) e \<and> t_fiber e = executing e))"

definition fiber_inv :: "'c fiber_env \<Rightarrow> bool" where
  "fiber_inv e \<longleftrightarrow> counted e \<and> rooted e \<and> returnable e \<and>
     (\<forall>p f. fibers e p = Some f \<longrightarrow> fiber_ok (active e) (t_thread_fiber e) p f)"

section \<open>What a switch does\<close>

lemma fiber_invD:
  assumes "fiber_inv e"
  shows "counted e" and "rooted e" and "returnable e"
    and "fibers e p = Some f \<Longrightarrow> fiber_ok (active e) (t_thread_fiber e) p f"
  using assms by (auto simp: fiber_inv_def)

lemma active_eq:
  "fibers e (executing e) = Some f \<Longrightarrow> active e =
     {t_thread_fiber e, executing e} \<union> (if in_task f then {t_scheduler_fiber e} else {})"
  by (simp add: active_def)

lemma in_task_simps [simp]:
  "in_task (f\<lparr>m_state := st\<rparr>) = in_task f" "in_task (f\<lparr>m_ctx := c\<rparr>) = in_task f"
  "in_task (f\<lparr>m_fiber_cb := cb\<rparr>) = in_task f"
  by (simp_all add: in_task_def)

lemma in_task_stacked:
  assumes "fiber_inv e" "fibers e p = Some f" "p \<noteq> t_thread_fiber e"
  shows "in_task f \<longleftrightarrow> m_runInScheduler f"
  using fiber_invD(4) [OF assms(1,2)] assms(3) by (simp add: in_task_def fiber_ok_def)

lemma resumer_simps [simp]:
  "resumer (f\<lparr>m_fiber_cb := c, m_state := st\<rparr>) (e\<lparr>fibers := F\<rparr>) = resumer f e"
  by (simp add: resumer_def)

lemma Fiber_resume_eq:
  assumes "fiber_inv e" and "fibers e p = Some f" and "m_state f = READY"
    and "executing e = resumer f e" and "fibers e (executing e) = Some fr"
  shows "p \<noteq> executing e"
    and "Fiber_resume p e = Inr (e\<lparr>t_fiber := p, executing := p,
      fibers := (fibers e)(p \<mapsto> f\<lparr>m_state := RUNNING\<rparr>,
                           executing e \<mapsto> fr\<lparr>m_ctx := Flow (executing e)\<rparr>)\<rparr>)"
proof -
  have ok: "fiber_ok (active e) (t_thread_fiber e) p f" using assms by (simp add: fiber_inv_def)
  have "executing e \<in> active e" by (simp add: active_def)
  then show ne: "p \<noteq> executing e" using ok assms(3) by (auto simp: fiber_ok_def)
  have "m_ctx f = Entry \<or> m_ctx f = Flow p" using ok assms(3) by (simp add: fiber_ok_def)
  then show "Fiber_resume p e = Inr (e\<lparr>t_fiber := p, executing := p,
      fibers := (fibers e)(p \<mapsto> f\<lparr>m_state := RUNNING\<rparr>,
                           executing e \<mapsto> fr\<lparr>m_ctx := Flow (executing e)\<rparr>)\<rparr>)"
    using assms(2-5) ne
    by (auto simp: Fiber_resume_def swapcontext_def SetThis_def Let_def)
qed

text \<open>A switch back: the fiber's state is \<open>st\<close> afterwards.\<close>

lemma switch_back_eq:
  assumes "fiber_inv e" and "fibers e (executing e) = Some f" and "executing e \<noteq> t_thread_fiber e"
  shows "resumer f e \<noteq> executing e" and "suspended (resumer f e) e"
    and "swapcontext (executing e) (resumer f e)
      (e\<lparr>t_fiber := t_thread_fiber e, fibers := (fibers e)(executing e \<mapsto> g)\<rparr>) =
      Inr (e\<lparr>t_fiber := t_thread_fiber e, executing := resumer f e,
             fibers := (fibers e)(executing e \<mapsto> g\<lparr>m_ctx := Flow (executing e)\<rparr>)\<rparr>)"
proof -
  have "rooted e" "returnable e" using assms(1) by (auto simp: fiber_inv_def)
  then show sus: "suspended (resumer f e) e"
    using assms(2,3) by (auto simp: returnable_def resumer_def)
  show ne: "resumer f e \<noteq> executing e"
  proof (cases "m_runInScheduler f")
    case True
    then have "in_task f" using in_task_stacked [OF assms] by simp
    with True \<open>rooted e\<close> sus assms(2) fiber_invD(1) [OF assms(1)] show ?thesis
      by (auto simp: rooted_def resumer_def suspended_def counted_def)
  qed (use assms(3) in \<open>simp add: resumer_def\<close>)
  show "swapcontext (executing e) (resumer f e)
      (e\<lparr>t_fiber := t_thread_fiber e, fibers := (fibers e)(executing e \<mapsto> g)\<rparr>) =
      Inr (e\<lparr>t_fiber := t_thread_fiber e, executing := resumer f e,
             fibers := (fibers e)(executing e \<mapsto> g\<lparr>m_ctx := Flow (executing e)\<rparr>)\<rparr>)"
    using sus ne by (auto simp: swapcontext_def suspended_def)
qed

section \<open>Every step keeps the invariant\<close>

lemma fiber_init_inv: "fiber_init e \<Longrightarrow> fiber_inv e"
  by (auto simp: fiber_init_def fiber_inv_def counted_def rooted_def returnable_def fiber_ok_def
      GetThis_def Fiber_main_def SetThis_def active_def split: if_splits)

lemma Fiber_new_inv [inv_intros]:
  assumes "fiber_inv e" and "fibers e p = None" and "p \<noteq> 0"
  shows "fiber_inv (Fiber_new cb stacksize sched conf p e)"
proof -
  let ?e = "Fiber_new cb stacksize sched conf p e"
  obtain x where x: "fibers e (executing e) = Some x"
    using fiber_invD(2) [OF assms(1)] by (auto simp: rooted_def)
  with assms(2) have "executing e \<noteq> p" by auto
  with x have act: "active ?e = active e" by (simp add: active_def Fiber_new_def)
  have "p \<noteq> t_scheduler_fiber e" "p \<noteq> t_thread_fiber e"
    using fiber_invD(2) [OF assms(1)] assms(2,3) by (auto simp: rooted_def)
  then have new: "p \<notin> active e" using x \<open>executing e \<noteq> p\<close> by (simp add: active_def)
  have "counted ?e"
    using fiber_invD(1) [OF assms(1)] assms(2,3)
    by (auto simp: counted_def Fiber_new_def card_insert_if domIff)
  moreover have "rooted ?e"
    using fiber_invD(2) [OF assms(1)] assms(2) by (auto simp: rooted_def Fiber_new_def)
  moreover have "returnable ?e"
    using fiber_invD(3) [OF assms(1)] assms(2) x
    by (auto simp: returnable_def suspended_def Fiber_new_def)
  moreover have "fiber_ok (active ?e) (t_thread_fiber ?e) r f" if "fibers ?e r = Some f" for r f
    using that fiber_invD(4) [OF assms(1)] new unfolding act
    by (auto simp: fiber_ok_def Fiber_new_def split: if_splits)
  ultimately show ?thesis by (simp add: fiber_inv_def)
qed

lemma Fiber_resume_inv [inv_intros]:
  assumes "fiber_inv e" and "fibers e p = Some f" and "executing e = resumer f e"
    and "Fiber_resume p e = Inr e'"
  shows "fiber_inv e'"
proof -
  let ?r = "executing e"
  have ready: "m_state f = READY"
    using assms(2,4) by (cases "m_state f") (auto simp: Fiber_resume_def)
  obtain fr where fr: "fibers e ?r = Some fr"
    using fiber_invD(2) [OF assms(1)] by (auto simp: rooted_def)
  note eq = Fiber_resume_eq [OF assms(1,2) ready assms(3) fr]
  have e': "e' = e\<lparr>t_fiber := p, executing := p,
      fibers := (fibers e)(p \<mapsto> f\<lparr>m_state := RUNNING\<rparr>, ?r \<mapsto> fr\<lparr>m_ctx := Flow ?r\<rparr>)\<rparr>"
    using assms(4) eq(2) by simp
  have no_sched: "\<not> in_task fr"
    using fiber_invD(1,2) [OF assms(1)] assms(3) fr
    by (auto simp: rooted_def counted_def resumer_def in_task_def split: if_splits)
  have main: "p \<noteq> t_thread_fiber e"
    using fiber_invD(4) [OF assms(1,2)] ready by (auto simp: fiber_ok_def active_def)
  have act: "active e' = insert p (active e)"
    using eq(1) assms(3) no_sched fr in_task_stacked [OF assms(1,2) main] unfolding e'
    by (auto simp: active_def resumer_def split: if_splits)
  have "counted e'"
    using fiber_invD(1) [OF assms(1)] assms(2) fr unfolding e'
    by (simp add: counted_def insert_absorb domIff)
  moreover have "rooted e'"
    using fiber_invD(2) [OF assms(1)] eq(1) assms(2) fr main unfolding e'
    by (auto simp: rooted_def)
  moreover have "returnable e'"
    using fiber_invD(3) [OF assms(1)] assms(2,3) fr eq(1) main unfolding e'
    by (auto simp: returnable_def suspended_def resumer_def no_sched split: if_splits)
  moreover have "fiber_ok (active e') (t_thread_fiber e') q g" if "fibers e' q = Some g" for q g
    using that fiber_invD(4) [OF assms(1), of q g] fiber_invD(4) [OF assms(1) fr]
      fiber_invD(4) [OF assms(1,2)] ready eq(1) unfolding act unfolding e'
    by (auto simp: fiber_ok_def split: if_splits)
  ultimately show ?thesis by (simp add: fiber_inv_def)
qed

text \<open>Switching back with the fiber in state \<open>READY\<close> or \<open>TERMINATED\<close>.\<close>

lemma switch_back_inv:
  assumes "fiber_inv e" and "fibers e (executing e) = Some f" and "executing e \<noteq> t_thread_fiber e"
    and "m_state g \<noteq> RUNNING" and "m_runInScheduler g = m_runInScheduler f" and "m_stack g"
  shows "fiber_inv (e\<lparr>t_fiber := t_thread_fiber e, executing := resumer f e,
             fibers := (fibers e)(executing e \<mapsto> g\<lparr>m_ctx := Flow (executing e)\<rparr>)\<rparr>)"
    (is "fiber_inv ?e")
proof -
  let ?x = "executing e"
  note sw = switch_back_eq [OF assms(1-3)]
  obtain fr where fr: "fibers e (resumer f e) = Some fr" "\<not> in_task fr"
    using fiber_invD(1,2) [OF assms(1)] sw(2)
    by (auto simp: rooted_def counted_def resumer_def suspended_def in_task_def split: if_splits)
  have act: "active ?e = active e - {?x}"
    using fr sw(1) assms(2,3) in_task_stacked [OF assms(1-3)] by (auto simp: active_def resumer_def split: if_splits)
  have "counted ?e"
    using fiber_invD(1) [OF assms(1)] assms(2) by (simp add: counted_def insert_absorb domIff)
  moreover have "rooted ?e"
    using fiber_invD(2) [OF assms(1)] sw(1) fr assms(2,3,5,6) in_task_stacked [OF assms(1-3)]
    by (auto simp: rooted_def in_task_def [of g])
  moreover have "returnable ?e"
    using fiber_invD(3) [OF assms(1)] assms(2,3) sw(1) fr in_task_stacked [OF assms(1) fr(1)]
    by (auto simp: returnable_def suspended_def)
  moreover have "fiber_ok (active ?e) (t_thread_fiber ?e) q h" if "fibers ?e q = Some h" for q h
    using that fiber_invD(4) [OF assms(1), of q h] assms(4,6) unfolding act
    by (auto simp: fiber_ok_def split: if_splits)
  ultimately show ?thesis by (simp add: fiber_inv_def)
qed

lemma executing_stack:
  assumes "fiber_inv e" and "fibers e (executing e) = Some f" and "executing e \<noteq> t_thread_fiber e"
  shows "m_stack f" and "m_state f = RUNNING"
  using fiber_invD(4) [OF assms(1,2)] assms(3) by (auto simp: fiber_ok_def active_def)

text \<open>\<^verbatim>\<open>yield\<close> of the executing fiber, and the end of its \<^verbatim>\<open>MainFunc\<close>.\<close>

lemma Fiber_yield_eq:
  assumes "fiber_inv e" and "fibers e (executing e) = Some f" and "executing e \<noteq> t_thread_fiber e"
  shows "Fiber_yield (executing e) e = Inr (e\<lparr>t_fiber := t_thread_fiber e, executing := resumer f e,
      fibers := (fibers e)(executing e \<mapsto> f\<lparr>m_state := READY, m_ctx := Flow (executing e)\<rparr>)\<rparr>)"
  using switch_back_eq(3) [OF assms, of "f\<lparr>m_state := READY\<rparr>"] executing_stack(2) [OF assms] assms(2)
  by (simp add: Fiber_yield_def SetThis_def)

lemma MainFunc_end_eq:
  assumes "fiber_inv e" and "fibers e (executing e) = Some f" and "executing e \<noteq> t_thread_fiber e"
  shows "MainFunc_end e = Inr (e\<lparr>t_fiber := t_thread_fiber e, executing := resumer f e,
      fibers := (fibers e)(executing e \<mapsto>
        f\<lparr>m_fiber_cb := None, m_state := TERMINATED, m_ctx := Flow (executing e)\<rparr>)\<rparr>)"
  using switch_back_eq(3) [OF assms, of "f\<lparr>m_fiber_cb := None, m_state := TERMINATED\<rparr>"] assms(2)
  by (simp add: MainFunc_end_def Fiber_yield_def SetThis_def Let_def)

lemma Fiber_yield_inv [inv_intros]:
  assumes "fiber_inv e" and "executing e \<noteq> t_thread_fiber e" and "Fiber_yield (executing e) e = Inr e'"
  shows "fiber_inv e'"
proof -
  obtain f where f: "fibers e (executing e) = Some f"
    using fiber_invD(2) [OF assms(1)] by (auto simp: rooted_def)
  show ?thesis
    using switch_back_inv [OF assms(1) f assms(2), of "f\<lparr>m_state := READY\<rparr>"]
      Fiber_yield_eq [OF assms(1) f assms(2)] executing_stack(1) [OF assms(1) f assms(2)] assms(3)
    by simp
qed

lemma MainFunc_end_inv [inv_intros]:
  assumes "fiber_inv e" and "executing e \<noteq> t_thread_fiber e" and "MainFunc_end e = Inr e'"
  shows "fiber_inv e'"
proof -
  obtain f where f: "fibers e (executing e) = Some f"
    using fiber_invD(2) [OF assms(1)] by (auto simp: rooted_def)
  show ?thesis
    using switch_back_inv [OF assms(1) f assms(2), of "f\<lparr>m_fiber_cb := None, m_state := TERMINATED\<rparr>"]
      MainFunc_end_eq [OF assms(1) f assms(2)] executing_stack(1) [OF assms(1) f assms(2)] assms(3)
    by simp
qed

lemma terminated_not_active:
  assumes "fiber_inv e" and "fibers e p = Some f" and "m_state f = TERMINATED"
  shows "p \<noteq> executing e" and "p \<noteq> t_thread_fiber e" and "p \<notin> active e"
  using fiber_invD(4) [OF assms(1,2)] assms(3) by (auto simp: fiber_ok_def active_def)

lemma Fiber_reset_inv [inv_intros]:
  assumes "fiber_inv e" and "Fiber_reset cb p e = Inr e'"
  shows "fiber_inv e'"
proof -
  from assms(2) obtain f where f: "fibers e p = Some f" "m_stack f" "m_state f = TERMINATED"
    and e': "e' = e\<lparr>fibers := (fibers e)(p \<mapsto> f\<lparr>m_fiber_cb := cb, m_ctx := Entry, m_state := READY\<rparr>)\<rparr>"
    by (auto simp: Fiber_reset_def sylar_assert_eq_Inr split: option.splits)
  note off = terminated_not_active [OF assms(1) f(1,3)]
  have act: "active e' = active e" using off(1) unfolding e' by (simp add: active_def split: option.splits)
  have "counted e'"
    using fiber_invD(1) [OF assms(1)] f(1) unfolding e' by (simp add: counted_def insert_absorb domIff)
  moreover have "rooted e'"
    using fiber_invD(2) [OF assms(1)] f(1) off(2) unfolding e' by (auto simp: rooted_def)
  moreover have "returnable e'"
    using fiber_invD(3) [OF assms(1)] off f(1) in_task_stacked [OF assms(1), of "executing e"] unfolding e'
    by (auto simp: returnable_def suspended_def active_def split: option.splits if_splits)
  moreover have "fiber_ok (active e') (t_thread_fiber e') q g" if "fibers e' q = Some g" for q g
    using that fiber_invD(4) [OF assms(1), of q g] f off(3) unfolding act unfolding e'
    by (auto simp: fiber_ok_def split: if_splits)
  ultimately show ?thesis by (simp add: fiber_inv_def)
qed

lemma Fiber_delete_inv [inv_intros]:
  assumes "fiber_inv e" and "p \<noteq> t_thread_fiber e" and "p \<noteq> t_scheduler_fiber e"
    and "Fiber_delete p e = Inr e'"
  shows "fiber_inv e'"
proof -
  from assms(4) obtain f where f: "fibers e p = Some f" by (auto simp: Fiber_delete_def split: option.splits)
  then have stack: "m_stack f" using fiber_invD(4) [OF assms(1) f] assms(2) by (simp add: fiber_ok_def)
  with assms(4) f have ended: "m_state f = TERMINATED"
    and e': "e' = e\<lparr>s_fiber_count := s_fiber_count e - 1, fibers := (fibers e)(p := None)\<rparr>"
    by (auto simp: Fiber_delete_def sylar_assert_eq_Inr Let_def)
  note off = terminated_not_active [OF assms(1) f ended]
  have act: "active e' = active e" using off(1) unfolding e' by (simp add: active_def split: option.splits)
  have "finite (dom (fibers e))" "p \<in> dom (fibers e)"
    using fiber_invD(1) [OF assms(1)] f by (auto simp: counted_def)
  then have "card (dom (fibers e)) = Suc (card (dom (fibers e')))"
    using card.remove [of "dom (fibers e)" p] unfolding e' by simp
  moreover have "finite (dom (fibers e'))" "0 \<notin> dom (fibers e')" "s_fiber_count e' = s_fiber_count e - 1"
    using fiber_invD(1) [OF assms(1)] unfolding e' by (simp_all add: counted_def)
  ultimately have "counted e'"
    using fiber_invD(1) [OF assms(1)] by (simp add: counted_def)
  moreover have "rooted e'"
    using fiber_invD(2) [OF assms(1)] f off assms(2,3) unfolding e' by (auto simp: rooted_def)
  moreover have "returnable e'"
    using fiber_invD(3) [OF assms(1)] off assms(2,3) unfolding e'
    by (auto simp: returnable_def suspended_def)
  moreover have "fiber_ok (active e') (t_thread_fiber e') q g" if "fibers e' q = Some g" for q g
    using that fiber_invD(4) [OF assms(1), of q g] unfolding act unfolding e'
    by (auto split: if_splits)
  ultimately show ?thesis by (simp add: fiber_inv_def)
qed

lemma set_scheduler_inv:
  assumes "fiber_inv e" and "executing e = t_thread_fiber e"
    and "fibers e s = Some fs" and "\<not> in_task fs"
  shows "fiber_inv (e\<lparr>t_scheduler_fiber := s\<rparr>)"
proof -
  have "active (e\<lparr>t_scheduler_fiber := s\<rparr>) = active e"
    using fiber_invD(2) [OF assms(1)] assms(2) by (auto simp: active_def rooted_def in_task_def)
  then show ?thesis
    using assms by (auto simp: fiber_inv_def counted_def rooted_def returnable_def)
qed

interpretation fiber_machine: inductive_invariant fiber_init fiber_step fiber_inv
proof
  show "fiber_init e \<Longrightarrow> fiber_inv e" for e :: "'a fiber_env"
    by (rule fiber_init_inv)
  show "fiber_step e e' \<Longrightarrow> fiber_inv e'" if inv: "fiber_inv e" for e e' :: "'a fiber_env"
  proof (erule fiber_step.cases)
    show "fiber_inv e'" if "e = d" "e' = d\<lparr>t_scheduler_fiber := t_thread_fiber d\<rparr>"
      "executing d = t_thread_fiber d" for d
      using that inv set_scheduler_inv [OF inv] fiber_invD(2) [OF inv] by (auto simp: rooted_def in_task_def)
  qed (use inv in \<open>auto intro: inv_intros set_scheduler_inv simp: in_task_def\<close>)
qed

section \<open>Properties\<close>

text \<open>
  C17. In every state that a thread reaches under the discipline above, resuming a \<^verbatim>\<open>READY\<close> fiber from the flow it yields to
  starts or continues exactly that fiber, and \<^verbatim>\<open>Fiber::GetThis\<close> then answers it; a \<^verbatim>\<open>yield\<close>
  brings control back to the flow that resumed it, leaving the fiber \<^verbatim>\<open>READY\<close>, and returning
  from the callback brings it back with the fiber \<^verbatim>\<open>TERM\<close>. None of the assertions fails. All else is as before, but for
  the saved context of the flow that resumed and for \<^verbatim>\<open>t_fiber\<close>: that is the main fiber afterwards, also when the
  scheduler fiber of the calling thread resumed.
\<close>

theorem resume_yield_roundtrip:
  assumes "reach fiber_init fiber_step e" and "fibers e p = Some f" and "m_state f = READY"
    and "executing e = resumer f e"
  shows "\<exists>e1 e2 e3 fr. Fiber_resume p e = Inr e1 \<and> executing e1 = p \<and> fst (GetThis q e1) = p \<and>
     p \<noteq> executing e \<and> fibers e (executing e) = Some fr \<and>
     Fiber_yield p e1 = Inr e2 \<and> e2 = e\<lparr>t_fiber := t_thread_fiber e, fibers := (fibers e)
       (executing e \<mapsto> fr\<lparr>m_ctx := Flow (executing e)\<rparr>, p \<mapsto> f\<lparr>m_state := READY, m_ctx := Flow p\<rparr>)\<rparr> \<and>
     MainFunc_end e1 = Inr e3 \<and> e3 = e\<lparr>t_fiber := t_thread_fiber e, fibers := (fibers e)
       (executing e \<mapsto> fr\<lparr>m_ctx := Flow (executing e)\<rparr>,
        p \<mapsto> f\<lparr>m_fiber_cb := None, m_state := TERMINATED, m_ctx := Flow p\<rparr>)\<rparr>"
proof -
  have inv: "fiber_inv e" using assms(1) by (rule fiber_machine.reach_inv)
  obtain fr where fr: "fibers e (executing e) = Some fr"
    using fiber_invD(2) [OF inv] by (auto simp: rooted_def)
  note eq = Fiber_resume_eq [OF inv assms(2-4) fr]
  let ?f = "f\<lparr>m_state := RUNNING\<rparr>"
  let ?e = "e\<lparr>t_fiber := p, executing := p, fibers := (fibers e)(p \<mapsto> ?f,
      executing e \<mapsto> fr\<lparr>m_ctx := Flow (executing e)\<rparr>)\<rparr>"
  have inv1: "fiber_inv ?e" using Fiber_resume_inv [OF inv assms(2,4) eq(2)] .
  have ne: "p \<noteq> t_thread_fiber e" "p \<noteq> 0"
    using fiber_invD(1) [OF inv] fiber_invD(4) [OF inv assms(2)] assms(2,3)
    by (auto simp: fiber_ok_def active_def counted_def)
  have at: "fibers ?e (executing ?e) = Some ?f" "executing ?e \<noteq> t_thread_fiber ?e"
    using eq(1) ne by simp_all
  have "resumer ?f ?e = executing e" using assms(4) by (simp add: resumer_def)
  with Fiber_yield_eq [OF inv1 at] MainFunc_end_eq [OF inv1 at] eq ne fr show ?thesis
    by (simp add: GetThis_def fun_upd_twist)
qed

text \<open>A thread with its main fiber at 1 and a fresh fiber of its own at 2.\<close>

definition two_fibers :: "bool fiber_env" where
  "two_fibers = Fiber_new (Some True) 0 False 131072 2 (snd (GetThis 1
     \<lparr>fibers = Map.empty, s_fiber_id = 0, s_fiber_count = 0, t_fiber = 0,
      t_thread_fiber = 0, t_scheduler_fiber = 0, executing = 0, raw_flag = (\<lambda>_. True)\<rparr>))"

lemma reach_two_fibers: "reach fiber_init fiber_step two_fibers"
proof -
  let ?e = "snd (GetThis 1 \<lparr>fibers = Map.empty, s_fiber_id = 0, s_fiber_count = 0, t_fiber = 0,
      t_thread_fiber = 0, t_scheduler_fiber = 0, executing = 0, raw_flag = (\<lambda>_. True)\<rparr>) :: bool fiber_env"
  have "fiber_init ?e" unfolding fiber_init_def by (intro exI [of _ 1] exI [of _ "\<lambda>_. True"]) simp
  then have "reach fiber_init fiber_step ?e" by (rule reach_init)
  moreover have "fiber_step ?e (Fiber_new (Some True) 0 False 131072 2 ?e)"
    by (rule fs_new) (simp_all add: GetThis_def Fiber_main_def)
  ultimately show ?thesis unfolding two_fibers_def by (rule reach_step)
qed

theorem resume_yield_roundtrip_witness:
  "\<exists>e1 e2. Fiber_resume 2 two_fibers = Inr e1 \<and> executing e1 = 2 \<and>
     Fiber_yield 2 e1 = Inr e2 \<and> executing e2 = 1"
proof -
  obtain f where f: "fibers two_fibers 2 = Some f" "m_state f = READY" "\<not> m_runInScheduler f"
    by (simp add: two_fibers_def Fiber_new_def)
  have x: "executing two_fibers = 1" "t_thread_fiber two_fibers = 1"
    by (simp_all add: two_fibers_def Fiber_new_def GetThis_def)
  then have "executing two_fibers = resumer f two_fibers" using f by (simp add: resumer_def)
  from resume_yield_roundtrip [OF reach_two_fibers f(1,2) this, of 9] x show ?thesis by auto
qed

text \<open>
  C26. In every state reached under the discipline above, where a fiber is resumed only by the flow its \<^verbatim>\<open>yield\<close> goes back
  to and only the executing one yields or ends, a fiber is \<^verbatim>\<open>RUNNING\<close> exactly when it is the main fiber, the
  executing one, or the scheduler fiber below an executing task; inside a task
  \<^verbatim>\<open>Fiber::GetThis()\<close> is the task's own fiber, so \<^verbatim>\<open>GetThis()->yield()\<close> suspends the caller;
  and \<^verbatim>\<open>s_fiber_count\<close> counts the live fibers. (Without the discipline a fiber that resumed another stays
  \<^verbatim>\<open>RUNNING\<close> below it, and \<open>nested_resume_loses_main_flow\<close> holds.)
\<close>

theorem running_fibers:
  assumes "reach fiber_init fiber_step e" and "fibers e p = Some f"
  shows "(m_state f = RUNNING \<longleftrightarrow>
       p = t_thread_fiber e \<or> p = executing e \<or>
       p = t_scheduler_fiber e \<and> (\<exists>x. fibers e (executing e) = Some x \<and> in_task x)) \<and>
     (p = executing e \<and> m_runInScheduler f \<longrightarrow> fst (GetThis q e) = p) \<and>
     s_fiber_count e = of_nat (card (dom (fibers e)))"
proof -
  have inv: "fiber_inv e" using assms(1) by (rule fiber_machine.reach_inv)
  have "p \<noteq> 0" using fiber_invD(1) [OF inv] assms(2) by (auto simp: counted_def)
  then have "p = executing e \<and> m_runInScheduler f \<longrightarrow> fst (GetThis q e) = p"
    using fiber_invD(2,3) [OF inv] assms(2)
    by (cases "p = t_thread_fiber e") (auto simp: rooted_def returnable_def GetThis_def)
  then show ?thesis
    using fiber_invD(1) [OF inv] fiber_invD(4) [OF inv assms(2)]
    by (auto simp: fiber_ok_def counted_def active_def split: option.splits if_splits)
qed

theorem running_fibers_witness:
  "\<not> m_state (the (fibers two_fibers 2)) = RUNNING \<and> s_fiber_count two_fibers = 2"
proof -
  obtain f where f: "fibers two_fibers 2 = Some f" by (simp add: two_fibers_def Fiber_new_def)
  have x: "executing two_fibers = 1" "t_thread_fiber two_fibers = 1" "t_scheduler_fiber two_fibers = 0"
    "dom (fibers two_fibers) = {1, 2}"
    by (auto simp: two_fibers_def Fiber_new_def GetThis_def Fiber_main_def SetThis_def)
  show ?thesis using running_fibers [OF reach_two_fibers f, of 7] x f by simp
qed

text \<open>
  Outside that discipline control is lost: when a fiber that is not run by the
  scheduler resumes another such fiber, the saved flow of the main fiber is overwritten.
  After both have yielded the first fiber runs again instead of the main flow, and neither
  their contexts nor that of the main fiber hold the main flow any more.
\<close>

theorem nested_resume_loses_main_flow:
  assumes "reach fiber_init fiber_step e" and "executing e = t_thread_fiber e"
    and "fibers e a = Some fa" and "m_state fa = READY" and "\<not> m_runInScheduler fa" and "m_ctx fa = Entry"
    and "fibers e b = Some fb" and "m_state fb = READY" and "\<not> m_runInScheduler fb" and "m_ctx fb = Entry"
    and "a \<noteq> b"
  shows "\<exists>e1 e2 e3 e4. Fiber_resume a e = Inr e1 \<and> Fiber_resume b e1 = Inr e2 \<and>
     Fiber_yield b e2 = Inr e3 \<and> executing e3 = a \<and> Fiber_yield a e3 = Inr e4 \<and> executing e4 = a \<and>
     (\<forall>p f. p \<in> {a, b, t_thread_fiber e} \<longrightarrow> fibers e4 p = Some f \<longrightarrow> m_ctx f \<noteq> Flow (t_thread_fiber e))"
proof -
  have inv: "fiber_inv e" using assms(1) by (rule fiber_machine.reach_inv)
  obtain fm where m: "fibers e (t_thread_fiber e) = Some fm"
    using fiber_invD(2) [OF inv] by (auto simp: rooted_def)
  have ne: "a \<noteq> t_thread_fiber e" "b \<noteq> t_thread_fiber e"
    using fiber_invD(4) [OF inv assms(3)] fiber_invD(4) [OF inv assms(7)] assms(4,8)
    by (auto simp: fiber_ok_def active_def)
  note facts = assms(2-11) assms(11) [symmetric] m ne ne [symmetric]
  show ?thesis
    by (simp add: facts Fiber_resume_def Fiber_yield_def swapcontext_def SetThis_def resumer_def)
       (auto simp: facts)
qed

theorem nested_resume_loses_main_flow_witness:
  "\<exists>e1 e2 e3 e4. Fiber_resume 2 (Fiber_new (Some False) 0 False 131072 3 two_fibers) = Inr e1 \<and>
     Fiber_resume 3 e1 = Inr e2 \<and> Fiber_yield 3 e2 = Inr e3 \<and> Fiber_yield 2 e3 = Inr e4 \<and> executing e4 = 2"
proof -
  let ?e = "Fiber_new (Some False) 0 False 131072 3 two_fibers"
  have r: "reach fiber_init fiber_step ?e"
    by (rule reach_step [OF reach_two_fibers fs_new])
       (auto simp: two_fibers_def Fiber_new_def GetThis_def Fiber_main_def)
  obtain fa fb where "fibers ?e 2 = Some fa" "m_state fa = READY" "\<not> m_runInScheduler fa" "m_ctx fa = Entry"
    "fibers ?e 3 = Some fb" "m_state fb = READY" "\<not> m_runInScheduler fb" "m_ctx fb = Entry"
    by (simp add: two_fibers_def Fiber_new_def)
  moreover have "executing ?e = t_thread_fiber ?e"
    by (simp add: two_fibers_def Fiber_new_def GetThis_def)
  ultimately show ?thesis using nested_resume_loses_main_flow [OF r, of 2 fa 3 fb] by auto
qed

end
