(* ===== verification/Scheduler.thy ===== *)
theory Scheduler
  imports Fiber "HOL-Library.Multiset"
begin

text \<open>
  \<^verbatim>\<open>sylar/scheduler.h\<close> and \<^verbatim>\<open>sylar/scheduler.cpp\<close>: the task queue, the life cycle of a
  scheduler and its threads. \<^verbatim>\<open>run()\<close> is split where other threads can interleave: the
  locked section that takes a task, the check and the switch inside \<^verbatim>\<open>Fiber::resume\<close>, the
  return of the fiber, and the idle fiber. Calls of the virtual \<^verbatim>\<open>tickle()\<close> are reported in
  the results.
\<close>

section \<open>Data\<close>

record 'c ScheduleTask =
  m_task_fiber :: addr
  m_task_cb :: "'c option"
  m_threadId :: int

record 'c Scheduler =
  m_tasks :: "'c ScheduleTask list"
  m_threads :: "int list"
  m_threadIds :: "int list"
  m_threadCount :: nat
  m_activeThreadCount :: nat
  m_idleThreadCount :: nat
  m_useCaller :: bool
  m_rootFiber :: addr
  m_rootThreadId :: int
  m_stopping :: bool

section \<open>Tasks\<close>

definition Task_fiber :: "addr \<Rightarrow> int \<Rightarrow> 'c ScheduleTask" where
  "Task_fiber fiber threadId = \<lparr>m_task_fiber = fiber, m_task_cb = None, m_threadId = threadId\<rparr>"

text \<open>
  The constructor from a \<^verbatim>\<open>Fiber::ptr*\<close>: \<^verbatim>\<open>fiber->swap(*fiber)\<close> swaps the pointer with
  itself. The result is the task and what the pointer holds afterwards.
\<close>

definition Task_fiber_ptr :: "addr \<Rightarrow> int \<Rightarrow> 'c ScheduleTask \<times> addr" where
  "Task_fiber_ptr fiber threadId =
     (\<lparr>m_task_fiber = 0, m_task_cb = None, m_threadId = threadId\<rparr>, fiber)"

definition Task_cb :: "'c option \<Rightarrow> int \<Rightarrow> 'c ScheduleTask" where
  "Task_cb cb threadId = \<lparr>m_task_fiber = 0, m_task_cb = cb, m_threadId = threadId\<rparr>"

definition Task_none :: "'c ScheduleTask" where
  "Task_none = \<lparr>m_task_fiber = 0, m_task_cb = None, m_threadId = - 1\<rparr>"

definition Task_reset :: "'c ScheduleTask \<Rightarrow> 'c ScheduleTask" where
  "Task_reset t = t\<lparr>m_task_fiber := 0, m_task_cb := None, m_threadId := - 1\<rparr>"

definition runnable :: "'c ScheduleTask \<Rightarrow> bool" where
  "runnable t \<longleftrightarrow> m_task_fiber t \<noteq> 0 \<or> m_task_cb t \<noteq> None"

section \<open>Life cycle\<close>

text \<open>
  The constructor on the thread \<open>tid\<close> whose \<^verbatim>\<open>t_scheduler\<close> is \<open>cur\<close>; \<open>this\<close> and \<open>root\<close> are
  the addresses of the scheduler and of the root fiber. The second component is the new
  value of \<^verbatim>\<open>t_scheduler\<close>.
\<close>

definition Scheduler_new ::
  "nat \<Rightarrow> bool \<Rightarrow> addr \<Rightarrow> addr \<Rightarrow> addr \<Rightarrow> int \<Rightarrow> ('c Scheduler \<times> addr) result" where
  "Scheduler_new threads use_caller this cur root tid =
     sylar_assert ''threads > 0'' (threads > 0)
      (let s = \<lparr>m_tasks = [], m_threads = [], m_threadIds = [], m_threadCount = threads,
                m_activeThreadCount = 0, m_idleThreadCount = 0, m_useCaller = use_caller,
                m_rootFiber = 0, m_rootThreadId = - 1, m_stopping = False\<rparr>
       in if use_caller then
            sylar_assert ''GetThis() == nullptr'' (cur = 0)
              (Inr (s\<lparr>m_rootFiber := root, m_rootThreadId := tid, m_threadIds := [tid],
                      m_threadCount := threads - 1\<rparr>, this))
          else Inr (s, cur))"

text \<open>\<open>ids i\<close> is the id of the thread that the \<open>i\<close>-th round of the loop creates.\<close>

definition start :: "(nat \<Rightarrow> int) \<Rightarrow> 'c Scheduler \<Rightarrow> 'c Scheduler result" where
  "start ids s =
     (if m_stopping s then Inr s
      else sylar_assert ''m_threads.empty()'' (m_threads s = [])
        (Inr (s\<lparr>m_threads := map ids [0..<m_threadCount s],
                m_threadIds := m_threadIds s @ map ids [0..<m_threadCount s]\<rparr>)))"

definition stopping :: "'c Scheduler \<Rightarrow> bool" where
  "stopping s \<longleftrightarrow> m_stopping s \<and> m_tasks s = [] \<and> m_activeThreadCount s = 0"

text \<open>
  \<^verbatim>\<open>stop()\<close> up to the point where it waits: how often \<^verbatim>\<open>tickle()\<close> is called, whether the
  root fiber is resumed, the threads joined, and the state. \<open>cur\<close> is \<^verbatim>\<open>GetThis()\<close>.
\<close>

definition stop_threads ::
  "addr \<Rightarrow> addr \<Rightarrow> 'c Scheduler \<Rightarrow> (nat \<times> bool \<times> int list \<times> 'c Scheduler) result" where
  "stop_threads this cur s =
     (let s' = s\<lparr>m_stopping := True\<rparr>;
          k = (m_threadCount s + (if m_rootFiber s \<noteq> 0 then 1 else 0), m_rootFiber s \<noteq> 0,
               m_threads s, s'\<lparr>m_threads := []\<rparr>)
      in if m_useCaller s then sylar_assert ''GetThis() == this'' (cur = this) (Inr k)
         else sylar_assert ''GetThis() != this'' (cur \<noteq> this) (Inr k))"

definition stop :: "addr \<Rightarrow> addr \<Rightarrow> 'c Scheduler \<Rightarrow> (nat \<times> bool \<times> int list \<times> 'c Scheduler) result" where
  "stop this cur s = (if stopping s then Inr (0, False, [], s) else stop_threads this cur s)"

definition Scheduler_delete :: "addr \<Rightarrow> addr \<Rightarrow> 'c Scheduler \<Rightarrow> addr result" where
  "Scheduler_delete this cur s =
     sylar_assert ''m_stopping'' (m_stopping s) (Inr (if cur = this then 0 else cur))"

definition hasIdleThreads :: "'c Scheduler \<Rightarrow> bool" where
  "hasIdleThreads s \<longleftrightarrow> m_idleThreadCount s > 0"

section \<open>Scheduling and taking tasks\<close>

definition scheduleNoLock :: "'c ScheduleTask \<Rightarrow> 'c Scheduler \<Rightarrow> bool \<times> 'c Scheduler" where
  "scheduleNoLock task s =
     (m_tasks s = [],
      if runnable task then s\<lparr>m_tasks := m_tasks s @ [task]\<rparr> else s)"

text \<open>\<^verbatim>\<open>schedule\<close>: whether \<^verbatim>\<open>tickle()\<close> is called, and the state.\<close>

definition schedule :: "'c ScheduleTask \<Rightarrow> 'c Scheduler \<Rightarrow> bool \<times> 'c Scheduler" where
  "schedule task s = scheduleNoLock task s"

text \<open>
  The walk over \<^verbatim>\<open>m_tasks\<close> in \<^verbatim>\<open>run()\<close> on thread \<open>tid\<close>: the task taken, the tasks left and
  \<^verbatim>\<open>tickle_me\<close>. \<open>st\<close> gives the state of every fiber.
\<close>

fun scan_tasks ::
  "int \<Rightarrow> (addr \<rightharpoonup> State) \<Rightarrow> 'c ScheduleTask list
   \<Rightarrow> ('c ScheduleTask option \<times> 'c ScheduleTask list \<times> bool) result" where
  "scan_tasks tid st [] = Inr (None, [], False)"
| "scan_tasks tid st (t # ts) =
     (if m_threadId t \<noteq> - 1 \<and> m_threadId t \<noteq> tid then
        rbind (scan_tasks tid st ts) (\<lambda>(task, rest, tickle_me). Inr (task, t # rest, True))
      else
        sylar_assert ''itTask->m_fiber || itTask->m_cb'' (runnable t)
         (sylar_assert ''itTask->m_fiber->getState() == READY''
            (m_task_fiber t = 0 \<or> st (m_task_fiber t) = Some READY)
            (Inr (Some t, ts, ts \<noteq> []))))"

definition take_task ::
  "int \<Rightarrow> (addr \<rightharpoonup> State) \<Rightarrow> 'c Scheduler \<Rightarrow> ('c ScheduleTask option \<times> bool \<times> 'c Scheduler) result" where
  "take_task tid st s =
     rbind (scan_tasks tid st (m_tasks s)) (\<lambda>(task, rest, tickle_me).
       Inr (task, tickle_me, s\<lparr>m_tasks := rest,
         m_activeThreadCount := m_activeThreadCount s + (if task = None then 0 else 1)\<rparr>))"

section \<open>The threads of a scheduler\<close>

text \<open>
  Where a thread is in \<^verbatim>\<open>run()\<close>: at the top of the loop, past the locked section with what it
  took, inside \<^verbatim>\<open>resume\<close> between the check of the fiber's state and the switch, running a
  fiber on behalf of a task, past the point where that fiber changed its state to leave, in
  the idle fiber, or out of the loop.
\<close>

datatype 'c pc =
    AtTop
  | Dispatch "'c ScheduleTask option"
  | Resuming addr "'c ScheduleTask"
  | InFiber addr "'c ScheduleTask"
  | Leaving addr "'c ScheduleTask"
  | InIdle
  | Exited

record 'c sched_sys =
  sched :: "'c Scheduler"
  fstate :: "addr \<rightharpoonup> State"
  pcs :: "int \<rightharpoonup> 'c pc"
  idle_ended :: "int set"
  accepted :: "'c ScheduleTask list"
  finished :: "'c ScheduleTask list"
  aborted :: bool

definition set_pc :: "int \<Rightarrow> 'c pc \<Rightarrow> 'c sched_sys \<Rightarrow> 'c sched_sys" where
  "set_pc tid p y = y\<lparr>pcs := (pcs y)(tid \<mapsto> p)\<rparr>"

text \<open>\<^verbatim>\<open>schedule\<close> called from anywhere; \<open>accepted\<close> records what was queued.\<close>

definition sys_schedule :: "'c ScheduleTask \<Rightarrow> 'c sched_sys \<Rightarrow> 'c sched_sys" where
  "sys_schedule t y = y\<lparr>sched := snd (schedule t (sched y)),
     accepted := (if runnable t then accepted y @ [t] else accepted y)\<rparr>"

definition sys_fetch :: "int \<Rightarrow> 'c sched_sys \<Rightarrow> 'c sched_sys" where
  "sys_fetch tid y =
     (case take_task tid (fstate y) (sched y) of
        Inl e \<Rightarrow> y\<lparr>aborted := True\<rparr>
      | Inr (task, tickle_me, s) \<Rightarrow> set_pc tid (Dispatch task) (y\<lparr>sched := s\<rparr>))"

text \<open>
  \<^verbatim>\<open>task.m_fiber->resume()\<close>: first the assertion on the state, later the write of
  \<^verbatim>\<open>RUNNING\<close> and the switch. A callback gets a new fiber at the fresh address \<open>p\<close>.
\<close>

definition sys_dispatch :: "addr \<Rightarrow> int \<Rightarrow> 'c ScheduleTask \<Rightarrow> 'c sched_sys \<Rightarrow> 'c sched_sys" where
  "sys_dispatch p tid t y =
     (if m_task_fiber t \<noteq> 0 then
        (if fstate y (m_task_fiber t) = Some READY then set_pc tid (Resuming (m_task_fiber t) t) y
         else y\<lparr>aborted := True\<rparr>)
      else set_pc tid (Resuming p t) (y\<lparr>fstate := (fstate y)(p \<mapsto> READY)\<rparr>))"

definition sys_switch :: "int \<Rightarrow> addr \<Rightarrow> 'c ScheduleTask \<Rightarrow> 'c sched_sys \<Rightarrow> 'c sched_sys" where
  "sys_switch tid f t y = set_pc tid (InFiber f t) (y\<lparr>fstate := (fstate y)(f \<mapsto> RUNNING)\<rparr>)"

text \<open>
  The fiber yields or ends: \<^verbatim>\<open>m_state\<close> becomes \<open>st\<close> while the thread is still on the fiber's
  stack. Later the switch back is complete and \<^verbatim>\<open>run()\<close> decrements the active count.
\<close>

definition sys_leave :: "State \<Rightarrow> int \<Rightarrow> addr \<Rightarrow> 'c ScheduleTask \<Rightarrow> 'c sched_sys \<Rightarrow> 'c sched_sys" where
  "sys_leave st tid f t y = set_pc tid (Leaving f t) (y\<lparr>fstate := (fstate y)(f \<mapsto> st)\<rparr>)"

definition sys_return :: "int \<Rightarrow> 'c ScheduleTask \<Rightarrow> 'c sched_sys \<Rightarrow> 'c sched_sys" where
  "sys_return tid t y = set_pc tid AtTop
     (y\<lparr>sched := (sched y)\<lparr>m_activeThreadCount := m_activeThreadCount (sched y) - 1\<rparr>,
        finished := finished y @ [t]\<rparr>)"

text \<open>No task: leave the loop when the idle fiber has ended, else resume it.\<close>

definition sys_idle :: "int \<Rightarrow> 'c sched_sys \<Rightarrow> 'c sched_sys" where
  "sys_idle tid y =
     (if tid \<in> idle_ended y then set_pc tid Exited y
      else set_pc tid InIdle
        (y\<lparr>sched := (sched y)\<lparr>m_idleThreadCount := m_idleThreadCount (sched y) + 1\<rparr>\<rparr>))"

text \<open>\<^verbatim>\<open>Scheduler::idle\<close>, resumed: ends when \<^verbatim>\<open>stopping()\<close>, else yields.\<close>

definition sys_idle_return :: "int \<Rightarrow> 'c sched_sys \<Rightarrow> 'c sched_sys" where
  "sys_idle_return tid y = set_pc tid AtTop
     (y\<lparr>idle_ended := (if stopping (sched y) then insert tid (idle_ended y) else idle_ended y),
        sched := (sched y)\<lparr>m_idleThreadCount := m_idleThreadCount (sched y) - 1\<rparr>\<rparr>)"

text \<open>
  One step of the system. \<open>P\<close> restricts what is scheduled when; with \<open>\<lambda>_ _. True\<close> callers are
  free. An abort ends the process.
\<close>

inductive sched_step ::
  "('c sched_sys \<Rightarrow> 'c ScheduleTask \<Rightarrow> bool) \<Rightarrow> 'c sched_sys \<Rightarrow> 'c sched_sys \<Rightarrow> bool"
  for P :: "'c sched_sys \<Rightarrow> 'c ScheduleTask \<Rightarrow> bool" where
  st_schedule: "\<not> aborted y \<Longrightarrow> P y t \<Longrightarrow> sched_step P y (sys_schedule t y)"
| st_stop: "\<not> aborted y \<Longrightarrow> sched_step P y (y\<lparr>sched := (sched y)\<lparr>m_stopping := True\<rparr>\<rparr>)"
| st_fiber: "\<not> aborted y \<Longrightarrow> fstate y f = None \<Longrightarrow> f \<noteq> 0 \<Longrightarrow>
     sched_step P y (y\<lparr>fstate := (fstate y)(f \<mapsto> READY)\<rparr>)"
| st_fetch: "\<not> aborted y \<Longrightarrow> pcs y tid = Some AtTop \<Longrightarrow> sched_step P y (sys_fetch tid y)"
| st_dispatch: "\<not> aborted y \<Longrightarrow> pcs y tid = Some (Dispatch (Some t)) \<Longrightarrow> fstate y p = None \<Longrightarrow> p \<noteq> 0 \<Longrightarrow>
     sched_step P y (sys_dispatch p tid t y)"
| st_switch: "\<not> aborted y \<Longrightarrow> pcs y tid = Some (Resuming f t) \<Longrightarrow> sched_step P y (sys_switch tid f t y)"
| st_leave: "\<not> aborted y \<Longrightarrow> pcs y tid = Some (InFiber f t) \<Longrightarrow> st \<noteq> RUNNING \<Longrightarrow>
     sched_step P y (sys_leave st tid f t y)"
| st_return: "\<not> aborted y \<Longrightarrow> pcs y tid = Some (Leaving f t) \<Longrightarrow> sched_step P y (sys_return tid t y)"
| st_idle: "\<not> aborted y \<Longrightarrow> pcs y tid = Some (Dispatch None) \<Longrightarrow> sched_step P y (sys_idle tid y)"
| st_idle_return: "\<not> aborted y \<Longrightarrow> pcs y tid = Some InIdle \<Longrightarrow> sched_step P y (sys_idle_return tid y)"

definition sched_init :: "'c sched_sys \<Rightarrow> bool" where
  "sched_init y \<longleftrightarrow> m_tasks (sched y) = [] \<and> m_activeThreadCount (sched y) = 0 \<and>
     m_idleThreadCount (sched y) = 0 \<and> \<not> m_stopping (sched y) \<and>
     fstate y = Map.empty \<and> finite (dom (pcs y)) \<and> ran (pcs y) \<subseteq> {AtTop} \<and> idle_ended y = {} \<and>
     accepted y = [] \<and> finished y = [] \<and> \<not> aborted y"

section \<open>Specification\<close>

text \<open>What thread \<open>tid\<close> may run, and the walk as a split of the queue at the first such task.\<close>

definition mine :: "int \<Rightarrow> 'c ScheduleTask \<Rightarrow> bool" where
  "mine tid t \<longleftrightarrow> m_threadId t = - 1 \<or> m_threadId t = tid"

text \<open>The sum of a quantity over the program points of all threads.\<close>

definition pc_sum :: "('c pc \<Rightarrow> 'm::comm_monoid_add) \<Rightarrow> (int \<rightharpoonup> 'c pc) \<Rightarrow> 'm" where
  "pc_sum g m = (\<Sum>tid\<in>dom m. g (the (m tid)))"

fun held :: "'c pc \<Rightarrow> 'c ScheduleTask multiset" where
  "held (Dispatch (Some t)) = {#t#}"
| "held (Resuming f t) = {#t#}"
| "held (InFiber f t) = {#t#}"
| "held (Leaving f t) = {#t#}"
| "held _ = {#}"

definition idling :: "'c pc \<Rightarrow> nat" where
  "idling p = (if p = InIdle then 1 else 0)"

definition in_hands :: "'c sched_sys \<Rightarrow> 'c ScheduleTask multiset" where
  "in_hands y = pc_sum held (pcs y)"

text \<open>
  The bookkeeping invariant: every accepted task is queued, in the hands of one thread or
  finished, once; the two counters count threads.
\<close>

definition sched_inv :: "'c sched_sys \<Rightarrow> bool" where
  "sched_inv y \<longleftrightarrow> finite (dom (pcs y)) \<and>
     mset (accepted y) = mset (m_tasks (sched y)) + in_hands y + mset (finished y) \<and>
     m_activeThreadCount (sched y) = size (in_hands y) \<and>
     m_idleThreadCount (sched y) = pc_sum idling (pcs y) \<and>
     (\<forall>t\<in>set (m_tasks (sched y)). runnable t) \<and>
     (\<forall>tid. pcs y tid = Some Exited \<longrightarrow> tid \<in> idle_ended y) \<and>
     (idle_ended y \<noteq> {} \<longrightarrow> m_stopping (sched y))"

text \<open>Fibers that are queued, about to be resumed, running or leaving.\<close>

fun holds_fiber :: "'c pc \<Rightarrow> addr multiset" where
  "holds_fiber (Dispatch (Some t)) = (if m_task_fiber t \<noteq> 0 then {#m_task_fiber t#} else {#})"
| "holds_fiber (Resuming f t) = {#f#}"
| "holds_fiber (InFiber f t) = {#f#}"
| "holds_fiber (Leaving f t) = {#f#}"
| "holds_fiber _ = {#}"

definition queued_fibers :: "'c ScheduleTask list \<Rightarrow> addr multiset" where
  "queued_fibers ts = filter_mset (\<lambda>f. f \<noteq> 0) (mset (map m_task_fiber ts))"

definition occupied :: "'c sched_sys \<Rightarrow> addr multiset" where
  "occupied y = queued_fibers (m_tasks (sched y)) + pc_sum holds_fiber (pcs y)"

text \<open>A client that schedules a fiber only when it is suspended and nobody else holds it.\<close>

definition disciplined :: "'c sched_sys \<Rightarrow> 'c ScheduleTask \<Rightarrow> bool" where
  "disciplined y t \<longleftrightarrow> m_task_fiber t \<noteq> 0 \<longrightarrow>
     fstate y (m_task_fiber t) = Some READY \<and> m_task_fiber t \<notin># occupied y"

fun pc_fiber_ok :: "(addr \<rightharpoonup> State) \<Rightarrow> 'c pc \<Rightarrow> bool" where
  "pc_fiber_ok st (Dispatch (Some t)) = (m_task_fiber t = 0 \<or> st (m_task_fiber t) = Some READY)"
| "pc_fiber_ok st (Resuming f t) = (st f = Some READY)"
| "pc_fiber_ok st (InFiber f t) = (st f = Some RUNNING)"
| "pc_fiber_ok st (Leaving f t) = (st f \<noteq> None \<and> st f \<noteq> Some RUNNING)"
| "pc_fiber_ok st _ = True"

definition fibers_inv :: "'c sched_sys \<Rightarrow> bool" where
  "fibers_inv y \<longleftrightarrow> finite (dom (pcs y)) \<and> \<not> aborted y \<and>
     (\<forall>t\<in>set (m_tasks (sched y)). runnable t) \<and>
     (\<forall>f. count (occupied y) f \<le> 1) \<and>
     (\<forall>f\<in>#queued_fibers (m_tasks (sched y)). fstate y f = Some READY) \<and>
     (\<forall>tid p. pcs y tid = Some p \<longrightarrow> pc_fiber_ok (fstate y) p)"

section \<open>Taking a task\<close>

lemma scan_tasks_split:
  "scan_tasks tid st ts =
     (let skipped = takeWhile (\<lambda>t. \<not> mine tid t) ts
      in case dropWhile (\<lambda>t. \<not> mine tid t) ts of
           [] \<Rightarrow> Inr (None, ts, ts \<noteq> [])
         | t # rest \<Rightarrow> sylar_assert ''itTask->m_fiber || itTask->m_cb'' (runnable t)
            (sylar_assert ''itTask->m_fiber->getState() == READY''
               (m_task_fiber t = 0 \<or> st (m_task_fiber t) = Some READY)
               (Inr (Some t, skipped @ rest, skipped @ rest \<noteq> []))))"
proof (induction ts)
  case (Cons a ts)
  show ?case
  proof (cases "mine tid a")
    case True
    then have "\<not> (m_threadId a \<noteq> - 1 \<and> m_threadId a \<noteq> tid)" by (simp add: mine_def)
    then show ?thesis unfolding scan_tasks.simps using True by auto
  next
    case False
    then have eq: "scan_tasks tid st (a # ts) =
        rbind (scan_tasks tid st ts) (\<lambda>(task, rest, tickle_me). Inr (task, a # rest, True))"
      by (simp add: mine_def)
    show ?thesis
      unfolding eq Cons.IH using False
      by (cases "dropWhile (\<lambda>t. \<not> mine tid t) ts") (simp_all add: Let_def sylar_assert_def del: dropWhile_eq_Nil_conv)
  qed
qed simp

lemma scan_tasks_cases:
  assumes "scan_tasks tid st ts = Inr (task, rest, tk)"
  shows "(task = None \<and> rest = ts) \<or>
    (\<exists>t xs ys. task = Some t \<and> ts = xs @ t # ys \<and> rest = xs @ ys \<and> mine tid t \<and> runnable t \<and>
       (m_task_fiber t = 0 \<or> st (m_task_fiber t) = Some READY))"
proof (cases "dropWhile (\<lambda>t. \<not> mine tid t) ts")
  case Nil
  show ?thesis using assms unfolding scan_tasks_split Let_def Nil by simp
next
  case (Cons t ys)
  have "ts = takeWhile (\<lambda>t. \<not> mine tid t) ts @ t # ys"
    using takeWhile_dropWhile_id [of "\<lambda>t. \<not> mine tid t" ts] Cons by simp
  moreover have "mine tid t"
    using Cons hd_dropWhile [of "\<lambda>t. \<not> mine tid t" ts] by simp
  ultimately show ?thesis
    using assms Cons by (fastforce simp: scan_tasks_split Let_def sylar_assert_eq_Inr)
qed

text \<open>On a queue whose fibers are all suspended the walk never aborts.\<close>

lemma scan_tasks_total:
  assumes "\<forall>t\<in>set ts. runnable t \<and> (m_task_fiber t = 0 \<or> st (m_task_fiber t) = Some READY)"
  shows "\<exists>task rest tk. scan_tasks tid st ts = Inr (task, rest, tk)"
  using assms by (induction ts) auto

section \<open>Sums over threads\<close>

lemma pc_sum_update:
  assumes "m tid = Some p" and "finite (dom m)"
  shows "pc_sum g (m(tid \<mapsto> p')) + g p = pc_sum g m + g p'"
proof -
  have dom: "insert tid (dom m) = dom m" "tid \<in> dom m" using assms by auto
  have "pc_sum g (m(tid \<mapsto> p')) = g p' + (\<Sum>i\<in>dom m - {tid}. g (the (m i)))"
    unfolding pc_sum_def using assms dom by (simp add: sum.remove [of _ tid])
  moreover have "pc_sum g m = g p + (\<Sum>i\<in>dom m - {tid}. g (the (m i)))"
    unfolding pc_sum_def using assms dom by (simp add: sum.remove [of _ tid])
  ultimately show ?thesis by (simp add: ac_simps)
qed

lemma pc_sum_same:
  assumes "m tid = Some p" and "finite (dom m)" and "g p' = (g p :: 'm::cancel_comm_monoid_add)"
  shows "pc_sum g (m(tid \<mapsto> p')) = pc_sum g m"
  using pc_sum_update [where g = g and p' = p', OF assms(1,2)] assms(3) by simp

lemma pc_sum_two:
  assumes "m i = Some p" "m j = Some q" "i \<noteq> j" "finite (dom m)"
  shows "\<exists>r. pc_sum g m = g p + g q + r"
proof -
  have "i \<in> dom m" "j \<in> dom m - {i}" using assms by auto
  then show ?thesis
    unfolding pc_sum_def using assms by (simp add: sum.remove [of _ i] sum.remove [of _ j] add.assoc) blast
qed

lemma pc_sum_one:
  assumes "m i = Some p" "finite (dom m)"
  shows "\<exists>r. pc_sum g m = g p + r"
proof -
  have "i \<in> dom m" using assms by auto
  then show ?thesis
    unfolding pc_sum_def using assms by (simp add: sum.remove [of _ i]) blast
qed

lemma pc_sum_zero: "ran m \<subseteq> {p} \<Longrightarrow> g p = 0 \<Longrightarrow> pc_sum g m = 0"
  unfolding pc_sum_def by (rule sum.neutral) (auto simp: ran_def)

section \<open>Bookkeeping\<close>

lemmas sched_inv_defs = sched_inv_def in_hands_def set_pc_def

lemma sys_schedule_inv [inv_intros]: "sched_inv y \<Longrightarrow> sched_inv (sys_schedule t y)"
  by (simp add: sched_inv_defs sys_schedule_def schedule_def scheduleNoLock_def)

lemma set_stopping_inv [inv_intros]:
  "sched_inv y \<Longrightarrow> sched_inv (y\<lparr>sched := (sched y)\<lparr>m_stopping := True\<rparr>\<rparr>)"
  by (simp add: sched_inv_defs)

lemma fstate_inv [inv_intros]: "sched_inv y \<Longrightarrow> sched_inv (y\<lparr>fstate := st\<rparr>)"
  by (simp add: sched_inv_defs)

lemma aborted_inv [inv_intros]: "sched_inv y \<Longrightarrow> sched_inv (y\<lparr>aborted := b\<rparr>)"
  by (simp add: sched_inv_defs)

text \<open>Moving a thread to a point with the same task in hand changes no count.\<close>

lemma set_pc_inv [inv_intros]:
  assumes "sched_inv y" "pcs y tid = Some p" "held p' = held p" "idling p' = idling p" "p' \<noteq> Exited"
  shows "sched_inv (set_pc tid p' y)"
  using assms pc_sum_same [of "pcs y" tid p held p'] pc_sum_same [of "pcs y" tid p idling p']
  by (auto simp: sched_inv_defs)

lemma sys_fetch_inv [inv_intros]:
  assumes inv: "sched_inv y" and pc: "pcs y tid = Some AtTop"
  shows "sched_inv (sys_fetch tid y)"
proof (cases "scan_tasks tid (fstate y) (m_tasks (sched y))")
  case (Inl e)
  then show ?thesis using inv by (simp add: sys_fetch_def take_task_def aborted_inv)
next
  case (Inr r)
  obtain task rest tk where r: "r = (task, rest, tk)" by (cases r)
  have fin: "finite (dom (pcs y))" using inv by (simp add: sched_inv_def)
  have h: "pc_sum held ((pcs y)(tid \<mapsto> Dispatch task)) = pc_sum held (pcs y) + held (Dispatch task)"
    using pc_sum_update [OF pc fin, of held "Dispatch task"] by simp
  have i: "pc_sum idling ((pcs y)(tid \<mapsto> Dispatch task)) = pc_sum idling (pcs y)"
    using pc_sum_same [OF pc fin, of idling "Dispatch task"] by (simp add: idling_def)
  show ?thesis
    using scan_tasks_cases [OF Inr [unfolded r]] inv Inr r h i
    by (auto simp: sys_fetch_def take_task_def sched_inv_defs)
qed

lemma sys_dispatch_inv [inv_intros]:
  assumes "sched_inv y" "pcs y tid = Some (Dispatch (Some t))"
  shows "sched_inv (sys_dispatch p tid t y)"
  using assms by (auto simp: sys_dispatch_def idling_def intro!: inv_intros)

lemma sys_switch_inv [inv_intros]:
  "sched_inv y \<Longrightarrow> pcs y tid = Some (Resuming f t) \<Longrightarrow> sched_inv (sys_switch tid f t y)"
  by (auto simp: sys_switch_def idling_def intro!: inv_intros)

lemma sys_leave_inv [inv_intros]:
  "sched_inv y \<Longrightarrow> pcs y tid = Some (InFiber f t) \<Longrightarrow> sched_inv (sys_leave st tid f t y)"
  by (auto simp: sys_leave_def idling_def intro!: inv_intros)

lemma sys_return_inv [inv_intros]:
  assumes inv: "sched_inv y" and pc: "pcs y tid = Some (Leaving f t)"
  shows "sched_inv (sys_return tid t y)"
proof -
  have fin: "finite (dom (pcs y))" using inv by (simp add: sched_inv_def)
  have h: "pc_sum held (pcs y) = pc_sum held ((pcs y)(tid \<mapsto> AtTop)) + {#t#}"
    using pc_sum_update [OF pc fin, of held AtTop] by simp
  have i: "pc_sum idling ((pcs y)(tid \<mapsto> AtTop)) = pc_sum idling (pcs y)"
    using pc_sum_same [OF pc fin, of idling AtTop] by (simp add: idling_def)
  show ?thesis
    using inv by (auto simp: sys_return_def sched_inv_defs i h)
qed

lemma sys_idle_inv [inv_intros]:
  assumes inv: "sched_inv y" and pc: "pcs y tid = Some (Dispatch None)"
  shows "sched_inv (sys_idle tid y)"
proof -
  have fin: "finite (dom (pcs y))" using inv by (simp add: sched_inv_def)
  have h: "pc_sum held ((pcs y)(tid \<mapsto> p)) = pc_sum held (pcs y)" if "held p = {#}" for p
    using pc_sum_same [OF pc fin, of held p] that by simp
  have i: "pc_sum idling ((pcs y)(tid \<mapsto> p)) = pc_sum idling (pcs y) + idling p" for p
    using pc_sum_update [OF pc fin, of idling p] by (simp add: idling_def)
  show ?thesis
    using inv by (auto simp: sys_idle_def sched_inv_defs h i idling_def)
qed

lemma sys_idle_return_inv [inv_intros]:
  assumes inv: "sched_inv y" and pc: "pcs y tid = Some InIdle"
  shows "sched_inv (sys_idle_return tid y)"
proof -
  have fin: "finite (dom (pcs y))" using inv by (simp add: sched_inv_def)
  have h: "pc_sum held ((pcs y)(tid \<mapsto> AtTop)) = pc_sum held (pcs y)"
    using pc_sum_same [OF pc fin, of held AtTop] by simp
  have i: "pc_sum idling (pcs y) = Suc (pc_sum idling ((pcs y)(tid \<mapsto> AtTop)))"
    using pc_sum_update [OF pc fin, of idling AtTop] by (simp add: idling_def)
  show ?thesis
    using inv by (auto simp: sys_idle_return_def sched_inv_defs h i stopping_def)
qed

lemma sched_step_inv: "sched_step P y y' \<Longrightarrow> sched_inv y \<Longrightarrow> sched_inv y'"
  by (induction rule: sched_step.induct) (auto intro: inv_intros)

lemma sched_init_inv: "sched_init y \<Longrightarrow> sched_inv y"
  by (auto simp: sched_init_def sched_inv_defs pc_sum_zero [where p = AtTop] idling_def ran_def)

interpretation sched_machine: inductive_invariant sched_init "sched_step P" sched_inv
  for P :: "'c sched_sys \<Rightarrow> 'c ScheduleTask \<Rightarrow> bool"
  by unfold_locales (auto intro: sched_init_inv sched_step_inv)

section \<open>Fibers\<close>

lemmas fibers_inv_defs = fibers_inv_def occupied_def set_pc_def

lemma queued_fibers_Cons [simp]:
  "queued_fibers (t # ts) = (if m_task_fiber t \<noteq> 0 then {#m_task_fiber t#} else {#}) + queued_fibers ts"
  by (simp add: queued_fibers_def)

lemma queued_fibers_append [simp]:
  "queued_fibers (xs @ ys) = queued_fibers xs + queued_fibers ys"
  by (simp add: queued_fibers_def)

lemma queued_fibers_Nil [simp]: "queued_fibers [] = {#}"
  by (simp add: queued_fibers_def)

lemma in_queued_fibers: "f \<in># queued_fibers ts \<longleftrightarrow> f \<noteq> 0 \<and> (\<exists>t\<in>set ts. m_task_fiber t = f)"
  by (auto simp: queued_fibers_def)

text \<open>What a thread holds is occupied; fibers in different hands differ.\<close>

lemma holds_occupied:
  assumes "pcs y tid = Some p" "finite (dom (pcs y))" "f \<in># holds_fiber p"
  shows "f \<in># occupied y"
  using pc_sum_one [OF assms(1,2), of holds_fiber] assms(3) by (auto simp: occupied_def)

lemma holders_agree:
  assumes inv: "fibers_inv y" and p: "pcs y i = Some p" "f \<in># holds_fiber p"
    and q: "pcs y j = Some q" "f \<in># holds_fiber q"
  shows "i = j"
proof (rule ccontr)
  assume "i \<noteq> j"
  moreover have "finite (dom (pcs y))" using inv by (simp add: fibers_inv_def)
  ultimately obtain r where "pc_sum holds_fiber (pcs y) = holds_fiber p + holds_fiber q + r"
    using pc_sum_two [of "pcs y" i p j q holds_fiber] p q by auto
  then have "count (occupied y) f \<ge> count (holds_fiber p) f + count (holds_fiber q) f"
    by (simp add: occupied_def)
  moreover have "count (holds_fiber p) f > 0" "count (holds_fiber q) f > 0" using p(2) q(2) by auto
  moreover have "count (occupied y) f \<le> 1" using inv by (simp add: fibers_inv_def)
  ultimately show False by linarith
qed

lemma held_not_queued:
  assumes inv: "fibers_inv y" and p: "pcs y i = Some p" "f \<in># holds_fiber p"
  shows "f \<notin># queued_fibers (m_tasks (sched y))"
proof
  assume "f \<in># queued_fibers (m_tasks (sched y))"
  then have 1: "count (queued_fibers (m_tasks (sched y))) f > 0" by simp
  obtain r where "pc_sum holds_fiber (pcs y) = holds_fiber p + r"
    using pc_sum_one [of "pcs y" i p holds_fiber] p inv by (auto simp: fibers_inv_def)
  then have "count (occupied y) f \<ge> 1 + count (queued_fibers (m_tasks (sched y))) f"
    using p(2) by (simp add: occupied_def count_greater_zero_iff [symmetric] Suc_le_eq del: count_greater_zero_iff)
  moreover have "count (occupied y) f \<le> 1" using inv by (simp add: fibers_inv_def)
  ultimately show False using 1 by linarith
qed

lemma pc_fiber_ok_cong:
  "pc_fiber_ok st p \<Longrightarrow> (\<And>g. g \<in># holds_fiber p \<Longrightarrow> st' g = st g) \<Longrightarrow> pc_fiber_ok st' p"
  by (cases "(st, p)" rule: pc_fiber_ok.cases) (auto split: if_splits, metis gr0I multi_member_last)

lemma holds_known:
  "pc_fiber_ok st p \<Longrightarrow> f \<in># holds_fiber p \<Longrightarrow> st f \<noteq> None"
  by (cases "(st, p)" rule: pc_fiber_ok.cases) (auto split: if_splits)

lemma occupied_known: "fibers_inv y \<Longrightarrow> f \<in># occupied y \<Longrightarrow> fstate y f \<noteq> None"
proof -
  assume inv: "fibers_inv y" and f: "f \<in># occupied y"
  have fin: "finite (dom (pcs y))" using inv by (simp add: fibers_inv_def)
  show ?thesis
  proof (cases "f \<in># queued_fibers (m_tasks (sched y))")
    case True
    then show ?thesis using inv by (auto simp: fibers_inv_def)
  next
    case False
    then have "f \<in># pc_sum holds_fiber (pcs y)" using f by (simp add: occupied_def)
    then obtain tid where "tid \<in> dom (pcs y)" "f \<in># holds_fiber (the (pcs y tid))"
      unfolding pc_sum_def using fin by (auto simp: set_mset_sum)
    then show ?thesis using inv holds_known by (fastforce simp: fibers_inv_def)
  qed
qed

text \<open>
  A thread that holds one fiber \<open>f\<close>, and may change its state, moves on holding \<open>f\<close> or nothing.
\<close>

lemma set_pc_fibers:
  assumes inv: "fibers_inv y" and pc: "pcs y tid = Some p"
    and sub: "holds_fiber p' \<subseteq># holds_fiber p" and ok: "pc_fiber_ok st p'"
    and st: "\<And>g. g \<notin># holds_fiber p \<Longrightarrow> st g = fstate y g"
  shows "fibers_inv (set_pc tid p' (y\<lparr>fstate := st\<rparr>))"
proof -
  have fin: "finite (dom (pcs y))" using inv by (simp add: fibers_inv_def)
  have "pc_sum holds_fiber ((pcs y)(tid \<mapsto> p')) \<subseteq># pc_sum holds_fiber (pcs y)"
    using pc_sum_update [OF pc fin, of holds_fiber p'] sub
    by (metis mset_subset_eq_add_left mset_subset_eq_mono_add_right_cancel subset_mset.add_left_mono)
  then have le: "count (occupied (set_pc tid p' (y\<lparr>fstate := st\<rparr>))) g \<le> count (occupied y) g" for g
    by (simp add: occupied_def set_pc_def mset_subset_eq_count)
  have one: "count (occupied y) g \<le> 1" for g using inv by (simp add: fibers_inv_def)
  have other: "pc_fiber_ok st q" if q: "pcs y i = Some q" "i \<noteq> tid" for i q
  proof -
    have "st g = fstate y g" if "g \<in># holds_fiber q" for g
      using holders_agree [OF inv pc _ q(1) that] q(2) st [of g] by blast
    moreover have "pc_fiber_ok (fstate y) q" using inv q by (auto simp: fibers_inv_def)
    ultimately show ?thesis by (rule pc_fiber_ok_cong [rotated])
  qed
  have "st f = Some READY" if "f \<in># queued_fibers (m_tasks (sched y))" for f
    using held_not_queued [OF inv pc] st [of f] that inv by (auto simp: fibers_inv_def)
  then show ?thesis
    using inv le one other ok order_trans [OF le one] by (auto simp: fibers_inv_def set_pc_def)
qed

lemma fresh_fiber_fibers:
  assumes inv: "fibers_inv y" and f: "fstate y f = None"
  shows "fibers_inv (y\<lparr>fstate := (fstate y)(f \<mapsto> READY)\<rparr>)"
proof -
  have "pc_fiber_ok ((fstate y)(f \<mapsto> READY)) p" if p: "pcs y tid = Some p" for tid p
  proof -
    have ok: "pc_fiber_ok (fstate y) p" using inv p by (auto simp: fibers_inv_def)
    then show ?thesis
      using f holds_known [OF ok] by (intro pc_fiber_ok_cong [OF ok]) (metis fun_upd_other)
  qed
  then show ?thesis using inv by (auto simp: fibers_inv_def occupied_def)
qed

lemma sys_schedule_fibers:
  "fibers_inv y \<Longrightarrow> disciplined y t \<Longrightarrow> fibers_inv (sys_schedule t y)"
  by (auto simp: fibers_inv_def occupied_def sys_schedule_def schedule_def scheduleNoLock_def
        disciplined_def not_in_iff)

lemma sys_fetch_fibers:
  assumes inv: "fibers_inv y" and pc: "pcs y tid = Some AtTop"
  shows "fibers_inv (sys_fetch tid y)"
proof -
  have fin: "finite (dom (pcs y))" using inv by (simp add: fibers_inv_def)
  have "\<forall>t\<in>set (m_tasks (sched y)). runnable t \<and>
      (m_task_fiber t = 0 \<or> fstate y (m_task_fiber t) = Some READY)"
    using inv in_queued_fibers [of _ "m_tasks (sched y)"] unfolding fibers_inv_def by blast
  then obtain task rest tk where r: "scan_tasks tid (fstate y) (m_tasks (sched y)) = Inr (task, rest, tk)"
    using scan_tasks_total by blast
  have h: "pc_sum holds_fiber ((pcs y)(tid \<mapsto> Dispatch task)) =
      pc_sum holds_fiber (pcs y) + holds_fiber (Dispatch task)"
    using pc_sum_update [OF pc fin, of holds_fiber "Dispatch task"] by simp
  show ?thesis
    using scan_tasks_cases [OF r] inv r h
    by (auto simp: sys_fetch_def take_task_def fibers_inv_defs split: if_splits)
qed

lemma sys_dispatch_fibers:
  assumes inv: "fibers_inv y" and pc: "pcs y tid = Some (Dispatch (Some t))" and p: "fstate y p = None"
  shows "fibers_inv (sys_dispatch p tid t y)"
proof (cases "m_task_fiber t = 0")
  case False
  then have "fstate y (m_task_fiber t) = Some READY"
    using inv pc unfolding fibers_inv_def by (metis pc_fiber_ok.simps(1))
  moreover have "y = y\<lparr>fstate := fstate y\<rparr>" by simp
  ultimately show ?thesis
    using False set_pc_fibers [OF inv pc, of "Resuming (m_task_fiber t) t" "fstate y"]
    by (simp add: sys_dispatch_def)
next
  case True
  let ?z = "y\<lparr>fstate := (fstate y)(p \<mapsto> READY)\<rparr>"
  have z: "fibers_inv ?z" by (rule fresh_fiber_fibers [OF inv p])
  have fin: "finite (dom (pcs y))" using inv by (simp add: fibers_inv_def)
  have "count (occupied y) p = 0" using occupied_known [OF inv] p by (metis not_in_iff)
  then have "count (occupied (set_pc tid (Resuming p t) ?z)) f \<le> 1" for f
    using pc_sum_update [OF pc fin, of holds_fiber "Resuming p t"] True inv
    by (auto simp: occupied_def set_pc_def fibers_inv_def)
  then show ?thesis using z True by (auto simp: sys_dispatch_def fibers_inv_def set_pc_def)
qed

lemma sched_step_fibers:
  assumes "sched_step disciplined y y'" and inv: "fibers_inv y"
  shows "fibers_inv y'"
  using assms(1)
proof cases
  case (st_switch tid f t)
  then show ?thesis
    using set_pc_fibers [OF inv, of tid "Resuming f t" "InFiber f t" "(fstate y)(f \<mapsto> RUNNING)"]
    by (simp add: sys_switch_def)
next
  case (st_leave tid f t st)
  then show ?thesis
    using set_pc_fibers [OF inv, of tid "InFiber f t" "Leaving f t" "(fstate y)(f \<mapsto> st)"]
    by (simp add: sys_leave_def)
next
  case (st_return tid f t)
  then show ?thesis
    using set_pc_fibers [OF inv, of tid "Leaving f t" AtTop "fstate y"]
    by (simp add: sys_return_def fibers_inv_defs)
next
  case (st_idle tid)
  then show ?thesis
    using set_pc_fibers [OF inv, of tid "Dispatch None" InIdle "fstate y"]
      set_pc_fibers [OF inv, of tid "Dispatch None" Exited "fstate y"]
    by (simp add: sys_idle_def fibers_inv_defs)
next
  case (st_idle_return tid)
  then show ?thesis
    using set_pc_fibers [OF inv, of tid InIdle AtTop "fstate y"]
    by (simp add: sys_idle_return_def fibers_inv_defs)
next
  case st_stop
  then show ?thesis using inv by (simp add: fibers_inv_defs)
qed (auto intro: sys_schedule_fibers fresh_fiber_fibers sys_fetch_fibers sys_dispatch_fibers inv)

lemma sched_init_fibers: "sched_init y \<Longrightarrow> fibers_inv y"
  by (auto simp: sched_init_def fibers_inv_defs pc_sum_zero [where p = AtTop] ran_def)

interpretation disciplined_machine: inductive_invariant sched_init "sched_step disciplined" fibers_inv
  by unfold_locales (auto intro: sched_init_fibers sched_step_fibers)

section \<open>Executable runs\<close>

text \<open>The steps as commands, for running the system on concrete schedules.\<close>

datatype 'c sched_op =
    Do_schedule "'c ScheduleTask"
  | Do_stop
  | Do_fetch int
  | Do_dispatch addr int
  | Do_switch int
  | Do_leave State int
  | Do_return int
  | Do_idle int
  | Do_idle_return int

fun sched_exec :: "'c sched_op \<Rightarrow> 'c sched_sys \<Rightarrow> 'c sched_sys option" where
  "sched_exec (Do_schedule t) y = Some (sys_schedule t y)"
| "sched_exec Do_stop y = Some (y\<lparr>sched := (sched y)\<lparr>m_stopping := True\<rparr>\<rparr>)"
| "sched_exec (Do_fetch tid) y = (case pcs y tid of Some AtTop \<Rightarrow> Some (sys_fetch tid y) | _ \<Rightarrow> None)"
| "sched_exec (Do_dispatch p tid) y =
     (case pcs y tid of
        Some (Dispatch (Some t)) \<Rightarrow>
          if fstate y p = None \<and> p \<noteq> 0 then Some (sys_dispatch p tid t y) else None
      | _ \<Rightarrow> None)"
| "sched_exec (Do_switch tid) y =
     (case pcs y tid of Some (Resuming f t) \<Rightarrow> Some (sys_switch tid f t y) | _ \<Rightarrow> None)"
| "sched_exec (Do_leave st tid) y =
     (case pcs y tid of
        Some (InFiber f t) \<Rightarrow> if st \<noteq> RUNNING then Some (sys_leave st tid f t y) else None
      | _ \<Rightarrow> None)"
| "sched_exec (Do_return tid) y =
     (case pcs y tid of Some (Leaving f t) \<Rightarrow> Some (sys_return tid t y) | _ \<Rightarrow> None)"
| "sched_exec (Do_idle tid) y =
     (case pcs y tid of Some (Dispatch None) \<Rightarrow> Some (sys_idle tid y) | _ \<Rightarrow> None)"
| "sched_exec (Do_idle_return tid) y =
     (case pcs y tid of Some InIdle \<Rightarrow> Some (sys_idle_return tid y) | _ \<Rightarrow> None)"

fun sched_run :: "'c sched_op list \<Rightarrow> 'c sched_sys \<Rightarrow> 'c sched_sys option" where
  "sched_run [] y = Some y"
| "sched_run (c # cs) y =
     (if aborted y then None else case sched_exec c y of None \<Rightarrow> None | Some z \<Rightarrow> sched_run cs z)"

lemma sched_exec_step:
  assumes "sched_exec c y = Some z" "\<not> aborted y" "\<And>t. c = Do_schedule t \<Longrightarrow> P y t"
  shows "sched_step P y z"
  using assms by (cases c) (auto intro: sched_step.intros split: option.splits pc.splits if_splits)

text \<open>A run whose first command alone schedules is a sequence of steps.\<close>

definition no_schedule :: "'c sched_op \<Rightarrow> bool" where
  "no_schedule c \<longleftrightarrow> (\<forall>t. c \<noteq> Do_schedule t)"

lemma sched_run_reach:
  assumes "reach I (sched_step P) y" "sched_run cs y = Some z" "list_all no_schedule cs"
  shows "reach I (sched_step P) z"
  using assms
proof (induction cs arbitrary: y)
  case (Cons c cs)
  then obtain x where x: "\<not> aborted y" "sched_exec c y = Some x" "sched_run cs x = Some z"
    by (auto split: if_splits option.splits)
  then have "sched_step P y x"
    using Cons.prems(3) sched_exec_step [of c y x P] by (auto simp: no_schedule_def)
  then show ?case using Cons.IH [of x] Cons.prems x by (auto intro: reach_step)
qed simp

definition two_threads :: "bool sched_sys" where
  "two_threads = \<lparr>sched = \<lparr>m_tasks = [], m_threads = [1, 2], m_threadIds = [1, 2], m_threadCount = 2,
       m_activeThreadCount = 0, m_idleThreadCount = 0, m_useCaller = False, m_rootFiber = 0,
       m_rootThreadId = - 1, m_stopping = False\<rparr>,
     fstate = Map.empty, pcs = [1 \<mapsto> AtTop, 2 \<mapsto> AtTop], idle_ended = {}, accepted = [],
     finished = [], aborted = False\<rparr>"

lemma two_threads_scheduled:
  assumes "P two_threads (Task_cb (Some True) (- 1))"
  shows "reach sched_init (sched_step P) (sys_schedule (Task_cb (Some True) (- 1)) two_threads)"
proof (rule reach_step)
  show "reach sched_init (sched_step P) two_threads"
    by (rule reach_init) (auto simp: sched_init_def two_threads_def ran_def)
  show "sched_step P two_threads (sys_schedule (Task_cb (Some True) (- 1)) two_threads)"
    by (rule st_schedule) (use assms in \<open>simp_all add: two_threads_def\<close>)
qed

lemmas run_simps = sys_schedule_def schedule_def scheduleNoLock_def sys_fetch_def take_task_def
  sys_dispatch_def sys_switch_def sys_leave_def sys_return_def sys_idle_def sys_idle_return_def
  set_pc_def Task_cb_def Task_fiber_def runnable_def two_threads_def stopping_def no_schedule_def

section \<open>Properties\<close>

lemma find_dropWhile_Nil: "dropWhile (\<lambda>x. \<not> Q x) xs = [] \<Longrightarrow> find Q xs = None"
  by (simp add: find_None_iff)

lemma find_dropWhile_Cons:
  assumes "dropWhile (\<lambda>x. \<not> Q x) xs = x # rest"
  shows "find Q xs = Some x" and "remove1 x xs = takeWhile (\<lambda>x. \<not> Q x) xs @ rest"
proof -
  have xs: "xs = takeWhile (\<lambda>x. \<not> Q x) xs @ x # rest"
    using takeWhile_dropWhile_id [of "\<lambda>x. \<not> Q x" xs] assms by simp
  have Q: "Q x" using hd_dropWhile [of "\<lambda>x. \<not> Q x" xs] assms by simp
  have "x \<notin> set (takeWhile (\<lambda>x. \<not> Q x) xs)" using Q by (auto dest: set_takeWhileD)
  then show "remove1 x xs = takeWhile (\<lambda>x. \<not> Q x) xs @ rest"
    by (subst xs) (simp add: remove1_append)
  show "find Q xs = Some x" using assms by (induction xs) (auto split: if_splits)
qed

text \<open>
  The locked section of \<^verbatim>\<open>run()\<close> takes the first queued task that has no thread or is
  bound to the calling thread, removes exactly that task and keeps the order of the others,
  increments the active count iff a task was taken, and asks for a \<^verbatim>\<open>tickle()\<close> iff tasks are
  left in the queue.
\<close>

theorem take_task_first_eligible:
  assumes "take_task tid st s = Inr (task, tickle_me, s')"
  shows "task = find (mine tid) (m_tasks s) \<and>
    s' = (case task of
            None \<Rightarrow> s
          | Some t \<Rightarrow> s\<lparr>m_tasks := remove1 t (m_tasks s),
                        m_activeThreadCount := Suc (m_activeThreadCount s)\<rparr>) \<and>
    (tickle_me \<longleftrightarrow> m_tasks s' \<noteq> [])"
proof (cases "dropWhile (\<lambda>t. \<not> mine tid t) (m_tasks s)")
  case Nil
  then show ?thesis
    using assms find_dropWhile_Nil [OF Nil]
    unfolding take_task_def scan_tasks_split Let_def Nil by auto
next
  case (Cons t rest)
  show ?thesis
    using assms unfolding take_task_def scan_tasks_split Let_def Cons
    by (auto simp: outcome_simps find_dropWhile_Cons [OF Cons])
qed

theorem take_task_first_eligible_witness:
  "take_task 2 (\<lambda>_. Some READY)
      \<lparr>m_tasks = [Task_cb (Some True) 1, Task_fiber 5 2, Task_cb (Some False) (- 1)], m_threads = [],
       m_threadIds = [], m_threadCount = 2, m_activeThreadCount = 0, m_idleThreadCount = 0,
       m_useCaller = False, m_rootFiber = 0, m_rootThreadId = - 1, m_stopping = False\<rparr> =
   Inr (Some (Task_fiber 5 2), True,
      \<lparr>m_tasks = [Task_cb (Some True) 1, Task_cb (Some False) (- 1)], m_threads = [],
       m_threadIds = [], m_threadCount = 2, m_activeThreadCount = 1, m_idleThreadCount = 0,
       m_useCaller = False, m_rootFiber = 0, m_rootThreadId = - 1, m_stopping = False\<rparr>)
   \<and> find (mine 2) [Task_cb (Some True) 1, Task_fiber 5 2, Task_cb (Some False) (- 1)] =
       Some (Task_fiber 5 2)"
  (is "?run \<and> ?first")
proof -
  have run: ?run
    by (simp add: take_task_def Task_cb_def Task_fiber_def runnable_def)
  show ?thesis
    using take_task_first_eligible [OF run] run by simp
qed

text \<open>
  C1. No task is lost: in every reachable state, whoever schedules what, the accepted tasks
  are the queued ones, those in the hands of a thread and the finished ones, each exactly as
  often as it was accepted; the active count is the number of tasks in the hands of threads. So
  when \<^verbatim>\<open>stopping()\<close> holds, every accepted task has been run and no thread has one.
\<close>

theorem stopping_all_finished:
  assumes "reach sched_init (sched_step P) y"
  shows "mset (accepted y) = mset (m_tasks (sched y)) + in_hands y + mset (finished y) \<and>
    m_activeThreadCount (sched y) = size (in_hands y) \<and>
    (stopping (sched y) \<longrightarrow> mset (finished y) = mset (accepted y) \<and> in_hands y = {#})"
  using sched_machine.reach_inv [OF assms] by (auto simp: sched_inv_def stopping_def)

theorem stopping_all_finished_witness:
  "\<exists>y. sched_run [Do_fetch 1, Do_dispatch 7 1, Do_switch 1, Do_leave TERMINATED 1, Do_return 1, Do_stop]
       (sys_schedule (Task_cb (Some True) (- 1)) two_threads) = Some y \<and>
     stopping (sched y) \<and> mset (finished y) = {#Task_cb (Some True) (- 1)#} \<and> in_hands y = {#}"
  (is "\<exists>y. sched_run ?cs ?start = Some y \<and> _ y")
proof -
  let ?y = "the (sched_run ?cs ?start)"
  have y: "sched_run ?cs ?start = Some ?y" and s: "stopping (sched ?y)"
    and a: "accepted ?y = [Task_cb (Some True) (- 1)]"
    by (simp_all add: run_simps)
  have "reach sched_init (sched_step (\<lambda>_ _. True)) ?y"
    by (rule sched_run_reach [OF two_threads_scheduled y]) (simp_all add: no_schedule_def)
  from stopping_all_finished [OF this] s
  have "mset (finished ?y) = mset (accepted ?y)" "in_hands ?y = {#}" by blast+
  then show ?thesis using y s unfolding a mset.simps by blast
qed

text \<open>
  C18. A scheduler whose clients schedule nothing from outside once \<^verbatim>\<open>stop()\<close> was called
  (tasks that are running still may) drains its queue: when a thread has left \<^verbatim>\<open>run()\<close>, every
  accepted task is finished, and the scheduler stays so.
\<close>

theorem exited_thread_drained:
  assumes r: "reach sched_init (sched_step P) y"
    and P: "\<And>z t. P z t \<Longrightarrow> m_stopping (sched z) \<Longrightarrow> in_hands z \<noteq> {#}"
    and e: "pcs y tid = Some Exited"
  shows "stopping (sched y) \<and> mset (finished y) = mset (accepted y)"
proof -
  have "idle_ended y \<noteq> {} \<longrightarrow> stopping (sched y)"
  proof (rule sched_machine.reach_strengthen [OF r])
    show "idle_ended t \<noteq> {} \<longrightarrow> stopping (sched t)" if "sched_init t" for t :: "'a sched_sys"
      using that by (simp add: sched_init_def)
    show "idle_ended t' \<noteq> {} \<longrightarrow> stopping (sched t')"
      if inv: "sched_inv t" and IH: "idle_ended t \<noteq> {} \<longrightarrow> stopping (sched t)"
        and st: "sched_step P t t'" for t t'
      using st
    proof cases
      case (st_schedule u)
      then show ?thesis
        using IH P [of t u] inv by (auto simp: sys_schedule_def stopping_def sched_inv_def)
    next
      case (st_fetch tid)
      then show ?thesis
        using IH by (auto simp: sys_fetch_def take_task_def stopping_def set_pc_def rbind_def split: sum.splits)
    qed (use IH in \<open>auto simp: stopping_def sys_dispatch_def sys_switch_def sys_leave_def sys_return_def
            sys_idle_def sys_idle_return_def set_pc_def\<close>)
  qed
  then show ?thesis
    using sched_machine.reach_inv [OF r] e by (auto simp: sched_inv_def stopping_def)
qed

theorem exited_thread_drained_witness:
  "\<exists>y. sched_run [Do_fetch 1, Do_dispatch 7 1, Do_switch 1, Do_leave TERMINATED 1, Do_return 1, Do_stop,
         Do_fetch 2, Do_idle 2, Do_idle_return 2, Do_fetch 2, Do_idle 2]
       (sys_schedule (Task_cb (Some True) (- 1)) two_threads) = Some y \<and>
     pcs y 2 = Some Exited \<and> mset (finished y) = {#Task_cb (Some True) (- 1)#}"
  (is "\<exists>y. sched_run ?cs ?start = Some y \<and> _ y")
proof -
  let ?y = "the (sched_run ?cs ?start)"
  have y: "sched_run ?cs ?start = Some ?y" and s: "pcs ?y 2 = Some Exited"
    and a: "accepted ?y = [Task_cb (Some True) (- 1)]"
    by (simp_all add: run_simps)
  have "reach sched_init (sched_step (\<lambda>z t. m_stopping (sched z) \<longrightarrow> in_hands z \<noteq> {#})) ?y"
    by (rule sched_run_reach [OF two_threads_scheduled y]) (simp_all add: no_schedule_def two_threads_def)
  then have "stopping (sched ?y) \<and> mset (finished ?y) = mset (accepted ?y)"
    by (rule exited_thread_drained [OF _ _ s]) simp
  then show ?thesis using y s unfolding a mset.simps by blast
qed

text \<open>
  C2. When clients schedule only suspended fibers that nobody else has queued or holds, no
  assertion of the scheduler or of \<^verbatim>\<open>Fiber::resume\<close> fails in any interleaving, every fiber that
  is being executed is \<^verbatim>\<open>RUNNING\<close>, and it is executed by one thread only.
\<close>

theorem disciplined_fibers_exclusive:
  assumes "reach sched_init (sched_step disciplined) y"
  shows "\<not> aborted y \<and>
    (\<forall>i j f t u. pcs y i = Some (InFiber f t) \<longrightarrow>
        fstate y f = Some RUNNING \<and> (pcs y j = Some (InFiber f u) \<longrightarrow> i = j))"
proof -
  have inv: "fibers_inv y" by (rule disciplined_machine.reach_inv [OF assms])
  have "i = j" if "pcs y i = Some (InFiber f t)" "pcs y j = Some (InFiber f u)" for i j f t u
    using holders_agree [OF inv that(1) _ that(2)] by simp
  moreover have "fstate y f = Some RUNNING" if "pcs y i = Some (InFiber f t)" for i f t
    using inv that unfolding fibers_inv_def by (metis pc_fiber_ok.simps(3))
  ultimately show ?thesis using inv by (auto simp: fibers_inv_def)
qed

theorem disciplined_fibers_exclusive_witness:
  "\<exists>y. sched_run [Do_fetch 1, Do_dispatch 7 1, Do_switch 1]
       (sys_schedule (Task_cb (Some True) (- 1)) two_threads) = Some y \<and>
     pcs y 1 = Some (InFiber 7 (Task_cb (Some True) (- 1))) \<and> fstate y 7 = Some RUNNING \<and> \<not> aborted y"
  (is "\<exists>y. sched_run ?cs ?start = Some y \<and> _ y")
proof -
  let ?y = "the (sched_run ?cs ?start)"
  have y: "sched_run ?cs ?start = Some ?y"
    and p: "pcs ?y 1 = Some (InFiber 7 (Task_cb (Some True) (- 1)))"
    by (simp_all add: run_simps)
  have "reach sched_init (sched_step disciplined) ?y"
    by (rule sched_run_reach [OF two_threads_scheduled y])
       (simp_all add: no_schedule_def disciplined_def Task_cb_def)
  from disciplined_fibers_exclusive [OF this] y p show ?thesis by blast
qed

text \<open>
  C38. The discipline is needed, and the code's own clients do not follow it: a fiber that has
  itself scheduled while it is running (as the hooks do: they register the current fiber for an
  event and yield afterwards) aborts the process when another thread reaches the queue before
  the fiber has yielded. When the fiber yields first, the same task is taken normally.
\<close>

theorem running_fiber_rescheduled_race:
  assumes "pcs y i = Some (InFiber f t)" and "fstate y f = Some RUNNING" and "f \<noteq> 0"
    and "pcs y j = Some AtTop" and "m_tasks (sched y) = []"
  shows "aborted (sys_fetch j (sys_schedule (Task_fiber f (- 1)) y)) \<and>
    (let z = sys_fetch j (sys_leave READY i f t (sys_schedule (Task_fiber f (- 1)) y))
     in pcs z j = Some (Dispatch (Some (Task_fiber f (- 1)))) \<and> aborted z = aborted y)"
  using assms by (auto simp: run_simps Let_def)

theorem running_fiber_rescheduled_race_witness:
  "\<exists>y. sched_run [Do_fetch 1, Do_dispatch 7 1, Do_switch 1]
       (sys_schedule (Task_cb (Some True) (- 1)) two_threads) = Some y \<and>
     reach sched_init (sched_step (\<lambda>_ _. True)) y \<and>
     aborted (sys_fetch 2 (sys_schedule (Task_fiber 7 (- 1)) y))"
  (is "\<exists>y. sched_run ?cs ?start = Some y \<and> _ y")
proof -
  let ?y = "the (sched_run ?cs ?start)"
  have y: "sched_run ?cs ?start = Some ?y"
    and p: "pcs ?y 1 = Some (InFiber 7 (Task_cb (Some True) (- 1)))" "fstate ?y 7 = Some RUNNING"
      "pcs ?y 2 = Some AtTop" "m_tasks (sched ?y) = []"
    by (simp_all add: run_simps)
  have "reach sched_init (sched_step (\<lambda>_ _. True)) ?y"
    by (rule sched_run_reach [OF two_threads_scheduled y]) (simp_all add: no_schedule_def)
  then show ?thesis using running_fiber_rescheduled_race [OF p(1,2) _ p(3,4)] y by auto
qed

text \<open>
  Threads of a scheduler: a scheduler constructed with \<open>n\<close> threads knows \<open>n\<close> thread ids
  after \<^verbatim>\<open>start()\<close>, one of them the caller's when \<^verbatim>\<open>use_caller\<close> is set, and creates the others.
  \<^verbatim>\<open>stop()\<close> from the constructing thread then passes its assertions, calls \<^verbatim>\<open>tickle()\<close> once per
  thread, resumes the root fiber iff \<^verbatim>\<open>use_caller\<close> is set and joins every created thread; after
  it the destructor passes its assertion.
\<close>

theorem scheduler_life_cycle:
  assumes new: "Scheduler_new n use_caller this cur root tid = Inr (s, cur')"
    and st: "start ids s = Inr s'" and this: "this \<noteq> 0" "root \<noteq> 0" "cur \<noteq> this"
  shows "length (m_threadIds s') = n \<and> (use_caller \<longrightarrow> hd (m_threadIds s') = tid) \<and>
    (\<exists>s''. stop this cur' s' = Inr (n, use_caller, m_threads s', s'') \<and>
       length (m_threads s') = (if use_caller then n - 1 else n) \<and> m_threads s'' = [] \<and>
       Scheduler_delete this cur' s'' = Inr (if use_caller then 0 else cur))"
  using assms
  by (auto simp: Scheduler_new_def start_def stop_def stop_threads_def stopping_def Scheduler_delete_def Let_def
      outcome_simps split: if_splits)

theorem scheduler_life_cycle_witness:
  "\<exists>s s'. Scheduler_new 3 True 10 0 11 100 = Inr (s :: bool Scheduler, 10) \<and>
     start (\<lambda>i. 101 + int i) s = Inr s' \<and> m_threadIds s' = [100, 101, 102] \<and>
     (\<exists>s''. stop 10 10 s' = Inr (3, True, [101, 102], s''))"
proof -
  obtain s s' where s: "Scheduler_new 3 True 10 0 11 100 = Inr (s :: bool Scheduler, 10)"
    and s': "start (\<lambda>i. 101 + int i) s = Inr s'" and
    ids: "m_threadIds s' = [100, 101, 102]" "m_threads s' = [101, 102]"
    by (simp add: Scheduler_new_def start_def upt_rec)
  show ?thesis using scheduler_life_cycle [OF s s'] s s' ids by auto
qed

text \<open>
  A task bound to a thread id that is none of the scheduler's threads is never taken: it
  stays queued whatever the threads do, and \<^verbatim>\<open>stopping()\<close> never holds again, so \<^verbatim>\<open>stop()\<close>
  waits for ever.
\<close>

theorem foreign_task_blocks_stop:
  assumes "(sched_step P)\<^sup>*\<^sup>* y z" and "t \<in> set (m_tasks (sched y))"
    and "m_threadId t \<noteq> - 1" and "pcs y (m_threadId t) = None"
  shows "t \<in> set (m_tasks (sched z)) \<and> \<not> stopping (sched z)"
proof -
  have "t \<in> set (m_tasks (sched z)) \<and> pcs z (m_threadId t) = None"
    using assms(1)
  proof (induction rule: rtranclp_induct)
    case base
    then show ?case using assms by simp
  next
    case (step u v)
    from step.hyps(2) show ?case
    proof cases
      case (st_fetch tid)
      then have tid: "m_threadId t \<noteq> tid" using step.IH by auto
      show ?thesis
      proof (cases "scan_tasks tid (fstate u) (m_tasks (sched u))")
        case (Inr r)
        then show ?thesis
          using scan_tasks_cases [of tid "fstate u" "m_tasks (sched u)"] st_fetch tid step.IH assms(3)
          by (cases r) (fastforce simp: sys_fetch_def take_task_def set_pc_def mine_def)
      qed (use st_fetch step.IH in \<open>simp add: sys_fetch_def take_task_def\<close>)
    qed (use step.IH in \<open>auto simp: sys_schedule_def schedule_def scheduleNoLock_def sys_dispatch_def
            sys_switch_def sys_leave_def sys_return_def sys_idle_def sys_idle_return_def set_pc_def\<close>)
  qed
  then show ?thesis by (auto simp: stopping_def)
qed

theorem foreign_task_blocks_stop_witness:
  "\<not> stopping (sched (sys_fetch 1 (sys_schedule (Task_cb (Some True) 9) two_threads)))"
  by (rule foreign_task_blocks_stop
        [of "\<lambda>_ _. True" "sys_schedule (Task_cb (Some True) 9) two_threads" _ "Task_cb (Some True) 9",
          THEN conjunct2, OF r_into_rtranclp])
     (rule st_fetch, simp_all add: run_simps)

end
