(* ===== verification/Fd_Table.thy ===== *)
theory Fd_Table
  imports Prelude
begin

text \<open>
  Tables indexed by file descriptor. \<^verbatim>\<open>FdManager::m_datas\<close> and \<^verbatim>\<open>IOManager::m_fdContexts\<close>
  are vectors that are enlarged to \<^verbatim>\<open>fd * 1.5\<close> when a descriptor beyond their end is used
  and then indexed with it. The interface states what enlarging promises; the clients'
  lemma is that the index is then valid and that what was stored is kept.
\<close>

text \<open>\<^verbatim>\<open>fd * 1.5\<close>, converted to \<^verbatim>\<open>size_t\<close>: exact in \<^verbatim>\<open>double\<close> for every non-negative \<^verbatim>\<open>int\<close>.\<close>

definition grown_size :: "nat \<Rightarrow> nat" where
  "grown_size fd = (3 * fd) div 2"

lemma grown_size_gt: "2 \<le> fd \<Longrightarrow> fd < grown_size fd"
  by (simp add: grown_size_def)

locale growing_table =
  fixes size :: "'t \<Rightarrow> nat"
    and slot :: "'t \<Rightarrow> nat \<Rightarrow> 'a"
    and grow :: "nat \<Rightarrow> 't \<Rightarrow> 't"
  assumes size_grow: "size (grow n t) = n"
    and slot_grow: "i < size t \<Longrightarrow> i < n \<Longrightarrow> slot (grow n t) i = slot t i"
begin

lemma grow_covers:
  assumes "2 \<le> size t" and "size t \<le> fd"
  shows "fd < size (grow (grown_size fd) t)" and "size t \<le> size (grow (grown_size fd) t)"
  using assms grown_size_gt [of fd] by (simp_all add: size_grow)

lemma grow_keeps:
  assumes "2 \<le> size t" and "size t \<le> fd" and "i < size t"
  shows "slot (grow (grown_size fd) t) i = slot t i"
  using assms grown_size_gt [of fd] by (intro slot_grow) simp_all

end

end
