(* ===== verification/IOManager.thy ===== *)
theory IOManager
  imports Timer Scheduler Fd_Table
begin

text \<open>
  \<^verbatim>\<open>sylar/iomanager.h\<close> and \<^verbatim>\<open>sylar/iomanager.cpp\<close>: the scheduler that also waits for
  descriptor events and timers. \<^verbatim>\<open>epoll_ctl\<close> and \<^verbatim>\<open>epoll_wait\<close> are the operating system's;
  \<^verbatim>\<open>epoll_ctl\<close> is a function of an \<open>epoll\<close> parameter over an abstract kernel state, what
  \<^verbatim>\<open>epoll_wait\<close> reports is an argument of the loop that handles it. A task that an event
  schedules is reported with the address of the scheduler it goes to.
\<close>

unbundle bit_operations_syntax

section \<open>Data\<close>

definition NONE :: u32 where "NONE = 0"
definition READ :: u32 where "READ = 0x1"
definition WRITE :: u32 where "WRITE = 0x4"

definition EPOLLIN :: u32 where "EPOLLIN = 0x1"
definition EPOLLOUT :: u32 where "EPOLLOUT = 0x4"
definition EPOLLERR :: u32 where "EPOLLERR = 0x8"
definition EPOLLHUP :: u32 where "EPOLLHUP = 0x10"
definition EPOLLET :: u32 where "EPOLLET = 0x80000000"

record 'c EventContext =
  ec_scheduler :: addr
  ec_fiber :: addr
  ec_cb :: "'c option"

record 'c FdContext =
  m_readCtx :: "'c EventContext"
  m_writeCtx :: "'c EventContext"
  m_ctx_fd :: int
  m_events :: u32

record 'c IOManager =
  io_scheduler :: "'c Scheduler"
  io_timers :: "'c TimerManager"
  m_fdContexts :: "'c FdContext list"
  m_pendingEventCount :: u64
  m_tickle_bytes :: nat

datatype ctl_op = EPOLL_CTL_ADD | EPOLL_CTL_MOD | EPOLL_CTL_DEL

text \<open>
  \<open>ep_ctl op fd events\<close> is \<^verbatim>\<open>epoll_ctl\<close> on the manager's \<^verbatim>\<open>m_epfd\<close>: whether it returned 0, and
  the kernel state. \<open>ep_interest\<close> reads the events the kernel watches for a descriptor; the
  code never does.
\<close>

record 'k epoll =
  ep_ctl :: "ctl_op \<Rightarrow> int \<Rightarrow> u32 \<Rightarrow> 'k \<Rightarrow> bool \<times> 'k"
  ep_interest :: "'k \<Rightarrow> int \<Rightarrow> u32 option"

type_synonym 'c request = "addr \<times> 'c ScheduleTask"

section \<open>Contexts of one descriptor\<close>

definition EventContext_new :: "'c EventContext" where
  "EventContext_new = \<lparr>ec_scheduler = 0, ec_fiber = 0, ec_cb = None\<rparr>"

definition FdContext_new :: "nat \<Rightarrow> 'c FdContext" where
  "FdContext_new i = \<lparr>m_readCtx = EventContext_new, m_writeCtx = EventContext_new,
     m_ctx_fd = int i, m_events = NONE\<rparr>"

definition getEventContext :: "u32 \<Rightarrow> 'c FdContext \<Rightarrow> 'c EventContext result" where
  "getEventContext event c =
     (if event = READ then Inr (m_readCtx c)
      else if event = WRITE then Inr (m_writeCtx c)
      else Inl (AssertFailed ''getContext''))"

text \<open>Writing through the reference that \<^verbatim>\<open>getEventContext\<close> returned.\<close>

definition putEventContext :: "u32 \<Rightarrow> 'c EventContext \<Rightarrow> 'c FdContext \<Rightarrow> 'c FdContext" where
  "putEventContext event e c =
     (if event = READ then c\<lparr>m_readCtx := e\<rparr> else c\<lparr>m_writeCtx := e\<rparr>)"

definition resetEventContext :: "'c EventContext \<Rightarrow> 'c EventContext" where
  "resetEventContext e = e\<lparr>ec_scheduler := 0, ec_fiber := 0, ec_cb := None\<rparr>"

definition triggerEvent :: "u32 \<Rightarrow> 'c FdContext \<Rightarrow> ('c request \<times> 'c FdContext) result" where
  "triggerEvent event c =
     sylar_assert ''m_events & event'' (m_events c AND event \<noteq> 0)
      (let c1 = c\<lparr>m_events := m_events c AND NOT event\<rparr>
       in rbind (getEventContext event c1) (\<lambda>ctx.
            if ec_scheduler ctx = 0 then Inl (UndefinedBehaviour ''ctx.m_scheduler is null'')
            else Inr ((ec_scheduler ctx,
                       if ec_cb ctx \<noteq> None then Task_cb (ec_cb ctx) (- 1)
                       else Task_fiber (ec_fiber ctx) (- 1)),
                      putEventContext event (resetEventContext ctx) c1)))"

section \<open>The table of contexts\<close>

definition contextResize :: "nat \<Rightarrow> 'c FdContext list \<Rightarrow> 'c FdContext list" where
  "contextResize n cs = take n cs @ map FdContext_new [length cs..<n]"

definition ctx_at :: "int \<Rightarrow> 'c FdContext list \<Rightarrow> 'c FdContext result" where
  "ctx_at fd cs =
     (if 0 \<le> fd \<and> nat fd < length cs then Inr (cs ! nat fd)
      else Inl (UndefinedBehaviour ''m_fdContexts index out of range''))"

definition put_ctx :: "int \<Rightarrow> 'c FdContext \<Rightarrow> 'c IOManager \<Rightarrow> 'c IOManager" where
  "put_ctx fd c io = io\<lparr>m_fdContexts := (m_fdContexts io)[nat fd := c]\<rparr>"

section \<open>Registering, removing and cancelling events\<close>

text \<open>
  \<open>cur_sched\<close> is \<^verbatim>\<open>Scheduler::GetThis()\<close>, \<open>cur_fiber\<close> \<^verbatim>\<open>Fiber::GetThis()\<close> and \<open>st\<close> its state.
\<close>

definition addEvent ::
  "'k epoll \<Rightarrow> addr \<Rightarrow> addr \<Rightarrow> State \<Rightarrow> int \<Rightarrow> u32 \<Rightarrow> 'c option \<Rightarrow> 'c IOManager \<Rightarrow> 'k
   \<Rightarrow> (bool \<times> 'c IOManager \<times> 'k) result" where
  "addEvent K cur_sched cur_fiber st fd event cb io k =
     (let cs = (if int (length (m_fdContexts io)) \<le> fd
                then contextResize (grown_size (nat fd)) (m_fdContexts io) else m_fdContexts io);
          io1 = io\<lparr>m_fdContexts := cs\<rparr>
      in rbind (ctx_at fd cs) (\<lambda>c.
           sylar_assert ''!(fdCtx->m_events & event)'' (m_events c AND event = 0)
            (let op = (if m_events c \<noteq> 0 then EPOLL_CTL_MOD else EPOLL_CTL_ADD);
                 (ok, k') = ep_ctl K op fd (EPOLLET OR m_events c OR event) k
             in if \<not> ok then Inr (False, io1, k')
                else
                  (let c1 = c\<lparr>m_events := m_events c OR event\<rparr>;
                       io2 = io1\<lparr>m_pendingEventCount := m_pendingEventCount io + 1\<rparr>
                   in rbind (getEventContext event c1) (\<lambda>e.
                        sylar_assert ''!event_ctx.m_scheduler && !event_ctx.m_fiber && !event_ctx.m_cb''
                          (ec_scheduler e = 0 \<and> ec_fiber e = 0 \<and> ec_cb e = None)
                          (let e1 = e\<lparr>ec_scheduler := cur_sched\<rparr>
                           in case cb of
                                Some f \<Rightarrow>
                                  Inr (True, put_ctx fd (putEventContext event (e1\<lparr>ec_cb := Some f\<rparr>) c1) io2, k')
                              | None \<Rightarrow>
                                  sylar_assert ''state'' (st = RUNNING)
                                   (Inr (True, put_ctx fd
                                      (putEventContext event (e1\<lparr>ec_fiber := cur_fiber\<rparr>) c1) io2, k'))))))))"

definition delEvent ::
  "'k epoll \<Rightarrow> int \<Rightarrow> u32 \<Rightarrow> 'c IOManager \<Rightarrow> 'k \<Rightarrow> (bool \<times> 'c IOManager \<times> 'k) result" where
  "delEvent K fd event io k =
     (if int (length (m_fdContexts io)) \<le> fd then Inr (False, io, k)
      else rbind (ctx_at fd (m_fdContexts io)) (\<lambda>c.
        if m_events c AND event = 0 then Inr (False, io, k)
        else
          (let new_events = m_events c AND NOT event;
               op = (if new_events \<noteq> 0 then EPOLL_CTL_MOD else EPOLL_CTL_DEL);
               (ok, k') = ep_ctl K op fd (EPOLLET OR new_events) k
           in if \<not> ok then Inr (False, io, k')
              else
                (let c1 = c\<lparr>m_events := new_events\<rparr>
                 in rbind (getEventContext event c1) (\<lambda>e.
                      Inr (True, put_ctx fd (putEventContext event (resetEventContext e) c1)
                        (io\<lparr>m_pendingEventCount := m_pendingEventCount io - 1\<rparr>), k'))))))"

definition cancelEvent ::
  "'k epoll \<Rightarrow> int \<Rightarrow> u32 \<Rightarrow> 'c IOManager \<Rightarrow> 'k \<Rightarrow> (bool \<times> 'c request list \<times> 'c IOManager \<times> 'k) result" where
  "cancelEvent K fd event io k =
     (if int (length (m_fdContexts io)) \<le> fd then Inr (False, [], io, k)
      else rbind (ctx_at fd (m_fdContexts io)) (\<lambda>c.
        if m_events c AND event = 0 then Inr (False, [], io, k)
        else
          (let new_events = m_events c AND NOT event;
               op = (if new_events \<noteq> 0 then EPOLL_CTL_MOD else EPOLL_CTL_DEL);
               (ok, k') = ep_ctl K op fd (EPOLLET OR new_events) k
           in if \<not> ok then Inr (False, [], io, k')
              else rbind (triggerEvent event c) (\<lambda>(req, c1).
                Inr (True, [req], put_ctx fd c1
                  (io\<lparr>m_pendingEventCount := m_pendingEventCount io - 1\<rparr>), k')))))"

text \<open>
  The statement \<^verbatim>\<open>if (which & event) { fdCtx->triggerEvent(event); --m_pendingEventCount; }\<close> that
  \<^verbatim>\<open>cancelAll\<close> and \<^verbatim>\<open>idle\<close> use for each event: the requests, the context and the count.
\<close>

definition trigger_if ::
  "u32 \<Rightarrow> u32 \<Rightarrow> 'c request list \<times> 'c FdContext \<times> u64 \<Rightarrow> ('c request list \<times> 'c FdContext \<times> u64) result" where
  "trigger_if event which = (\<lambda>(reqs, c, n).
     if which AND event \<noteq> 0
     then rbind (triggerEvent event c) (\<lambda>(req, c1). Inr (reqs @ [req], c1, n - 1))
     else Inr (reqs, c, n))"

definition cancelAll ::
  "'k epoll \<Rightarrow> int \<Rightarrow> 'c IOManager \<Rightarrow> 'k \<Rightarrow> (bool \<times> 'c request list \<times> 'c IOManager \<times> 'k) result" where
  "cancelAll K fd io k =
     (if int (length (m_fdContexts io)) \<le> fd then Inr (False, [], io, k)
      else rbind (ctx_at fd (m_fdContexts io)) (\<lambda>c.
        if m_events c = 0 then Inr (False, [], io, k)
        else
          (let (ok, k') = ep_ctl K EPOLL_CTL_DEL fd NONE k
           in if \<not> ok then Inr (False, [], io, k')
              else rbind (trigger_if READ (m_events c) ([], c, m_pendingEventCount io)) (\<lambda>(reqs1, c1, n1).
                rbind (trigger_if WRITE (m_events c1) (reqs1, c1, n1)) (\<lambda>(reqs2, c2, n2).
                  sylar_assert ''fdCtx->m_events == NONE'' (m_events c2 = NONE)
                   (Inr (True, reqs2, put_ctx fd c2 (io\<lparr>m_pendingEventCount := n2\<rparr>), k')))))))"

section \<open>The event loop\<close>

text \<open>\<^verbatim>\<open>GetThis\<close>: the scheduler of the thread if it is an \<^verbatim>\<open>IOManager\<close>, else null.\<close>

definition IOManager_GetThis :: "(addr \<Rightarrow> bool) \<Rightarrow> addr \<Rightarrow> addr" where
  "IOManager_GetThis is_IOManager t_scheduler =
     (if t_scheduler \<noteq> 0 \<and> is_IOManager t_scheduler then t_scheduler else 0)"

text \<open>
  \<^verbatim>\<open>tickle()\<close> writes one byte to the pipe when a thread is idle. The write end is in blocking mode and the manager holds
  the read end, so the write waits for room and returns 1; that a signal interrupts it, which would fail the
  assertion \<^verbatim>\<open>ret == 1\<close>, is not modelled.
\<close>

definition tickle :: "'c IOManager \<Rightarrow> 'c IOManager" where
  "tickle io = (if \<not> hasIdleThreads (io_scheduler io) then io
     else io\<lparr>m_tickle_bytes := Suc (m_tickle_bytes io)\<rparr>)"

definition onTimerInsertedAtFront :: "'c IOManager \<Rightarrow> 'c IOManager" where
  "onTimerInsertedAtFront io = tickle io"

text \<open>\<^verbatim>\<open>schedule\<close> of the base class, with the overridden \<^verbatim>\<open>tickle\<close>.\<close>

definition io_schedule :: "'c ScheduleTask \<Rightarrow> 'c IOManager \<Rightarrow> 'c IOManager" where
  "io_schedule task io =
     (let (need_tickle, s) = schedule task (io_scheduler io); io1 = io\<lparr>io_scheduler := s\<rparr>
      in if need_tickle then tickle io1 else io1)"

text \<open>\<^verbatim>\<open>stopping(timeout)\<close>: the timeout, the answer and the state.\<close>

definition IOManager_stopping :: "u64 \<Rightarrow> 'c IOManager \<Rightarrow> u64 \<times> bool \<times> 'c IOManager" where
  "IOManager_stopping now io =
     (let (timeout, tm) = getNextTimer now (io_timers io)
      in (timeout, timeout = u64_max \<and> m_pendingEventCount io = 0 \<and> stopping (io_scheduler io),
          io\<lparr>io_timers := tm\<rparr>))"

text \<open>
  One round of the \<^verbatim>\<open>do\<close> loop around \<^verbatim>\<open>epoll_wait\<close> updates \<^verbatim>\<open>nextTimeout\<close>; the \<^verbatim>\<open>uint64_t\<close> is
  cast to \<^verbatim>\<open>int\<close>, compared, and converted back. \<^verbatim>\<open>epoll_wait\<close> takes it as an \<^verbatim>\<open>int\<close>. After
  \<open>n\<close> interruptions by a signal the loop has been run \<open>n + 1\<close> times.
\<close>

definition clamp_timeout :: "u64 \<Rightarrow> u64" where
  "clamp_timeout nextTimeout =
     (if nextTimeout \<noteq> u64_max
      then word_of_int (min (sint (ucast nextTimeout :: u32)) 5000) else 5000)"

definition epoll_wait_timeout :: "nat \<Rightarrow> u64 \<Rightarrow> int" where
  "epoll_wait_timeout n nextTimeout =
     sint (ucast ((clamp_timeout ^^ Suc n) nextTimeout) :: u32)"

text \<open>
  What \<^verbatim>\<open>epoll_wait\<close> attaches to an event: the read end of the pipe, or a context. The source has a union here and
  compares \<^verbatim>\<open>event.data.fd\<close>, the low half of the pointer when it holds one, with the pipe's descriptor; that a context
  lies at an address with just these low bits is left out.
\<close>

datatype epoll_data = TicklePipe | CtxPtr int

definition real_events :: "u32 \<Rightarrow> u32 \<Rightarrow> u32" where
  "real_events events m =
     (let events' = (if events AND (EPOLLERR OR EPOLLHUP) \<noteq> 0
                     then events OR ((EPOLLIN OR EPOLLOUT) AND m) else events)
      in (if events' AND EPOLLIN \<noteq> 0 then READ else NONE) OR
         (if events' AND EPOLLOUT \<noteq> 0 then WRITE else NONE))"

text \<open>
  The loop \<^verbatim>\<open>for (int i = 0; i < ret; ++i)\<close> over the reported events. The \<^verbatim>\<open>epoll_ctl\<close> in its
  body assigns its result to \<^verbatim>\<open>ret\<close>.
\<close>

fun idle_events ::
  "'k epoll \<Rightarrow> nat \<Rightarrow> int \<Rightarrow> (epoll_data \<times> u32) list \<Rightarrow> 'c IOManager \<Rightarrow> 'k
   \<Rightarrow> ('c request list \<times> 'c IOManager \<times> 'k) result" where
  "idle_events K i ret [] io k = Inr ([], io, k)"
| "idle_events K i ret ((d, events) # evs) io k =
     (if \<not> int i < ret then Inr ([], io, k)
      else case d of
        TicklePipe \<Rightarrow> idle_events K (Suc i) ret evs (io\<lparr>m_tickle_bytes := 0\<rparr>) k
      | CtxPtr fd \<Rightarrow>
          rbind (ctx_at fd (m_fdContexts io)) (\<lambda>c.
            let realEvents = real_events events (m_events c)
            in if m_events c AND realEvents = NONE then idle_events K (Suc i) ret evs io k
               else
                 (let leftEvents = m_events c AND NOT realEvents;
                      op = (if leftEvents \<noteq> 0 then EPOLL_CTL_MOD else EPOLL_CTL_DEL);
                      (ok, k') = ep_ctl K op (m_ctx_fd c) (EPOLLET OR leftEvents) k
                  in if \<not> ok then idle_events K (Suc i) (- 1) evs io k'
                     else
                       rbind (trigger_if READ realEvents ([], c, m_pendingEventCount io)) (\<lambda>(reqs1, c1, n1).
                       rbind (trigger_if WRITE realEvents (reqs1, c1, n1)) (\<lambda>(reqs2, c2, n2).
                       rbind (idle_events K (Suc i) 0 evs
                                (put_ctx fd c2 (io\<lparr>m_pendingEventCount := n2\<rparr>)) k')
                         (\<lambda>(reqs, io', k''). Inr (reqs2 @ reqs, io', k'')))))))"

text \<open>
  One round of \<^verbatim>\<open>idle()\<close> on the manager at address \<open>this\<close>, up to its \<^verbatim>\<open>yield\<close>: \<open>None\<close> when it
  ends, else what goes to other schedulers. \<open>now\<close> and \<open>now'\<close> are the clock readings before and
  after the wait, \<open>ret\<close> and \<open>evs\<close> what \<^verbatim>\<open>epoll_wait\<close> returned.
\<close>

definition own_requests :: "addr \<Rightarrow> 'c request list \<Rightarrow> 'c ScheduleTask list" where
  "own_requests this reqs = map snd (filter (\<lambda>r. fst r = this) reqs)"

definition idle_round ::
  "'k epoll \<Rightarrow> addr \<Rightarrow> u64 \<Rightarrow> u64 \<Rightarrow> addr \<Rightarrow> int \<Rightarrow> (epoll_data \<times> u32) list \<Rightarrow> 'c IOManager \<Rightarrow> 'k
   \<Rightarrow> ('c request list option \<times> 'c IOManager \<times> 'k) result" where
  "idle_round K this now now' q ret evs io k =
     (let (nextTimeout, stop_now, io1) = IOManager_stopping now io
      in if stop_now then Inr (None, io1, k)
         else
           (let (cbs, tm) = listExpiredCb now' q [] (io_timers io1);
                io2 = fold (\<lambda>cb. io_schedule (Task_cb cb (- 1))) cbs (io1\<lparr>io_timers := tm\<rparr>)
            in rbind (idle_events K 0 ret evs io2 k) (\<lambda>(reqs, io3, k').
                 Inr (Some (filter (\<lambda>r. fst r \<noteq> this) reqs),
                      fold io_schedule (own_requests this reqs) io3, k'))))"

section \<open>Construction\<close>

text \<open>
  The constructor; \<open>epfd\<close>, \<open>pipe_ret\<close>, \<open>fcntl_ret\<close> and \<open>ctl_ret\<close> are what the system calls
  return, \<open>ids\<close> the ids of the threads, \<open>now\<close> the clock.
\<close>

definition IOManager_new ::
  "nat \<Rightarrow> bool \<Rightarrow> addr \<Rightarrow> addr \<Rightarrow> addr \<Rightarrow> int \<Rightarrow> int \<Rightarrow> int \<Rightarrow> int \<Rightarrow> int \<Rightarrow> (nat \<Rightarrow> int) \<Rightarrow> u64
   \<Rightarrow> ('c IOManager \<times> addr) result" where
  "IOManager_new threads use_caller this cur root tid epfd pipe_ret fcntl_ret ctl_ret ids now =
     rbind (Scheduler_new threads use_caller this cur root tid) (\<lambda>(s, cur').
       sylar_assert ''m_epfd > 0'' (epfd > 0)
        (sylar_assert ''!ret'' (pipe_ret = 0)
         (sylar_assert ''!ret'' (fcntl_ret = 0)
          (sylar_assert ''!ret'' (ctl_ret = 0)
            (rbind (start ids s) (\<lambda>s'.
               Inr (\<lparr>io_scheduler = s', io_timers = TimerManager_new now,
                      m_fdContexts = contextResize 32 [], m_pendingEventCount = 0,
                      m_tickle_bytes = 0\<rparr>, cur')))))))"

text \<open>
  The destructor: \<^verbatim>\<open>stop()\<close>, whose virtual \<^verbatim>\<open>stopping()\<close> is the manager's; the three descriptors
  are closed afterwards.
\<close>

definition IOManager_delete ::
  "u64 \<Rightarrow> addr \<Rightarrow> addr \<Rightarrow> 'c IOManager \<Rightarrow> (nat \<times> bool \<times> int list \<times> 'c IOManager) result" where
  "IOManager_delete now this cur io =
     (let (timeout, stop_now, io1) = IOManager_stopping now io
      in if stop_now then Inr (0, False, [], io1)
         else rbind (stop_threads this cur (io_scheduler io1)) (\<lambda>(n, root, joined, s).
                Inr (n, root, joined, io1\<lparr>io_scheduler := s\<rparr>)))"

section \<open>Specification\<close>

text \<open>Who waits for an event of a descriptor.\<close>

definition waiter :: "u32 \<Rightarrow> 'c FdContext \<Rightarrow> 'c EventContext" where
  "waiter event c = (if event = READ then m_readCtx c else m_writeCtx c)"

definition arm :: "u32 \<Rightarrow> 'c EventContext \<Rightarrow> 'c FdContext \<Rightarrow> 'c FdContext" where
  "arm event e c = putEventContext event e (c\<lparr>m_events := m_events c OR event\<rparr>)"

definition disarm :: "u32 \<Rightarrow> 'c FdContext \<Rightarrow> 'c FdContext" where
  "disarm event c = putEventContext event EventContext_new (c\<lparr>m_events := m_events c AND NOT event\<rparr>)"

definition registered :: "'c IOManager \<Rightarrow> int \<Rightarrow> u32 \<Rightarrow> 'c EventContext option" where
  "registered io fd event =
     (if 0 \<le> fd \<and> nat fd < length (m_fdContexts io) \<and> m_events (m_fdContexts io ! nat fd) AND event \<noteq> 0
      then Some (waiter event (m_fdContexts io ! nat fd)) else None)"

text \<open>The request that wakes a waiter.\<close>

definition wake :: "'c EventContext \<Rightarrow> 'c request" where
  "wake e = (ec_scheduler e,
     if ec_cb e \<noteq> None then Task_cb (ec_cb e) (- 1) else Task_fiber (ec_fiber e) (- 1))"

definition waiting :: "'c EventContext \<Rightarrow> bool" where
  "waiting e \<longleftrightarrow> ec_scheduler e \<noteq> 0 \<and> (ec_cb e \<noteq> None \<or> ec_fiber e \<noteq> 0)"

definition ctx_ok :: "'c FdContext \<Rightarrow> bool" where
  "ctx_ok c \<longleftrightarrow> m_events c \<in> {0, 1, 4, 5} \<and>
     (if m_events c AND READ \<noteq> 0 then waiting (m_readCtx c) else m_readCtx c = EventContext_new) \<and>
     (if m_events c AND WRITE \<noteq> 0 then waiting (m_writeCtx c) else m_writeCtx c = EventContext_new)"

definition event_count :: "'c FdContext \<Rightarrow> nat" where
  "event_count c = (if m_events c AND READ \<noteq> 0 then 1 else 0) + (if m_events c AND WRITE \<noteq> 0 then 1 else 0)"

definition pending :: "'c FdContext list \<Rightarrow> nat" where
  "pending cs = sum_list (map event_count cs)"

definition io_inv :: "'c IOManager \<Rightarrow> bool" where
  "io_inv io \<longleftrightarrow> 32 \<le> length (m_fdContexts io) \<and>
     (\<forall>i<length (m_fdContexts io). ctx_ok (m_fdContexts io ! i) \<and> m_ctx_fd (m_fdContexts io ! i) = int i) \<and>
     m_pendingEventCount io = of_nat (pending (m_fdContexts io))"

section \<open>One context\<close>

lemmas event_defs = NONE_def READ_def WRITE_def EPOLLIN_def EPOLLOUT_def

lemma event_neq [simp]: "READ \<noteq> WRITE" "WRITE \<noteq> READ" "READ \<noteq> 0" "WRITE \<noteq> 0"
  by (simp_all add: event_defs)

lemma ctx_ok_cases:
  assumes "ctx_ok c"
  obtains "m_events c = 0" | "m_events c = 1" | "m_events c = 4" | "m_events c = 5"
  using assms by (auto simp: ctx_ok_def)

lemma resetEventContext_new [simp]: "resetEventContext e = EventContext_new"
  by (cases e) (simp add: resetEventContext_def EventContext_new_def)

text \<open>Triggering a registered event of a well-formed context wakes its waiter.\<close>

lemma triggerEvent_ok:
  assumes "ctx_ok c" and "event = READ \<or> event = WRITE" and "m_events c AND event \<noteq> 0"
  shows "triggerEvent event c = Inr (wake (waiter event c), disarm event c)"
  using assms
  by (auto simp: triggerEvent_def getEventContext_def disarm_def putEventContext_def wake_def waiter_def
      ctx_ok_def waiting_def)

lemma disarm_ok:
  assumes "ctx_ok c" and "event = READ \<or> event = WRITE"
  shows "ctx_ok (disarm event c)"
  using assms(1)
proof (rule ctx_ok_cases)
qed (use assms in \<open>auto simp: disarm_def putEventContext_def ctx_ok_def event_defs\<close>)

lemma disarm_simps [simp]:
  "m_ctx_fd (disarm event c) = m_ctx_fd c" "m_events (disarm event c) = m_events c AND NOT event"
  by (simp_all add: disarm_def putEventContext_def)

lemma disarm_waiter_other [simp]:
  "event = READ \<or> event = WRITE \<Longrightarrow> other = READ \<or> other = WRITE \<Longrightarrow> other \<noteq> event \<Longrightarrow>
    waiter other (disarm event c) = waiter other c"
  by (auto simp: waiter_def disarm_def putEventContext_def)

lemma disarm_count:
  assumes "ctx_ok c" and "event = READ \<or> event = WRITE" and "m_events c AND event \<noteq> 0"
  shows "event_count c = Suc (event_count (disarm event c))"
  using assms(1)
proof (rule ctx_ok_cases)
qed (use assms(2,3) in \<open>auto simp: event_count_def event_defs\<close>)

lemma clear_other:
  assumes "ctx_ok c" and "event = READ \<or> event = WRITE" "other = READ \<or> other = WRITE"
  shows "(m_events c AND NOT event) AND other = (if other = event then 0 else m_events c AND other)"
  using assms(1)
proof (rule ctx_ok_cases)
qed (use assms(2,3) in \<open>auto simp: event_defs\<close>)

lemma arm_ok:
  assumes "ctx_ok c" and "event = READ \<or> event = WRITE" and "m_events c AND event = 0" and "waiting e"
  shows "ctx_ok (arm event e c)"
  using assms(1)
proof (rule ctx_ok_cases)
qed (use assms in \<open>auto simp: arm_def putEventContext_def ctx_ok_def event_defs\<close>)

lemma arm_simps [simp]:
  "m_ctx_fd (arm event e c) = m_ctx_fd c" "m_events (arm event e c) = m_events c OR event"
  by (simp_all add: arm_def putEventContext_def)

lemma arm_count:
  assumes "ctx_ok c" and "event = READ \<or> event = WRITE" and "m_events c AND event = 0"
  shows "event_count (arm event e c) = Suc (event_count c)"
  using assms(1)
proof (rule ctx_ok_cases)
qed (use assms(2,3) in \<open>auto simp: event_count_def event_defs\<close>)

lemma set_other:
  assumes "ctx_ok c" and "event = READ \<or> event = WRITE" "other = READ \<or> other = WRITE"
  shows "(m_events c OR event) AND other = (if other = event then event else m_events c AND other)"
  using assms(1)
proof (rule ctx_ok_cases)
qed (use assms(2,3) in \<open>auto simp: event_defs\<close>)

lemma arm_waiter:
  "event = READ \<or> event = WRITE \<Longrightarrow> other = READ \<or> other = WRITE \<Longrightarrow>
    waiter other (arm event e c) = (if other = event then e else waiter other c)"
  by (auto simp: waiter_def arm_def putEventContext_def)

section \<open>The table of contexts\<close>

lemma pending_update:
  "i < length cs \<Longrightarrow> pending (cs[i := c]) + event_count (cs ! i) = pending cs + event_count c"
  unfolding pending_def
proof (induction cs arbitrary: i)
  case (Cons x xs)
  then show ?case by (cases i) auto
qed simp

lemma contextResize_grow:
  assumes "length cs \<le> n"
  shows "length (contextResize n cs) = n" and "pending (contextResize n cs) = pending cs"
    and "i < n \<Longrightarrow> contextResize n cs ! i = (if i < length cs then cs ! i else FdContext_new i)"
proof -
  have "event_count (FdContext_new i :: 'a FdContext) = 0" for i
    by (simp add: event_count_def FdContext_new_def event_defs)
  then show "pending (contextResize n cs) = pending cs"
    using assms by (simp add: contextResize_def pending_def comp_def)
qed (use assms in \<open>auto simp: contextResize_def nth_append\<close>)

lemma FdContext_new_ok [simp]: "ctx_ok (FdContext_new i)" "m_ctx_fd (FdContext_new i) = int i"
    "m_events (FdContext_new i) = 0"
  by (simp_all add: ctx_ok_def FdContext_new_def event_defs)

interpretation fd_contexts: growing_table length nth "contextResize :: nat \<Rightarrow> 'c FdContext list \<Rightarrow> 'c FdContext list"
  by unfold_locales (auto simp: contextResize_def nth_append)

section \<open>Operations in terms of the table\<close>

text \<open>The context of a descriptor, existing or not yet created.\<close>

definition ctx_of :: "'c IOManager \<Rightarrow> int \<Rightarrow> 'c FdContext" where
  "ctx_of io fd = (if nat fd < length (m_fdContexts io) then m_fdContexts io ! nat fd else FdContext_new (nat fd))"

definition covering :: "int \<Rightarrow> 'c IOManager \<Rightarrow> 'c IOManager" where
  "covering fd io = (if int (length (m_fdContexts io)) \<le> fd
     then io\<lparr>m_fdContexts := contextResize (grown_size (nat fd)) (m_fdContexts io)\<rparr> else io)"

lemma ctx_of_ok: "io_inv io \<Longrightarrow> 0 \<le> fd \<Longrightarrow> ctx_ok (ctx_of io fd) \<and> m_ctx_fd (ctx_of io fd) = fd"
  by (auto simp: ctx_of_def io_inv_def)

lemma registered_ctx_of:
  "0 \<le> fd \<Longrightarrow> registered io fd event =
     (if m_events (ctx_of io fd) AND event \<noteq> 0 then Some (waiter event (ctx_of io fd)) else None)"
  by (auto simp: registered_def ctx_of_def)

lemma registered_negative: "fd < 0 \<Longrightarrow> registered io fd event = None"
  by (simp add: registered_def)

lemma covering_grown:
  assumes "io_inv io" "int (length (m_fdContexts io)) \<le> fd"
  shows "length (m_fdContexts io) \<le> grown_size (nat fd)" "nat fd < grown_size (nat fd)"
proof -
  have "2 \<le> length (m_fdContexts io)" "length (m_fdContexts io) \<le> nat fd"
    using assms by (auto simp: io_inv_def)
  then show "length (m_fdContexts io) \<le> grown_size (nat fd)" "nat fd < grown_size (nat fd)"
    using fd_contexts.grow_covers [of "m_fdContexts io" "nat fd"] by (simp_all add: fd_contexts.size_grow)
qed

lemma covering_inv:
  assumes "io_inv io"
  shows "io_inv (covering fd io)"
proof (cases "int (length (m_fdContexts io)) \<le> fd")
  case True
  note g = covering_grown [OF assms True]
  show ?thesis
    using assms True g contextResize_grow [OF g(1)] by (auto simp: covering_def io_inv_def)
qed (use assms in \<open>simp add: covering_def\<close>)

lemma covering_length: "io_inv io \<Longrightarrow> 0 \<le> fd \<Longrightarrow> nat fd < length (m_fdContexts (covering fd io))"
  using covering_grown [of io fd] contextResize_grow(1) [of "m_fdContexts io" "grown_size (nat fd)"]
  by (auto simp: covering_def)

lemma covering_ctx_of: "io_inv io \<Longrightarrow> ctx_of (covering fd io) g = ctx_of io g"
  using covering_grown [of io fd] contextResize_grow [of "m_fdContexts io" "grown_size (nat fd)"]
  by (auto simp: covering_def ctx_of_def)

lemma covering_other [simp]:
  "io_scheduler (covering fd io) = io_scheduler io" "io_timers (covering fd io) = io_timers io"
  "m_pendingEventCount (covering fd io) = m_pendingEventCount io"
  by (simp_all add: covering_def)

lemma covering_id [simp]: "nat fd < length (m_fdContexts io) \<Longrightarrow> covering fd io = io"
  by (auto simp: covering_def)

lemma ctx_of_put_ctx:
  "nat fd < length (m_fdContexts io) \<Longrightarrow> 0 \<le> fd \<Longrightarrow> 0 \<le> g \<Longrightarrow>
    ctx_of (put_ctx fd c (io\<lparr>m_pendingEventCount := n\<rparr>)) g = (if g = fd then c else ctx_of io g)"
  by (auto simp: ctx_of_def put_ctx_def nth_list_update)

lemma put_ctx_inv:
  assumes "io_inv io" "0 \<le> fd" "nat fd < length (m_fdContexts io)" "ctx_ok c" "m_ctx_fd c = fd"
    and "n + of_nat (event_count (ctx_of io fd)) = m_pendingEventCount io + of_nat (event_count c)"
  shows "io_inv (put_ctx fd c (io\<lparr>m_pendingEventCount := n\<rparr>))"
proof -
  have "of_nat (pending ((m_fdContexts io)[nat fd := c])) + of_nat (event_count (ctx_of io fd)) =
      of_nat (pending (m_fdContexts io)) + (of_nat (event_count c) :: u64)"
    using pending_update [OF assms(3), of c] assms(3) unfolding of_nat_add [symmetric] ctx_of_def by simp
  then have "n = of_nat (pending ((m_fdContexts io)[nat fd := c]))"
    using assms(1,6) by (simp add: io_inv_def) (metis add_right_cancel)
  then show ?thesis
    using assms(1-5) by (auto simp: io_inv_def put_ctx_def nth_list_update)
qed

definition enroll :: "int \<Rightarrow> u32 \<Rightarrow> 'c EventContext \<Rightarrow> 'c IOManager \<Rightarrow> 'c IOManager" where
  "enroll fd event e io = put_ctx fd (arm event e (ctx_of io fd))
     ((covering fd io)\<lparr>m_pendingEventCount := m_pendingEventCount (covering fd io) + 1\<rparr>)"

lemma free_event: "registered io fd event = None \<Longrightarrow> 0 \<le> fd \<Longrightarrow> m_events (ctx_of io fd) AND event = 0"
  by (simp add: registered_ctx_of split: if_splits)

lemma enroll_inv:
  assumes inv: "io_inv io" and fd: "0 \<le> fd" and ev: "event = READ \<or> event = WRITE"
    and free: "registered io fd event = None" and e: "waiting e"
  shows "io_inv (enroll fd event e io)"
proof -
  have c: "ctx_ok (ctx_of io fd)" "m_ctx_fd (ctx_of io fd) = fd" using ctx_of_ok [OF inv fd] by auto
  note none = free_event [OF free fd]
  show ?thesis
    unfolding enroll_def
    using arm_ok [OF c(1) ev none e] arm_count [OF c(1) ev none] c covering_ctx_of [OF inv]
    by (intro put_ctx_inv [OF covering_inv [OF inv] fd covering_length [OF inv fd]]) simp_all
qed

lemma covering_registered: "io_inv io \<Longrightarrow> registered (covering fd io) g event = registered io g event"
  by (cases "0 \<le> g") (simp_all add: registered_ctx_of covering_ctx_of registered_negative)

lemma enroll_ctx_of:
  "io_inv io \<Longrightarrow> 0 \<le> fd \<Longrightarrow> 0 \<le> g \<Longrightarrow>
    ctx_of (enroll fd event e io) g = (if g = fd then arm event e (ctx_of io fd) else ctx_of io g)"
  unfolding enroll_def by (simp add: ctx_of_put_ctx covering_length covering_ctx_of)

lemma enroll_registered:
  assumes inv: "io_inv io" and fd: "0 \<le> fd" and ev: "event = READ \<or> event = WRITE" "x = READ \<or> x = WRITE"
  shows "registered (enroll fd event e io) g x = (if g = fd \<and> x = event then Some e else registered io g x)"
proof (cases "0 \<le> g")
  case True
  have c: "ctx_ok (ctx_of io fd)" using ctx_of_ok [OF inv fd] by simp
  show ?thesis
    using True fd set_other [OF c ev] arm_waiter [OF ev] ev
    by (auto simp: registered_ctx_of enroll_ctx_of [OF inv])
qed (use fd in \<open>auto simp: registered_negative\<close>)

lemma enroll_other [simp]:
  "io_scheduler (enroll fd event e io) = io_scheduler io" "io_timers (enroll fd event e io) = io_timers io"
  by (simp_all add: enroll_def put_ctx_def)

lemma addEvent_eq:
  assumes inv: "io_inv io" and fd: "0 \<le> fd" and ev: "event = READ \<or> event = WRITE"
    and free: "registered io fd event = None" and cb: "cb = None \<longrightarrow> st = RUNNING"
  shows "addEvent K cur_sched cur_fiber st fd event cb io k =
    (let c = ctx_of io fd; io1 = covering fd io;
         e = \<lparr>ec_scheduler = cur_sched, ec_fiber = (if cb = None then cur_fiber else 0), ec_cb = cb\<rparr>;
         (ok, k') = ep_ctl K (if m_events c \<noteq> 0 then EPOLL_CTL_MOD else EPOLL_CTL_ADD) fd
                      (EPOLLET OR m_events c OR event) k
     in Inr (ok, if ok then enroll fd event e io else io1, k'))"
proof -
  let ?cs = "if int (length (m_fdContexts io)) \<le> fd
     then contextResize (grown_size (nat fd)) (m_fdContexts io) else m_fdContexts io"
  have cs: "?cs = m_fdContexts (covering fd io)" by (simp add: covering_def)
  have cov: "io\<lparr>m_fdContexts := m_fdContexts (covering fd io)\<rparr> = covering fd io"
    "io\<lparr>m_fdContexts := m_fdContexts (covering fd io), m_pendingEventCount := n\<rparr> =
       (covering fd io)\<lparr>m_pendingEventCount := n\<rparr>" for n
    by (simp_all add: covering_def)
  have at: "ctx_at fd (m_fdContexts (covering fd io)) = Inr (ctx_of io fd)"
    using covering_length [OF inv fd] fd covering_ctx_of [OF inv, of fd fd]
    by (simp add: ctx_at_def) (simp add: ctx_of_def)
  have ok: "ctx_ok (ctx_of io fd)" using ctx_of_ok [OF inv fd] by simp
  have none: "m_events (ctx_of io fd) AND event = 0"
    using free fd by (simp add: registered_ctx_of split: if_splits)
  have get: "getEventContext event ((ctx_of io fd)\<lparr>m_events := m\<rparr>) = Inr EventContext_new" for m
    using ev ok none by (auto simp: getEventContext_def ctx_ok_def)
  show ?thesis
    unfolding addEvent_def cs Let_def at rbind_Inr get using none cb
    by (auto simp: cov enroll_def arm_def EventContext_new_def get [unfolded EventContext_new_def] split: option.split prod.split)
qed

text \<open>What removing an event does once the kernel agreed; used by three operations.\<close>

definition unregister :: "int \<Rightarrow> u32 \<Rightarrow> 'c IOManager \<Rightarrow> 'c IOManager" where
  "unregister fd event io = put_ctx fd (disarm event (ctx_of io fd))
     (io\<lparr>m_pendingEventCount := m_pendingEventCount io - 1\<rparr>)"

definition remove_op :: "u32 \<Rightarrow> ctl_op" where
  "remove_op left = (if left \<noteq> 0 then EPOLL_CTL_MOD else EPOLL_CTL_DEL)"

lemma registered_in_range:
  "registered io fd event = Some e \<Longrightarrow>
     0 \<le> fd \<and> nat fd < length (m_fdContexts io) \<and> m_events (ctx_of io fd) AND event \<noteq> 0 \<and>
     e = waiter event (ctx_of io fd)"
  by (auto simp: registered_def ctx_of_def split: if_splits)

lemma unregister_inv:
  assumes inv: "io_inv io" and ev: "event = READ \<or> event = WRITE" and reg: "registered io fd event = Some e"
  shows "io_inv (unregister fd event io)"
proof -
  note r = registered_in_range [OF reg]
  have ok: "ctx_ok (ctx_of io fd)" "m_ctx_fd (ctx_of io fd) = fd" using ctx_of_ok [OF inv] r by auto
  show ?thesis
    unfolding unregister_def using r ok disarm_count [OF ok(1) ev] disarm_ok [OF ok(1) ev]
    by (intro put_ctx_inv [OF inv]) auto
qed

lemma unregister_registered:
  assumes inv: "io_inv io" and ev: "event = READ \<or> event = WRITE" "other = READ \<or> other = WRITE"
    and reg: "registered io fd event = Some e"
  shows "registered (unregister fd event io) g other =
    (if g = fd \<and> other = event then None else registered io g other)"
proof (cases "0 \<le> g")
  case True
  note r = registered_in_range [OF reg]
  have ok: "ctx_ok (ctx_of io fd)" using ctx_of_ok [OF inv] r by auto
  show ?thesis
    unfolding registered_ctx_of [OF True] unregister_def
    using r True ev clear_other [OF ok ev] by (auto simp: ctx_of_put_ctx)
qed (simp add: registered_negative)

lemma unregister_length [simp]: "length (m_fdContexts (unregister fd event io)) = length (m_fdContexts io)"
  by (simp add: unregister_def put_ctx_def)

lemma unregister_other [simp]:
  "io_scheduler (unregister fd event io) = io_scheduler io" "io_timers (unregister fd event io) = io_timers io"
  by (simp_all add: unregister_def put_ctx_def)

lemma delEvent_eq:
  assumes inv: "io_inv io" and fd: "0 \<le> fd" and ev: "event = READ \<or> event = WRITE"
  shows "delEvent K fd event io k =
    (case registered io fd event of
       None \<Rightarrow> Inr (False, io, k)
     | Some e \<Rightarrow>
         (let left = m_events (ctx_of io fd) AND NOT event;
              (ok, k') = ep_ctl K (remove_op left) fd (EPOLLET OR left) k
          in Inr (ok, if ok then unregister fd event io else io, k')))"
proof (cases "nat fd < length (m_fdContexts io)")
  case True
  then have "ctx_at fd (m_fdContexts io) = Inr (ctx_of io fd)" "\<not> int (length (m_fdContexts io)) \<le> fd"
    using fd by (auto simp: ctx_at_def ctx_of_def)
  then show ?thesis
    using ev fd by (auto simp: delEvent_def registered_ctx_of Let_def remove_op_def getEventContext_def
        unregister_def disarm_def split: prod.split)
qed (use fd in \<open>auto simp: delEvent_def registered_def\<close>)

lemma cancelEvent_eq:
  assumes inv: "io_inv io" and fd: "0 \<le> fd" and ev: "event = READ \<or> event = WRITE"
  shows "cancelEvent K fd event io k =
    (case registered io fd event of
       None \<Rightarrow> Inr (False, [], io, k)
     | Some e \<Rightarrow>
         (let left = m_events (ctx_of io fd) AND NOT event;
              (ok, k') = ep_ctl K (remove_op left) fd (EPOLLET OR left) k
          in Inr (if ok then (True, [wake e], unregister fd event io, k') else (False, [], io, k'))))"
proof (cases "nat fd < length (m_fdContexts io)")
  case True
  then have "ctx_at fd (m_fdContexts io) = Inr (ctx_of io fd)" "\<not> int (length (m_fdContexts io)) \<le> fd"
    using fd by (auto simp: ctx_at_def ctx_of_def)
  then show ?thesis
    using triggerEvent_ok [OF conjunct1 [OF ctx_of_ok [OF inv fd]] ev] fd
    by (auto simp: cancelEvent_def registered_ctx_of Let_def remove_op_def unregister_def split: prod.split)
qed (use fd in \<open>auto simp: cancelEvent_def registered_def\<close>)

text \<open>
  Triggering those of the two events that are in \<open>which\<close>, a set of registered ones: the waiters
  are woken in the order READ, WRITE.
\<close>

definition wakes :: "'c IOManager \<Rightarrow> int \<Rightarrow> u32 \<Rightarrow> 'c request list" where
  "wakes io fd which = map wake (map (\<lambda>event. waiter event (ctx_of io fd))
     (filter (\<lambda>event. which AND event \<noteq> 0) [READ, WRITE]))"

definition clear_events :: "u32 \<Rightarrow> u32 \<Rightarrow> u32" where
  "clear_events which m =
     (let m1 = (if which AND READ \<noteq> 0 then m AND NOT READ else m)
      in if which AND WRITE \<noteq> 0 then m1 AND NOT WRITE else m1)"

definition unregister_all :: "int \<Rightarrow> u32 \<Rightarrow> 'c IOManager \<Rightarrow> 'c IOManager" where
  "unregister_all fd which io =
     (let io1 = (if which AND READ \<noteq> 0 then unregister fd READ io else io)
      in if which AND WRITE \<noteq> 0 then unregister fd WRITE io1 else io1)"

lemma unregister_twice:
  assumes "0 \<le> fd" "nat fd < length (m_fdContexts io)"
  shows "unregister fd WRITE (unregister fd READ io) =
    put_ctx fd (disarm WRITE (disarm READ (ctx_of io fd)))
      (io\<lparr>m_pendingEventCount := m_pendingEventCount io - 1 - 1\<rparr>)"
proof -
  have "ctx_of (unregister fd READ io) fd = disarm READ (ctx_of io fd)"
    using assms unfolding unregister_def by (simp add: ctx_of_put_ctx)
  then show ?thesis unfolding unregister_def [of fd WRITE] by (simp add: unregister_def put_ctx_def)
qed

lemma trigger_both:
  assumes inv: "io_inv io" and fd: "0 \<le> fd" "nat fd < length (m_fdContexts io)"
    and sub: "\<And>event. event = READ \<or> event = WRITE \<Longrightarrow> which AND event \<noteq> 0 \<Longrightarrow> m_events (ctx_of io fd) AND event \<noteq> 0"
  shows "\<exists>rs1 c1 n1 c2 n2.
    trigger_if READ which ([], ctx_of io fd, m_pendingEventCount io) = Inr (rs1, c1, n1) \<and>
    (m_events c1 AND WRITE = m_events (ctx_of io fd) AND WRITE) \<and>
    trigger_if WRITE which (rs1, c1, n1) = Inr (wakes io fd which, c2, n2) \<and>
    put_ctx fd c2 (io\<lparr>m_pendingEventCount := n2\<rparr>) = unregister_all fd which io \<and>
    m_events c2 = clear_events which (m_events (ctx_of io fd))"
proof -
  let ?c = "ctx_of io fd"
  have ok: "ctx_ok ?c" using ctx_of_ok [OF inv fd(1)] by simp
  have ok1: "ctx_ok (disarm READ ?c)" by (rule disarm_ok [OF ok]) simp
  have w: "m_events (disarm READ ?c) AND WRITE = m_events ?c AND WRITE"
    using clear_other [OF ok, of READ WRITE] by simp
  have rd: "trigger_if READ which ([], ?c, m_pendingEventCount io) =
      (if which AND READ \<noteq> 0 then Inr ([wake (waiter READ ?c)], disarm READ ?c, m_pendingEventCount io - 1)
       else Inr ([], ?c, m_pendingEventCount io))"
    using triggerEvent_ok [OF ok, of READ] sub [of READ] by (simp add: trigger_if_def)
  have wr: "trigger_if WRITE which (rs, c, n) =
      (if which AND WRITE \<noteq> 0 then Inr (rs @ [wake (waiter WRITE ?c)], disarm WRITE c, n - 1)
       else Inr (rs, c, n))" if "c = ?c \<or> c = disarm READ ?c" for rs c n
    using that triggerEvent_ok [OF ok, of WRITE] triggerEvent_ok [OF ok1, of WRITE] w sub [of WRITE]
    by (auto simp: trigger_if_def)
  have same: "put_ctx fd ?c (io\<lparr>m_pendingEventCount := m_pendingEventCount io\<rparr>) = io"
    using fd by (simp add: put_ctx_def ctx_of_def)
  show ?thesis
    unfolding rd using w wr same unregister_twice [OF fd]
    by (auto simp: wakes_def unregister_all_def unregister_def clear_events_def)
qed

lemma cancelAll_eq:
  assumes inv: "io_inv io" and fd: "0 \<le> fd"
  shows "cancelAll K fd io k =
    (let m = m_events (ctx_of io fd)
     in if m = 0 then Inr (False, [], io, k)
        else (let (ok, k') = ep_ctl K EPOLL_CTL_DEL fd NONE k
              in Inr (if ok then (True, wakes io fd m, unregister_all fd m io, k') else (False, [], io, k'))))"
proof (cases "nat fd < length (m_fdContexts io)")
  case True
  let ?c = "ctx_of io fd"
  have at: "ctx_at fd (m_fdContexts io) = Inr ?c" "\<not> int (length (m_fdContexts io)) \<le> fd"
    using fd True by (auto simp: ctx_at_def ctx_of_def)
  have ok: "ctx_ok ?c" using ctx_of_ok [OF inv fd] by simp
  obtain rs1 c1 n1 c2 n2 where t: "trigger_if READ (m_events ?c) ([], ?c, m_pendingEventCount io) = Inr (rs1, c1, n1)"
    "m_events c1 AND WRITE = m_events ?c AND WRITE"
    "trigger_if WRITE (m_events ?c) (rs1, c1, n1) = Inr (wakes io fd (m_events ?c), c2, n2)"
    "put_ctx fd c2 (io\<lparr>m_pendingEventCount := n2\<rparr>) = unregister_all fd (m_events ?c) io"
    "m_events c2 = clear_events (m_events ?c) (m_events ?c)"
    using trigger_both [OF inv fd True, of "m_events ?c"] by blast
  have t': "trigger_if WRITE (m_events c1) (rs1, c1, n1) = Inr (wakes io fd (m_events ?c), c2, n2)"
    using t(2,3) by (simp add: trigger_if_def)
  have none: "m_events c2 = NONE"
    using ok unfolding t(5) by (rule ctx_ok_cases) (simp_all add: clear_events_def event_defs)
  show ?thesis
    unfolding cancelAll_def using at t(1,4) t' none by (auto simp: Let_def split: prod.split)
qed (use fd in \<open>auto simp: cancelAll_def ctx_of_def\<close>)

text \<open>Removing several events of one descriptor.\<close>

lemma unregister_all_inv:
  assumes inv: "io_inv io"
    and sub: "\<And>event. event = READ \<or> event = WRITE \<Longrightarrow> which AND event \<noteq> 0 \<Longrightarrow> registered io fd event \<noteq> None"
  shows "io_inv (unregister_all fd which io)"
    and "event = READ \<or> event = WRITE \<Longrightarrow> registered (unregister_all fd which io) g event =
      (if g = fd \<and> which AND event \<noteq> 0 then None else registered io g event)"
proof -
  let ?io1 = "if which AND READ \<noteq> 0 then unregister fd READ io else io"
  have io1: "io_inv ?io1" using inv unregister_inv [OF inv, of READ fd] sub [of READ] by auto
  have r1: "registered ?io1 g event = (if g = fd \<and> which AND READ \<noteq> 0 \<and> event = READ then None else registered io g event)"
    if "event = READ \<or> event = WRITE" for g event
    using unregister_registered [OF inv _ that, of READ fd] sub [of READ] by auto
  have reg: "which AND WRITE \<noteq> 0 \<Longrightarrow> \<exists>e. registered ?io1 fd WRITE = Some e"
    using r1 [of WRITE fd] sub [of WRITE] by auto
  show "io_inv (unregister_all fd which io)"
    using io1 unregister_inv [OF io1, of WRITE fd] reg unfolding unregister_all_def Let_def by auto
  show "registered (unregister_all fd which io) g event =
      (if g = fd \<and> which AND event \<noteq> 0 then None else registered io g event)"
    if ev: "event = READ \<or> event = WRITE"
    using ev r1 [OF ev, of g] unregister_registered [OF io1 _ ev, of WRITE fd _ g] reg
    unfolding unregister_all_def Let_def by (cases "which AND WRITE = 0") auto
qed

section \<open>Reported events\<close>

lemma idle_events_stop [simp]: "ret \<le> int i \<Longrightarrow> idle_events K i ret evs io k = Inr ([], io, k)"
  by (cases evs) auto

lemma real_events_range: "real_events events m \<in> {0, 1, 4, 5}"
  by (simp add: real_events_def Let_def event_defs)

lemma real_events_sub:
  assumes "events AND EPOLLIN \<noteq> 0 \<Longrightarrow> m AND READ \<noteq> 0" "events AND EPOLLOUT \<noteq> 0 \<Longrightarrow> m AND WRITE \<noteq> 0"
    and "m \<in> {0, 1, 4, 5}" and "event = READ \<or> event = WRITE" and "real_events events m AND event \<noteq> 0"
  shows "m AND event \<noteq> 0"
  using assms
  by (auto simp: real_events_def Let_def event_defs bit.conj_disj_distrib2 split: if_splits)

text \<open>One event on a context whose registered events include what is reported.\<close>

lemma idle_event_eq:
  assumes inv: "io_inv io" and fd: "0 \<le> fd" "nat fd < length (m_fdContexts io)" and i: "int i < ret"
    and sub: "events AND EPOLLIN \<noteq> 0 \<Longrightarrow> m_events (ctx_of io fd) AND READ \<noteq> 0"
      "events AND EPOLLOUT \<noteq> 0 \<Longrightarrow> m_events (ctx_of io fd) AND WRITE \<noteq> 0"
  shows "idle_events K i ret ((CtxPtr fd, events) # evs) io k =
    (let m = m_events (ctx_of io fd); real = real_events events m; left = m AND NOT real
     in if m AND real = 0 then idle_events K (Suc i) ret evs io k
        else (let (ok, k') = ep_ctl K (remove_op left) fd (EPOLLET OR left) k
              in Inr (if ok then (wakes io fd real, unregister_all fd real io, k') else ([], io, k'))))"
proof -
  let ?c = "ctx_of io fd"
  let ?real = "real_events events (m_events ?c)"
  have at: "ctx_at fd (m_fdContexts io) = Inr ?c" using fd by (auto simp: ctx_at_def ctx_of_def)
  have ok: "ctx_ok ?c" "m_ctx_fd ?c = fd" using ctx_of_ok [OF inv fd(1)] by auto
  have "m_events ?c AND event \<noteq> 0" if "event = READ \<or> event = WRITE" "?real AND event \<noteq> 0" for event
    using real_events_sub [OF sub _ that] ok(1) by (auto simp: ctx_ok_def)
  from trigger_both [OF inv fd this]
  obtain rs1 c1 n1 c2 n2 where t: "trigger_if READ ?real ([], ?c, m_pendingEventCount io) = Inr (rs1, c1, n1)"
    "trigger_if WRITE ?real (rs1, c1, n1) = Inr (wakes io fd ?real, c2, n2)"
    "put_ctx fd c2 (io\<lparr>m_pendingEventCount := n2\<rparr>) = unregister_all fd ?real io"
    by blast
  show ?thesis
    using at t ok(2) i by (auto simp: Let_def NONE_def remove_op_def split: prod.split)
qed

section \<open>The kernel's view\<close>

text \<open>
  The documented effect of \<^verbatim>\<open>epoll_ctl\<close> on the set of watched descriptors, and agreement of
  that set with the table for every descriptor but \<open>p\<close>, the manager's own pipe.
\<close>

definition epoll_ok :: "'k epoll \<Rightarrow> bool" where
  "epoll_ok K \<longleftrightarrow> (\<forall>op fd ev k ok k'. ep_ctl K op fd ev k = (ok, k') \<longrightarrow>
     ep_interest K k' = (if ok then (ep_interest K k)(fd := if op = EPOLL_CTL_DEL then None else Some ev)
                         else ep_interest K k))"

definition kernel_sync :: "'k epoll \<Rightarrow> int \<Rightarrow> 'c IOManager \<Rightarrow> 'k \<Rightarrow> bool" where
  "kernel_sync K p io k \<longleftrightarrow> (\<forall>fd. 0 \<le> fd \<and> fd \<noteq> p \<longrightarrow>
     ep_interest K k fd = (if m_events (ctx_of io fd) = 0 then None else Some (EPOLLET OR m_events (ctx_of io fd))))"

text \<open>What threads do with a manager; the descriptors are not the manager's own pipe.\<close>

inductive io_step :: "'k epoll \<Rightarrow> int \<Rightarrow> 'c IOManager \<times> 'k \<Rightarrow> 'c IOManager \<times> 'k \<Rightarrow> bool"
  for K :: "'k epoll" and p :: int where
  io_add: "addEvent K cur_sched cur_fiber st fd event cb io k = Inr (ok, io', k') \<Longrightarrow> 0 \<le> fd \<Longrightarrow>
     event \<in> {READ, WRITE} \<Longrightarrow> registered io fd event = None \<Longrightarrow> cur_sched \<noteq> 0 \<Longrightarrow>
     (cb = None \<longrightarrow> cur_fiber \<noteq> 0 \<and> st = RUNNING) \<Longrightarrow> io_step K p (io, k) (io', k')"
| io_del: "delEvent K fd event io k = Inr (ok, io', k') \<Longrightarrow> 0 \<le> fd \<Longrightarrow> event \<in> {READ, WRITE} \<Longrightarrow>
     io_step K p (io, k) (io', k')"
| io_cancel: "cancelEvent K fd event io k = Inr (ok, reqs, io', k') \<Longrightarrow> 0 \<le> fd \<Longrightarrow> event \<in> {READ, WRITE} \<Longrightarrow>
     io_step K p (io, k) (io', k')"
| io_cancel_all: "cancelAll K fd io k = Inr (ok, reqs, io', k') \<Longrightarrow> 0 \<le> fd \<Longrightarrow> io_step K p (io, k) (io', k')"
| io_event: "idle_events K i ret ((CtxPtr fd, events) # evs) io k = Inr (reqs, io', k') \<Longrightarrow>
     ret = int (Suc i) \<Longrightarrow> 0 \<le> fd \<Longrightarrow> nat fd < length (m_fdContexts io) \<Longrightarrow>
     (events AND EPOLLIN \<noteq> 0 \<longrightarrow> m_events (ctx_of io fd) AND READ \<noteq> 0) \<Longrightarrow>
     (events AND EPOLLOUT \<noteq> 0 \<longrightarrow> m_events (ctx_of io fd) AND WRITE \<noteq> 0) \<Longrightarrow>
     io_step K p (io, k) (io', k')"
| io_schedule_step: "io_step K p (io, k) (io_schedule task io, k)"
| io_timers_step: "io_step K p (io, k) (io\<lparr>io_timers := tm\<rparr>, k)"
| io_scheduler_step: "io_step K p (io, k) (io\<lparr>io_scheduler := s\<rparr>, k)"

definition io_init :: "'k epoll \<Rightarrow> int \<Rightarrow> 'c IOManager \<times> 'k \<Rightarrow> bool" where
  "io_init K p = (\<lambda>(io, k).
     (\<exists>threads use_caller this cur root tid epfd pipe_ret fcntl_ret ctl_ret ids now cur'.
        IOManager_new threads use_caller this cur root tid epfd pipe_ret fcntl_ret ctl_ret ids now = Inr (io, cur')) \<and>
     (\<forall>fd. fd \<noteq> p \<longrightarrow> ep_interest K k fd = None))"

definition io_sys_inv :: "'k epoll \<Rightarrow> int \<Rightarrow> 'c IOManager \<times> 'k \<Rightarrow> bool" where
  "io_sys_inv K p = (\<lambda>(io, k). io_inv io \<and> (epoll_ok K \<longrightarrow> kernel_sync K p io k))"

lemma kernel_sync_ctl:
  assumes "kernel_sync K p io k" "epoll_ok K" "ep_ctl K op fd ev k = (ok, k')"
    and "\<And>g. 0 \<le> g \<Longrightarrow> m_events (ctx_of io' g) = (if g = fd \<and> ok then m else m_events (ctx_of io g))"
    and "m = 0 \<Longrightarrow> op = EPOLL_CTL_DEL" "m \<noteq> 0 \<Longrightarrow> op \<noteq> EPOLL_CTL_DEL \<and> ev = EPOLLET OR m"
  shows "kernel_sync K p io' k'"
  using assms unfolding epoll_ok_def kernel_sync_def by (simp add: fun_upd_def) blast

lemma kernel_sync_same:
  "kernel_sync K p io k \<Longrightarrow> m_fdContexts io' = m_fdContexts io \<Longrightarrow> kernel_sync K p io' k"
  by (simp add: kernel_sync_def ctx_of_def)

lemma io_inv_same:
  "io_inv io \<Longrightarrow> m_fdContexts io' = m_fdContexts io \<Longrightarrow> m_pendingEventCount io' = m_pendingEventCount io \<Longrightarrow> io_inv io'"
  by (simp add: io_inv_def)

lemma events_unregister:
  "0 \<le> fd \<Longrightarrow> nat fd < length (m_fdContexts io) \<Longrightarrow> 0 \<le> g \<Longrightarrow> m_events (ctx_of (unregister fd event io) g) =
    (if g = fd then m_events (ctx_of io fd) AND NOT event else m_events (ctx_of io g))"
  by (simp add: unregister_def ctx_of_put_ctx)

lemma events_unregister_all:
  "0 \<le> fd \<Longrightarrow> nat fd < length (m_fdContexts io) \<Longrightarrow> 0 \<le> g \<Longrightarrow> m_events (ctx_of (unregister_all fd which io) g) =
    (if g = fd then clear_events which (m_events (ctx_of io fd)) else m_events (ctx_of io g))"
  by (simp add: unregister_all_def clear_events_def events_unregister Let_def)

lemma clear_events_eq:
  "m \<in> {0, 1, 4, 5} \<Longrightarrow> which \<in> {0, 1, 4, 5} \<Longrightarrow> clear_events which m = m AND NOT which"
  by (auto simp: clear_events_def event_defs)

lemma remove_op_cases:
  "left = 0 \<Longrightarrow> remove_op left = EPOLL_CTL_DEL" "left \<noteq> 0 \<Longrightarrow> remove_op left \<noteq> EPOLL_CTL_DEL"
  by (simp_all add: remove_op_def)

lemma ctx_of_out: "\<not> nat fd < length (m_fdContexts io) \<Longrightarrow> m_events (ctx_of io fd) = 0"
  by (simp add: ctx_of_def)

lemma io_add_inv:
  assumes inv: "io_inv io" and add: "addEvent K cur_sched cur_fiber st fd event cb io k = Inr (ok, io', k')"
    and h: "0 \<le> fd" "event \<in> {READ, WRITE}" "registered io fd event = None" "cur_sched \<noteq> 0"
      "cb = None \<longrightarrow> cur_fiber \<noteq> 0 \<and> st = RUNNING"
  shows "io_inv io'" and "epoll_ok K \<Longrightarrow> kernel_sync K p io k \<Longrightarrow> kernel_sync K p io' k'"
proof -
  let ?m = "m_events (ctx_of io fd)"
  let ?e = "\<lparr>ec_scheduler = cur_sched, ec_fiber = (if cb = None then cur_fiber else 0), ec_cb = cb\<rparr>"
  let ?op = "if ?m \<noteq> 0 then EPOLL_CTL_MOD else EPOLL_CTL_ADD"
  have ev: "event = READ \<or> event = WRITE" and e: "waiting ?e" using h by (auto simp: waiting_def)
  have ctl: "ep_ctl K ?op fd (EPOLLET OR (?m OR event)) k = (ok, k')"
    and io': "io' = (if ok then enroll fd event ?e io else covering fd io)"
    using addEvent_eq [OF inv h(1) ev h(3), of cb st K cur_sched cur_fiber k] h(5) add
    by (auto simp: Let_def or.assoc split: prod.splits)
  show "io_inv io'"
    using covering_inv [OF inv] enroll_inv [OF inv h(1) ev h(3) e] by (simp add: io')
  have "?m OR event \<noteq> 0" using ev by (auto simp: or_eq_0_iff)
  then show "kernel_sync K p io' k'" if "epoll_ok K" "kernel_sync K p io k"
    using kernel_sync_ctl [OF that(2,1) ctl, of io' "?m OR event"] io' h(1)
    by (simp add: enroll_ctx_of [OF inv] covering_ctx_of [OF inv] split: if_splits)
qed

lemma unregister_sync:
  assumes "epoll_ok K" "kernel_sync K p io k" and reg: "registered io fd event = Some e"
    and "ep_ctl K (remove_op (m_events (ctx_of io fd) AND NOT event)) fd
           (EPOLLET OR (m_events (ctx_of io fd) AND NOT event)) k = (ok, k')"
  shows "kernel_sync K p (if ok then unregister fd event io else io) k'"
  using registered_in_range [OF reg]
  by (intro kernel_sync_ctl [OF assms(2,1,4)]) (auto simp: events_unregister remove_op_cases)

lemma io_del_inv:
  assumes inv: "io_inv io" and del: "delEvent K fd event io k = Inr (ok, io', k')"
    and h: "0 \<le> fd" "event \<in> {READ, WRITE}"
  shows "io_inv io'" and "epoll_ok K \<Longrightarrow> kernel_sync K p io k \<Longrightarrow> kernel_sync K p io' k'"
  using del delEvent_eq [OF inv h(1), of event K k] h(2) unregister_inv [OF inv, of event fd]
    unregister_sync [of K p io k fd event] inv
  by (auto simp: Let_def split: option.splits prod.splits if_splits)

lemma io_cancel_inv:
  assumes inv: "io_inv io" and del: "cancelEvent K fd event io k = Inr (ok, reqs, io', k')"
    and h: "0 \<le> fd" "event \<in> {READ, WRITE}"
  shows "io_inv io'" and "epoll_ok K \<Longrightarrow> kernel_sync K p io k \<Longrightarrow> kernel_sync K p io' k'"
  using del cancelEvent_eq [OF inv h(1), of event K k] h(2) unregister_inv [OF inv, of event fd]
    unregister_sync [of K p io k fd event] inv
  by (auto simp: Let_def split: option.splits prod.splits if_splits)

lemma registered_flag:
  "0 \<le> fd \<Longrightarrow> m_events (ctx_of io fd) AND event \<noteq> 0 \<Longrightarrow> registered io fd event \<noteq> None"
  by (simp add: registered_ctx_of)

text \<open>Removing everything registered for a descriptor.\<close>

lemma unregister_everything:
  assumes inv: "io_inv io" and fd: "0 \<le> fd"
  shows "io_inv (unregister_all fd (m_events (ctx_of io fd)) io)"
    and "x = READ \<or> x = WRITE \<Longrightarrow>
      registered (unregister_all fd (m_events (ctx_of io fd)) io) g x = (if g = fd then None else registered io g x)"
proof -
  have reg: "registered io fd event \<noteq> None" if "m_events (ctx_of io fd) AND event \<noteq> 0" for event
    by (rule registered_flag [OF fd that])
  note un = unregister_all_inv [OF inv reg, where which = "m_events (ctx_of io fd)"]
  show "io_inv (unregister_all fd (m_events (ctx_of io fd)) io)" using un(1) by simp
  show "registered (unregister_all fd (m_events (ctx_of io fd)) io) g x = (if g = fd then None else registered io g x)"
    if "x = READ \<or> x = WRITE"
    using un(2) [where event = x and g = g] that by (auto simp: registered_ctx_of [OF fd])
qed

lemma wakes_all:
  "0 \<le> fd \<Longrightarrow> wakes io fd (m_events (ctx_of io fd)) = map wake (List.map_filter (registered io fd) [READ, WRITE])"
  by (auto simp: wakes_def registered_ctx_of map_filter_simps)

lemma no_events_iff:
  "io_inv io \<Longrightarrow> 0 \<le> fd \<Longrightarrow>
    m_events (ctx_of io fd) = 0 \<longleftrightarrow> registered io fd READ = None \<and> registered io fd WRITE = None"
  using ctx_of_ok [of io fd] by (auto simp: registered_ctx_of ctx_ok_def event_defs)

lemma io_cancel_all_inv:
  assumes inv: "io_inv io" and all: "cancelAll K fd io k = Inr (ok, reqs, io', k')" and fd: "0 \<le> fd"
  shows "io_inv io'" and "epoll_ok K \<Longrightarrow> kernel_sync K p io k \<Longrightarrow> kernel_sync K p io' k'"
proof -
  let ?m = "m_events (ctx_of io fd)"
  note inv' = unregister_everything(1) [OF inv fd]
  have rng: "?m \<in> {0, 1, 4, 5}" using ctx_of_ok [OF inv fd] by (auto simp: ctx_ok_def)
  have z: "clear_events ?m ?m = 0" using clear_events_eq [OF rng rng] by simp
  show "io_inv io'"
    using all inv inv' by (auto simp: cancelAll_eq [OF inv fd] Let_def split: if_splits prod.splits)
  show "kernel_sync K p io' k'" if "epoll_ok K" "kernel_sync K p io k"
  proof (cases "?m = 0")
    case False
    then obtain ok' where ctl: "ep_ctl K EPOLL_CTL_DEL fd NONE k = (ok', k')"
      and io': "io' = (if ok' then unregister_all fd ?m io else io)"
      using all by (auto simp: cancelAll_eq [OF inv fd] Let_def split: prod.splits if_splits)
    have "nat fd < length (m_fdContexts io)" using False ctx_of_out by blast
    then show ?thesis
      using fd z io' by (intro kernel_sync_ctl [OF that(2,1) ctl, of _ 0]) (simp_all add: events_unregister_all)
  qed (use all that in \<open>simp add: cancelAll_eq [OF inv fd]\<close>)
qed

lemma io_event_inv:
  assumes inv: "io_inv io"
    and ev: "idle_events K i ret ((CtxPtr fd, events) # evs) io k = Inr (reqs, io', k')" "ret = int (Suc i)"
    and fd: "0 \<le> fd" "nat fd < length (m_fdContexts io)"
    and sub: "events AND EPOLLIN \<noteq> 0 \<longrightarrow> m_events (ctx_of io fd) AND READ \<noteq> 0"
      "events AND EPOLLOUT \<noteq> 0 \<longrightarrow> m_events (ctx_of io fd) AND WRITE \<noteq> 0"
  shows "io_inv io'" and "epoll_ok K \<Longrightarrow> kernel_sync K p io k \<Longrightarrow> kernel_sync K p io' k'"
proof -
  let ?m = "m_events (ctx_of io fd)"
  let ?real = "real_events events ?m"
  have rng: "?m \<in> {0, 1, 4, 5}" using ctx_of_ok [OF inv fd(1)] by (auto simp: ctx_ok_def)
  have left: "clear_events ?real ?m = ?m AND NOT ?real"
    by (rule clear_events_eq [OF rng real_events_range])
  have "registered io fd event \<noteq> None" if "event = READ \<or> event = WRITE" "?real AND event \<noteq> 0" for event
    using real_events_sub [OF mp [OF sub(1)] mp [OF sub(2)] rng that] registered_flag [OF fd(1)] by blast
  then have inv': "io_inv (unregister_all fd ?real io)" by (rule unregister_all_inv(1) [OF inv])
  have i: "int i < ret" using ev(2) by simp
  note eq = idle_event_eq [OF inv fd i mp [OF sub(1)] mp [OF sub(2)], where K = K and evs = evs and k = k]
  show "io_inv io'"
    using ev inv inv' eq by (auto simp: Let_def split: if_splits prod.splits)
  show "kernel_sync K p io' k'" if "epoll_ok K" "kernel_sync K p io k"
  proof (cases "?m AND ?real = 0")
    case False
    then obtain ok' where ctl: "ep_ctl K (remove_op (?m AND NOT ?real)) fd (EPOLLET OR (?m AND NOT ?real)) k = (ok', k')"
      and io': "io' = (if ok' then unregister_all fd ?real io else io)"
      using ev eq by (auto simp: Let_def split: prod.splits if_splits)
    show ?thesis
      using fd left io'
      by (intro kernel_sync_ctl [OF that(2,1) ctl, of _ "?m AND NOT ?real"])
         (auto simp: events_unregister_all remove_op_cases)
  qed (use ev eq that in simp)
qed

lemma io_schedule_ctxs [simp]:
  "m_fdContexts (io_schedule t io) = m_fdContexts io"
  "m_pendingEventCount (io_schedule t io) = m_pendingEventCount io"
  by (simp_all add: io_schedule_def tickle_def Let_def split: prod.splits)

lemma io_step_inv: "io_step K p x y \<Longrightarrow> io_sys_inv K p x \<Longrightarrow> io_sys_inv K p y"
proof (induction rule: io_step.induct)
  case (io_add cur_sched cur_fiber st fd event cb io k ok io' k')
  have inv: "io_inv io" using io_add.prems by (simp add: io_sys_inv_def)
  show ?case using io_add_inv [OF inv io_add.hyps] io_add.prems by (simp add: io_sys_inv_def)
next
  case (io_event i ret fd events evs io k reqs io' k')
  have inv: "io_inv io" using io_event.prems by (simp add: io_sys_inv_def)
  show ?case using io_event_inv [OF inv io_event.hyps] io_event.prems by (simp add: io_sys_inv_def)
next
  case (io_del fd event io k ok io' k')
  have inv: "io_inv io" using io_del.prems by (simp add: io_sys_inv_def)
  show ?case using io_del_inv [OF inv io_del.hyps] io_del.prems by (simp add: io_sys_inv_def)
next
  case (io_cancel fd event io k ok reqs io' k')
  have inv: "io_inv io" using io_cancel.prems by (simp add: io_sys_inv_def)
  show ?case using io_cancel_inv [OF inv io_cancel.hyps] io_cancel.prems by (simp add: io_sys_inv_def)
next
  case (io_cancel_all fd io k ok reqs io' k')
  have inv: "io_inv io" using io_cancel_all.prems by (simp add: io_sys_inv_def)
  show ?case using io_cancel_all_inv [OF inv io_cancel_all.hyps] io_cancel_all.prems by (simp add: io_sys_inv_def)
qed (simp_all add: io_sys_inv_def io_inv_def kernel_sync_def ctx_of_def)

lemma IOManager_new_fresh:
  assumes "IOManager_new threads use_caller this cur root tid epfd pipe_ret fcntl_ret ctl_ret ids now = Inr (io, cur')"
  shows "io_inv io" and "m_events (ctx_of io fd) = 0" and "registered io fd event = None"
proof -
  have io: "m_fdContexts io = contextResize 32 []" "m_pendingEventCount io = 0"
    using assms by (auto simp: IOManager_new_def outcome_simps)
  show "io_inv io"
    by (simp add: io_inv_def io contextResize_grow) (simp add: pending_def)
  show e: "m_events (ctx_of io fd) = 0" by (simp add: ctx_of_def io contextResize_grow)
  show "registered io fd event = None"
    using e by (cases "0 \<le> fd") (simp_all add: registered_ctx_of registered_negative)
qed

lemma io_init_inv: "io_init K p x \<Longrightarrow> io_sys_inv K p x"
proof (cases x)
  case (Pair io k)
  assume "io_init K p x"
  then obtain threads use_caller this cur root tid epfd pipe_ret fcntl_ret ctl_ret ids now cur' where
    new: "IOManager_new threads use_caller this cur root tid epfd pipe_ret fcntl_ret ctl_ret ids now = Inr (io, cur')"
    and k: "\<forall>fd. fd \<noteq> p \<longrightarrow> ep_interest K k fd = None"
    using Pair by (auto simp: io_init_def)
  show ?thesis
    using IOManager_new_fresh [OF new] k Pair by (simp add: io_sys_inv_def kernel_sync_def)
qed

interpretation io_machine: inductive_invariant "io_init K p" "io_step K p" "io_sys_inv K p"
  for K :: "'k epoll" and p :: int
  by unfold_locales (auto intro: io_init_inv io_step_inv)

section \<open>Properties\<close>

definition other_event :: "u32 \<Rightarrow> u32" where
  "other_event event = (if event = READ then WRITE else READ)"

text \<open>What is left when an event of a well-formed context goes is the other one, if it is registered.\<close>

lemma other_event_left:
  assumes "io_inv io" "0 \<le> fd" "event \<in> {READ, WRITE}"
  shows "m_events (ctx_of io fd) AND NOT event = (if registered io fd (other_event event) = None then NONE else other_event event)"
proof -
  have "ctx_ok (ctx_of io fd)" using ctx_of_ok [OF assms(1,2)] by simp
  then show ?thesis
    by (rule ctx_ok_cases) (use assms(3) in \<open>auto simp: registered_ctx_of [OF assms(2)] other_event_def event_defs NONE_def\<close>)
qed

text \<open>
  C9. \<^verbatim>\<open>addEvent\<close> on a free event of any descriptor passes its assertions and keeps the
  invariant. It adds the descriptor to \<^verbatim>\<open>epoll\<close> if the other event is free too, and else modifies it, for all its
  events and the new one. When \<^verbatim>\<open>epoll_ctl\<close> succeeds it returns true and the callback, or else the running
  fiber, waits for that event on the calling thread's scheduler; when it fails it returns
  false. No other registration changes; the table is enlarged as needed.
\<close>

theorem addEvent_registers:
  assumes inv: "io_inv io" and fd: "0 \<le> fd" and ev: "event \<in> {READ, WRITE}"
    and free: "registered io fd event = None" and cur: "cur_sched \<noteq> 0"
    and cb: "cb = None \<longrightarrow> cur_fiber \<noteq> 0 \<and> st = RUNNING"
  shows "\<exists>ok io' k'. addEvent K cur_sched cur_fiber st fd event cb io k = Inr (ok, io', k') \<and>
    ep_ctl K (if registered io fd (other_event event) = None then EPOLL_CTL_ADD else EPOLL_CTL_MOD) fd
      (EPOLLET OR m_events (ctx_of io fd) OR event) k = (ok, k') \<and> io_inv io' \<and>
    (\<forall>g ev. ev \<in> {READ, WRITE} \<longrightarrow> registered io' g ev =
      (if ok \<and> g = fd \<and> ev = event
       then Some \<lparr>ec_scheduler = cur_sched, ec_fiber = (if cb = None then cur_fiber else 0), ec_cb = cb\<rparr>
       else registered io g ev)) \<and>
    io_scheduler io' = io_scheduler io \<and> io_timers io' = io_timers io"
proof -
  let ?m = "m_events (ctx_of io fd)"
  let ?e = "\<lparr>ec_scheduler = cur_sched, ec_fiber = (if cb = None then cur_fiber else 0), ec_cb = cb\<rparr>"
  let ?op = "if ?m \<noteq> 0 then EPOLL_CTL_MOD else EPOLL_CTL_ADD"
  obtain ok k' where ctl: "ep_ctl K ?op fd (EPOLLET OR ?m OR event) k = (ok, k')" by fastforce
  have evs: "event = READ \<or> event = WRITE" and e: "waiting ?e"
    using ev cur cb by (auto simp: waiting_def)
  have add: "addEvent K cur_sched cur_fiber st fd event cb io k =
      Inr (ok, if ok then enroll fd event ?e io else covering fd io, k')"
    using addEvent_eq [OF inv fd evs free, of cb st K cur_sched cur_fiber k] cb ctl by (simp add: Let_def)
  have "?op = (if registered io fd (other_event event) = None then EPOLL_CTL_ADD else EPOLL_CTL_MOD)"
    using free no_events_iff [OF inv fd] ev by (auto simp: other_event_def)
  then show ?thesis
    unfolding add
    using ctl covering_inv [OF inv] enroll_inv [OF inv fd evs free e]
      covering_registered [OF inv] enroll_registered [OF inv fd evs]
    by (intro exI [of _ ok] exI [of _ "if ok then enroll fd event ?e io else covering fd io"] exI [of _ k']) auto
qed

text \<open>
  An \<^verbatim>\<open>epoll\<close> instance that keeps the watched descriptors in a map and always succeeds.
\<close>

definition map_epoll :: "(int \<rightharpoonup> u32) epoll" where
  "map_epoll = \<lparr>ep_ctl = (\<lambda>op fd ev m. (True, m(fd := if op = EPOLL_CTL_DEL then None else Some ev))),
     ep_interest = id\<rparr>"

lemma map_epoll_ok: "epoll_ok map_epoll"
  by (simp add: epoll_ok_def map_epoll_def)

lemma map_epoll_succeeds [simp]: "ep_ctl map_epoll op fd ev k \<noteq> (False, k')"
  by (simp add: map_epoll_def)

definition io_start :: "bool IOManager" where
  "io_start = (case IOManager_new 2 False 10 0 11 100 3 0 0 0 int 0 of Inr (io, _) \<Rightarrow> io)"

lemma io_start_new: "IOManager_new 2 False 10 0 11 100 3 0 0 0 int 0 = Inr (io_start, 0)"
  by (simp add: io_start_def IOManager_new_def Scheduler_new_def start_def Let_def)

lemma io_start_reach: "reach (io_init map_epoll 5) (io_step map_epoll 5) (io_start, Map.empty)"
  using io_start_new by (intro reach_init) (simp add: io_init_def map_epoll_def, blast)

lemma io_start_inv: "io_inv io_start"
  by (rule IOManager_new_fresh(1) [OF io_start_new])

lemma io_start_free: "registered io_start fd event = None"
  by (rule IOManager_new_fresh(3) [OF io_start_new])

text \<open>The fiber at address 8 waits to read descriptor 7.\<close>

definition reader8 :: "bool EventContext" where
  "reader8 = \<lparr>ec_scheduler = 10, ec_fiber = 8, ec_cb = None\<rparr>"

definition io_reader :: "bool IOManager" where
  "io_reader = enroll 7 READ reader8 io_start"

lemma io_reader_facts:
  "io_inv io_reader" "x = READ \<or> x = WRITE \<Longrightarrow> registered io_reader fd x = (if fd = 7 \<and> x = READ then Some reader8 else None)"
  "m_events (ctx_of io_reader 7) = 1" "7 < length (m_fdContexts io_reader)"
proof -
  show reg: "registered io_reader fd x = (if fd = 7 \<and> x = READ then Some reader8 else None)"
    if "x = READ \<or> x = WRITE" for fd x
    using that unfolding io_reader_def by (simp add: enroll_registered [OF io_start_inv] io_start_free)
  show inv: "io_inv io_reader"
    unfolding io_reader_def
    by (rule enroll_inv [OF io_start_inv _ _ io_start_free]) (simp_all add: reader8_def waiting_def)
  show "m_events (ctx_of io_reader 7) = 1"
    using reg [of READ 7] reg [of WRITE 7] ctx_of_ok [OF inv, of 7]
    by (auto simp: registered_ctx_of ctx_ok_def event_defs split: if_splits)
  show "7 < length (m_fdContexts io_reader)" using inv by (simp add: io_inv_def)
qed

lemma io_reader_added:
  "addEvent map_epoll 10 8 RUNNING 7 READ None io_start Map.empty =
     Inr (True, io_reader, [7 \<mapsto> EPOLLET OR READ])"
proof -
  have "m_events (ctx_of io_start 7) = 0"
    by (simp add: io_start_def IOManager_new_def Scheduler_new_def start_def Let_def ctx_of_def contextResize_grow)
  then show ?thesis
    using addEvent_eq [OF io_start_inv, of 7 READ None RUNNING map_epoll 10 8 Map.empty] io_start_free [of 7 READ]
    by (simp add: map_epoll_def io_reader_def reader8_def)
qed

lemma io_reader_reach: "reach (io_init map_epoll 5) (io_step map_epoll 5) (io_reader, [7 \<mapsto> EPOLLET OR READ])"
  by (rule reach_step [OF io_start_reach io_add [OF io_reader_added]]) (simp_all add: io_start_free)

theorem addEvent_registers_witness:
  "\<exists>io' k'. addEvent map_epoll 10 8 RUNNING 40 READ None io_start Map.empty = Inr (True, io', k') \<and>
     registered io' 40 READ = Some \<lparr>ec_scheduler = 10, ec_fiber = 8, ec_cb = None\<rparr>"
proof -
  have "(0::int) \<le> 40" "READ \<in> {READ, WRITE}" "(10::nat) \<noteq> 0"
    "(None :: bool option) = None \<longrightarrow> (8::nat) \<noteq> 0 \<and> RUNNING = RUNNING" by simp_all
  from addEvent_registers [OF io_start_inv this(1,2) io_start_free this(3,4), of map_epoll Map.empty]
  show ?thesis by (fastforce simp: map_epoll_def)
qed

text \<open>
  C5. In every state reachable by registering, removing, cancelling and triggering events the
  kernel watches for each descriptor exactly the registered events, edge triggered, and nothing
  else; and \<^verbatim>\<open>m_pendingEventCount\<close> is the number of registered events. This rests on the
  documented effect of \<^verbatim>\<open>epoll_ctl\<close> and on no report being stale when it is handled.
\<close>

theorem kernel_watches_registered:
  assumes "epoll_ok K" and "reach (io_init K p) (io_step K p) (io, k)" and "0 \<le> fd" and "fd \<noteq> p"
  shows "ep_interest K k fd =
      (let r = (if registered io fd READ \<noteq> None then READ else NONE);
           w = (if registered io fd WRITE \<noteq> None then WRITE else NONE)
       in if r OR w = NONE then None else Some (EPOLLET OR (r OR w))) \<and>
    m_pendingEventCount io = of_nat (\<Sum>i<length (m_fdContexts io).
      (if registered io (int i) READ \<noteq> None then 1 else 0) + (if registered io (int i) WRITE \<noteq> None then 1 else 0))"
proof -
  have inv: "io_inv io" "kernel_sync K p io k"
    using io_machine.reach_inv [OF assms(2)] assms(1) by (simp_all add: io_sys_inv_def)
  have "ctx_ok (ctx_of io fd)" using ctx_of_ok [OF inv(1) assms(3)] by simp
  then have "m_events (ctx_of io fd) = (if registered io fd READ \<noteq> None then READ else NONE) OR
      (if registered io fd WRITE \<noteq> None then WRITE else NONE)"
    by (rule ctx_ok_cases) (simp_all add: registered_ctx_of [OF assms(3)] event_defs)
  moreover have "pending (m_fdContexts io) = (\<Sum>i<length (m_fdContexts io).
      (if registered io (int i) READ \<noteq> None then 1 else 0) + (if registered io (int i) WRITE \<noteq> None then 1 else 0))"
    unfolding pending_def sum_list_sum_nth atLeast0LessThan
    by (rule sum.cong) (simp_all add: event_count_def registered_def)
  ultimately show ?thesis
    using inv assms(3,4) unfolding kernel_sync_def io_inv_def by (simp add: Let_def NONE_def)
qed

theorem kernel_watches_registered_witness:
  "ep_interest map_epoll [7 \<mapsto> EPOLLET OR READ] 7 = Some (EPOLLET OR READ) \<and>
   registered io_reader 7 READ \<noteq> None \<and> registered io_reader 7 WRITE = None"
  using kernel_watches_registered [OF map_epoll_ok io_reader_reach, of 7]
  by (simp add: io_reader_facts NONE_def Let_def)

text \<open>
  C14. \<^verbatim>\<open>cancelEvent\<close> and \<^verbatim>\<open>delEvent\<close> never fail an assertion. On an event that is not registered
  they return false and change nothing. Otherwise they tell \<^verbatim>\<open>epoll\<close> to watch the other event if that is registered,
  and to drop the descriptor if not, and return whether \<^verbatim>\<open>epoll_ctl\<close> succeeded; on
  success exactly that registration is gone, \<^verbatim>\<open>cancelEvent\<close> has scheduled its waiter once, and
  \<^verbatim>\<open>delEvent\<close> nobody.
\<close>

theorem cancelEvent_delEvent_spec:
  assumes inv: "io_inv io" and fd: "0 \<le> fd" and ev: "event \<in> {READ, WRITE}"
  shows "\<exists>ok io' k'.
    cancelEvent K fd event io k =
      Inr (ok, if ok then [wake (the (registered io fd event))] else [], io', k') \<and>
    delEvent K fd event io k = Inr (ok, io', k') \<and> io_inv io' \<and>
    (if registered io fd event = None then \<not> ok \<and> k' = k
     else if registered io fd (other_event event) = None then ep_ctl K EPOLL_CTL_DEL fd (EPOLLET OR NONE) k = (ok, k')
     else ep_ctl K EPOLL_CTL_MOD fd (EPOLLET OR other_event event) k = (ok, k')) \<and> (\<not> ok \<longrightarrow> io' = io) \<and>
    (ok \<longrightarrow> (\<forall>g x. x \<in> {READ, WRITE} \<longrightarrow>
       registered io' g x = (if g = fd \<and> x = event then None else registered io g x)))"
proof (cases "registered io fd event")
  case None
  then show ?thesis
    using ev inv by (auto simp: cancelEvent_eq [OF inv fd] delEvent_eq [OF inv fd])
next
  case (Some e)
  have evs: "event = READ \<or> event = WRITE" using ev by simp
  let ?left = "m_events (ctx_of io fd) AND NOT event"
  obtain ok k' where ctl: "ep_ctl K (remove_op ?left) fd (EPOLLET OR ?left) k = (ok, k')" by fastforce
  have "if registered io fd (other_event event) = None then ep_ctl K EPOLL_CTL_DEL fd (EPOLLET OR NONE) k = (ok, k')
     else ep_ctl K EPOLL_CTL_MOD fd (EPOLLET OR other_event event) k = (ok, k')"
    using ctl ev unfolding other_event_left [OF inv fd ev]
    by (auto simp: remove_op_def NONE_def other_event_def event_defs split: if_splits)
  then show ?thesis
    using Some ctl inv unregister_inv [OF inv evs Some] unregister_registered [OF inv evs _ Some]
    by (intro exI [of _ ok] exI [of _ "if ok then unregister fd event io else io"] exI [of _ k'])
       (auto simp: cancelEvent_eq [OF inv fd evs] delEvent_eq [OF inv fd evs])
qed

theorem cancelEvent_delEvent_spec_witness:
  "\<exists>io' k'. cancelEvent map_epoll 7 READ io_reader [7 \<mapsto> EPOLLET OR READ] =
       Inr (True, [(10, Task_fiber 8 (- 1))], io', k') \<and> registered io' 7 READ = None"
proof -
  have ok: "\<exists>r. cancelEvent map_epoll 7 READ io_reader [7 \<mapsto> EPOLLET OR READ] = Inr (True, r)"
    by (simp add: cancelEvent_eq [OF io_reader_facts(1)] io_reader_facts(2)) (simp add: map_epoll_def Let_def)
  show ?thesis
    using cancelEvent_delEvent_spec [OF io_reader_facts(1), of 7 READ map_epoll "[7 \<mapsto> EPOLLET OR READ]"] ok
    by (auto simp: io_reader_facts(2) wake_def reader8_def dest: spec [of _ "7 :: int"])
qed

text \<open>
  C15. \<^verbatim>\<open>cancelAll\<close> passes its final assertion. When nothing is registered it returns false; otherwise it tells \<^verbatim>\<open>epoll\<close> to
  drop the descriptor and returns whether \<^verbatim>\<open>epoll_ctl\<close> succeeded. When \<^verbatim>\<open>epoll_ctl\<close> succeeds every waiter of the
  descriptor is scheduled once, readers first, and no event of it stays registered, while those
  of other descriptors do.
\<close>

theorem cancelAll_spec:
  assumes inv: "io_inv io" and fd: "0 \<le> fd"
  shows "\<exists>ok reqs io' k'. cancelAll K fd io k = Inr (ok, reqs, io', k') \<and> io_inv io' \<and>
    (ok \<longrightarrow> reqs = map wake (List.map_filter (registered io fd) [READ, WRITE]) \<and>
      (\<forall>g x. x \<in> {READ, WRITE} \<longrightarrow> registered io' g x = (if g = fd then None else registered io g x))) \<and>
    (\<not> ok \<longrightarrow> reqs = [] \<and> io' = io) \<and>
    (if registered io fd READ = None \<and> registered io fd WRITE = None then \<not> ok \<and> k' = k
     else ep_ctl K EPOLL_CTL_DEL fd NONE k = (ok, k'))"
proof -
  let ?m = "m_events (ctx_of io fd)"
  obtain ok k' where ctl: "ep_ctl K EPOLL_CTL_DEL fd NONE k = (ok, k')" by fastforce
  show ?thesis
  proof (cases "?m = 0")
    case True
    then show ?thesis using no_events_iff [OF inv fd] inv by (auto simp: cancelAll_eq [OF inv fd])
  next
    case False
    have "cancelAll K fd io k =
        Inr (ok, if ok then wakes io fd ?m else [], if ok then unregister_all fd ?m io else io, k')"
      using False ctl by (simp add: cancelAll_eq [OF inv fd] Let_def)
    then show ?thesis
      using unregister_everything [OF inv fd] inv wakes_all [OF fd] False no_events_iff [OF inv fd] ctl by auto
  qed
qed

theorem cancelAll_spec_witness:
  "\<exists>io' k'. cancelAll map_epoll 7 io_reader [7 \<mapsto> EPOLLET OR READ] =
       Inr (True, [(10, Task_fiber 8 (- 1))], io', k') \<and> registered io' 7 READ = None"
proof -
  have ok: "\<exists>r. cancelAll map_epoll 7 io_reader [7 \<mapsto> EPOLLET OR READ] = Inr (True, r)"
    by (simp add: cancelAll_eq [OF io_reader_facts(1)] io_reader_facts(3)) (simp add: map_epoll_def)
  show ?thesis
    using cancelAll_spec [OF io_reader_facts(1), of 7 map_epoll "[7 \<mapsto> EPOLLET OR READ]"] ok
    by (auto simp: io_reader_facts(2) wake_def reader8_def map_filter_simps)
qed

text \<open>
  C16. Handling one report of \<^verbatim>\<open>epoll_wait\<close> for a descriptor whose registered events include what
  is reported: an error or hang-up counts as every registered event; if \<^verbatim>\<open>epoll_ctl\<close> succeeds,
  exactly the waiters of the reported events are scheduled, once each, and only they are
  unregistered. No assertion fails.
\<close>

theorem idle_event_wakes_waiters:
  assumes inv: "io_inv io" and fd: "0 \<le> fd" "nat fd < length (m_fdContexts io)"
    and rep: "\<And>x. x \<in> {READ, WRITE} \<Longrightarrow> events AND x \<noteq> 0 \<Longrightarrow> registered io fd x \<noteq> None"
  defines "hit \<equiv> \<lambda>x. registered io fd x \<noteq> None \<and> (events AND x \<noteq> 0 \<or> events AND (EPOLLERR OR EPOLLHUP) \<noteq> 0)"
  shows "\<exists>reqs io' k'. idle_events K 0 1 [(CtxPtr fd, events)] io k = Inr (reqs, io', k') \<and> io_inv io' \<and>
    (reqs = map (\<lambda>x. wake (the (registered io fd x))) (filter hit [READ, WRITE]) \<and>
       (\<forall>g x. x \<in> {READ, WRITE} \<longrightarrow> registered io' g x = (if g = fd \<and> hit x then None else registered io g x))
     \<or> reqs = [] \<and> io' = io \<and> (\<exists>op ev. ep_ctl K op fd ev k = (False, k')))"
proof -
  let ?m = "m_events (ctx_of io fd)"
  let ?real = "real_events events ?m"
  have rng: "?m \<in> {0, 1, 4, 5}" using ctx_of_ok [OF inv fd(1)] by (auto simp: ctx_ok_def)
  have sub: "events AND EPOLLIN \<noteq> 0 \<Longrightarrow> ?m AND READ \<noteq> 0" "events AND EPOLLOUT \<noteq> 0 \<Longrightarrow> ?m AND WRITE \<noteq> 0"
    using rep [of READ] rep [of WRITE] fd(1) by (auto simp: registered_ctx_of event_defs split: if_splits)
  have real: "?real AND x \<noteq> 0 \<longleftrightarrow> hit x" if "x \<in> {READ, WRITE}" for x
    using that sub rng fd(1)
    by (auto simp: hit_def real_events_def registered_ctx_of Let_def event_defs bit.conj_disj_distrib2)
  have reg: "registered io fd x \<noteq> None" if "x = READ \<or> x = WRITE" "?real AND x \<noteq> 0" for x
    using real [of x] that by (auto simp: hit_def)
  note un = unregister_all_inv [OF inv reg]
  have w: "wakes io fd ?real = map (\<lambda>x. wake (the (registered io fd x))) (filter hit [READ, WRITE])"
    using real reg by (auto simp: wakes_def registered_ctx_of [OF fd(1)] hit_def)
  have gone: "registered (unregister_all fd ?real io) g x = (if g = fd \<and> hit x then None else registered io g x)"
    if "x \<in> {READ, WRITE}" for g x
    using un(2) [where event = x and g = g] real [OF that] that by auto
  have nohit: "?m AND ?real = 0 \<Longrightarrow> \<not> hit READ \<and> \<not> hit WRITE"
    using real [of READ] real [of WRITE] reg [of READ] reg [of WRITE] rng real_events_range [of events ?m] fd(1)
    by (auto simp: registered_ctx_of event_defs)
  note eq = idle_event_eq [OF inv fd _ sub, where i = 0 and ret = 1 and K = K and evs = "[]" and k = k]
  show ?thesis
  proof (cases "?m AND ?real = 0")
    case True
    then show ?thesis using eq nohit inv by auto
  next
    case False
    obtain ok k' where ctl: "ep_ctl K (remove_op (?m AND NOT ?real)) fd (EPOLLET OR (?m AND NOT ?real)) k = (ok, k')"
      by fastforce
    have "idle_events K 0 1 [(CtxPtr fd, events)] io k =
        Inr (if ok then (wakes io fd ?real, unregister_all fd ?real io, k') else ([], io, k'))"
      using eq False ctl by (simp add: Let_def)
    then show ?thesis using w gone un(1) inv ctl by (cases ok) auto
  qed
qed

theorem idle_event_wakes_waiters_witness:
  "\<exists>io' k'. idle_events map_epoll 0 1 [(CtxPtr 7, EPOLLIN)] io_reader [7 \<mapsto> EPOLLET OR READ] =
       Inr ([(10, Task_fiber 8 (- 1))], io', k') \<and> io_inv io'"
proof -
  have r: "registered io_reader 7 x \<noteq> None" if "x \<in> {READ, WRITE}" "EPOLLIN AND x \<noteq> 0" for x
    using that by (auto simp: io_reader_facts(2) event_defs)
  have "nat 7 < length (m_fdContexts io_reader)" using io_reader_facts(4) by simp
  moreover have "EPOLLIN AND READ \<noteq> 0" "EPOLLIN AND WRITE = 0" "EPOLLIN AND (EPOLLERR OR EPOLLHUP) = 0"
    by (simp_all add: event_defs EPOLLERR_def EPOLLHUP_def)
  moreover have "registered io_reader 7 READ = Some reader8" "registered io_reader 7 WRITE = None"
    by (simp_all add: io_reader_facts(2))
  ultimately show ?thesis
    using idle_event_wakes_waiters [where events = EPOLLIN and fd = 7 and K = map_epoll
        and k = "[7 \<mapsto> EPOLLET OR READ]", OF io_reader_facts(1) _ _ r]
    by (auto simp: wake_def reader8_def simp del: idle_events.simps)
qed

text \<open>
  C36. The loop over the reported events handles at most one context per \<^verbatim>\<open>epoll_wait\<close>: its body
  assigns the result of \<^verbatim>\<open>epoll_ctl\<close> to the loop bound \<^verbatim>\<open>ret\<close>, so after the first report that
  concerns a registered event the remaining reports of the batch are dropped. Registration is
  edge triggered, so the kernel does not repeat them.
\<close>

theorem idle_drops_remaining_reports:
  assumes "ctx_at fd (m_fdContexts io) = Inr c" and "m_events c AND real_events events (m_events c) \<noteq> NONE"
  shows "idle_events K 0 (int (length ((CtxPtr fd, events) # evs))) ((CtxPtr fd, events) # evs) io k =
    idle_events K 0 1 [(CtxPtr fd, events)] io k"
  using assms by (simp add: Let_def split: prod.split)

theorem idle_drops_remaining_reports_witness:
  "idle_events map_epoll 0 2 [(CtxPtr 7, EPOLLIN), (CtxPtr 9, EPOLLIN)] io_reader Map.empty =
   idle_events map_epoll 0 1 [(CtxPtr 7, EPOLLIN)] io_reader Map.empty"
proof -
  have c: "ctx_at 7 (m_fdContexts io_reader) = Inr (ctx_of io_reader 7)"
    using io_reader_facts(4) by (simp add: ctx_at_def ctx_of_def)
  show ?thesis
    using idle_drops_remaining_reports [OF c, of EPOLLIN map_epoll "[(CtxPtr 9, EPOLLIN)]" Map.empty]
    by (simp add: io_reader_facts(3) real_events_def event_defs EPOLLERR_def EPOLLHUP_def)
qed

text \<open>
  A stale report aborts the process: when the kernel reported both events of a descriptor and
  another thread removed the read event before the report is handled, the loop triggers the read
  event although it is not registered any more, and the assertion in \<^verbatim>\<open>triggerEvent\<close> fails.
\<close>

theorem stale_report_aborts:
  assumes "ctx_at fd (m_fdContexts io) = Inr c" and "m_events c = WRITE"
    and "events AND EPOLLIN \<noteq> 0" and "events AND EPOLLOUT \<noteq> 0"
    and "\<And>op ev. fst (ep_ctl K op (m_ctx_fd c) ev k)"
  shows "idle_events K 0 1 [(CtxPtr fd, events)] io k = Inl (AssertFailed ''m_events & event'')"
proof -
  have "(events OR x) AND y \<noteq> 0" if "events AND y \<noteq> 0" for x y :: u32
    using that by (metis bit.conj_disj_distrib2 or_eq_0_iff)
  then have "real_events events WRITE = READ OR WRITE"
    using assms(3,4) by (simp add: real_events_def Let_def)
  then show ?thesis
    using assms(1,2,5) by (auto simp: Let_def event_defs trigger_if_def triggerEvent_def split: prod.split)
       (metis fst_conv)+
qed

theorem stale_report_aborts_witness:
  "idle_events map_epoll 0 1 [(CtxPtr 7, EPOLLIN OR EPOLLOUT)]
     (enroll 7 WRITE reader8 io_start) Map.empty = Inl (AssertFailed ''m_events & event'')"
proof (rule stale_report_aborts)
  let ?io = "enroll 7 WRITE reader8 io_start"
  have inv: "io_inv ?io"
    by (rule enroll_inv [OF io_start_inv _ _ io_start_free]) (simp_all add: reader8_def waiting_def)
  then show "ctx_at 7 (m_fdContexts ?io) = Inr (ctx_of ?io 7)"
    by (simp add: ctx_at_def ctx_of_def io_inv_def)
  show "m_events (ctx_of ?io 7) = WRITE"
    using ctx_of_ok [OF inv, of 7] io_start_free
      enroll_registered [OF io_start_inv, of 7 WRITE READ reader8 7]
      enroll_registered [OF io_start_inv, of 7 WRITE WRITE reader8 7]
    by (auto simp: registered_ctx_of ctx_ok_def event_defs split: if_splits)
qed (simp_all add: event_defs map_epoll_def)

lemma later_minus_now: "0 < now \<Longrightarrow> \<not> n \<le> now \<Longrightarrow> n - now \<noteq> u64_max" for n now :: u64
proof
  assume now: "0 < now" "\<not> n \<le> now" and eq: "n - now = u64_max"
  have "unat (n - now) = unat n - unat now" using now(2) by (intro unat_sub_le) simp
  moreover have "0 < unat now" using now(1) by (simp add: unat_gt_0 word_neq_0_conv)
  moreover have "unat n \<le> unat u64_max" by (simp add: word_le_nat_alt [symmetric])
  moreover have "unat now < unat n" using now(2) by (simp add: word_less_nat_alt not_le)
  ultimately show False using eq by simp
qed

text \<open>
  C22. \<^verbatim>\<open>IOManager::stopping()\<close> is true only when no timer is armed, no event is registered and
  the scheduler itself has stopped with nothing queued or running. (The table is far below
  \<^verbatim>\<open>2^63\<close> entries, so the event counter does not wrap.)
\<close>

theorem io_stopping_quiescent:
  assumes inv: "io_inv io" and small: "length (m_fdContexts io) < 2 ^ 62"
    and now: "0 < now"
    and stop: "IOManager_stopping now io = (timeout, True, io')"
  shows "m_timers (io_timers io) = [] \<and> registered io fd READ = None \<and> registered io fd WRITE = None \<and>
    m_stopping (io_scheduler io) \<and> m_tasks (io_scheduler io) = [] \<and> m_activeThreadCount (io_scheduler io) = 0"
proof -
  have "event_count c \<le> 2" for c :: "'a FdContext" by (simp add: event_count_def)
  then have "pending (m_fdContexts io) \<le> 2 * length (m_fdContexts io)"
    unfolding pending_def using sum_list_mono [of "m_fdContexts io" event_count "\<lambda>_. 2"]
    by (simp add: sum_list_triv)
  then have "pending (m_fdContexts io) < 2 ^ 64" using small by simp
  moreover have "m_pendingEventCount io = 0" "stopping (io_scheduler io)"
    using stop by (auto simp: IOManager_stopping_def split: prod.splits)
  ultimately have "pending (m_fdContexts io) = 0"
    using inv by (auto simp: io_inv_def word_of_nat_eq_0_iff dest: nat_dvd_not_less [rotated])
  then have z: "event_count c = 0" if "c \<in> set (m_fdContexts io)" for c
    using that by (simp add: pending_def)
  have "registered io fd x = None" if "x = READ \<or> x = WRITE" for x
    using that z [of "m_fdContexts io ! nat fd"] by (auto simp: registered_def event_count_def split: if_splits)
  moreover have "m_timers (io_timers io) = []"
  proof (rule ccontr)
    assume "m_timers (io_timers io) \<noteq> []"
    then obtain n where n: "fst (getNextTimer now (io_timers io)) = (if n \<le> now then 0 else n - now)"
      by (cases "m_timers (io_timers io)") (auto simp: getNextTimer_def Let_def)
    have "fst (getNextTimer now (io_timers io)) = u64_max"
      using stop by (auto simp: IOManager_stopping_def split: prod.splits)
    then show False using n later_minus_now [OF now, of n] by (auto simp: u64_max_def split: if_splits)
  qed
  ultimately show ?thesis using \<open>stopping (io_scheduler io)\<close> by (simp add: stopping_def)
qed

theorem io_stopping_quiescent_witness:
  "\<exists>timeout io'. IOManager_stopping 1 (io_start\<lparr>io_scheduler := (io_scheduler io_start)\<lparr>m_stopping := True\<rparr>\<rparr>) =
      (timeout, True, io') \<and>
     registered (io_start\<lparr>io_scheduler := (io_scheduler io_start)\<lparr>m_stopping := True\<rparr>\<rparr>) 7 READ = None"
proof -
  let ?io = "io_start\<lparr>io_scheduler := (io_scheduler io_start)\<lparr>m_stopping := True\<rparr>\<rparr>"
  have "\<exists>io'. IOManager_stopping 1 ?io = (u64_max, True, io')"
    by (simp add: io_start_def IOManager_new_def Scheduler_new_def start_def Let_def IOManager_stopping_def
        getNextTimer_def TimerManager_new_def stopping_def)
  then obtain io' where s: "IOManager_stopping 1 ?io = (u64_max, True, io')" by blast
  have "io_inv ?io" by (rule io_inv_same [OF io_start_inv]) simp_all
  moreover have "length (m_fdContexts ?io) < 2 ^ 62"
    by (simp add: io_start_def IOManager_new_def Scheduler_new_def start_def Let_def contextResize_grow)
  ultimately show ?thesis using io_stopping_quiescent [OF _ _ _ s, of 7] s by simp
qed

lemma sint_ucast_small:
  assumes "unat (x :: u64) < 2 ^ 31"
  shows "sint (ucast x :: u32) = int (unat x)"
proof -
  have x: "uint x < 2 ^ 31" using assms of_nat_less_iff [of "unat x" "2 ^ 31", where 'a = int] by simp
  have "uint (ucast x :: u32) = uint x"
    using x by (simp add: unsigned_ucast_eq take_bit_int_eq_self)
  moreover have "signed_take_bit 31 (uint x) = uint x"
    using x by (intro signed_take_bit_int_eq_self) (auto intro: order_trans [of _ 0])
  ultimately show ?thesis by (simp add: sint_uint)
qed

text \<open>
  C27. The timeout given to \<^verbatim>\<open>epoll_wait\<close>: for a next timer less than \<^verbatim>\<open>2^31\<close> ms away it is that
  distance, at most 5 seconds, and 5 seconds when there is no timer, however often the wait is
  interrupted. From \<^verbatim>\<open>2^31\<close> ms on the cast to \<^verbatim>\<open>int\<close> wraps: at \<^verbatim>\<open>2^31\<close> the timeout is negative,
  which means waiting without limit, and at \<^verbatim>\<open>2^32\<close> it is 0, which means polling.
\<close>

theorem epoll_timeout_bounded:
  "(unat t < 2 ^ 31 \<longrightarrow> epoll_wait_timeout n t = min (int (unat t)) 5000) \<and>
   epoll_wait_timeout n u64_max = 5000 \<and>
   epoll_wait_timeout 0 (2 ^ 31) = - (2 ^ 31) \<and> epoll_wait_timeout 0 (2 ^ 32) = 0"
proof -
  note small = sint_ucast_small
  have clamp: "unat (clamp_timeout x) = min (unat x) 5000" if "unat x < 2 ^ 31" for x
  proof -
    have "x \<noteq> u64_max" using that by (auto simp: u64_max_def unsigned_minus_1_eq_mask mask_eq_exp_minus_1)
    then have "clamp_timeout x = word_of_int (min (int (unat x)) 5000)"
      using small [OF that] by (simp add: clamp_timeout_def)
    also have "min (int (unat x)) 5000 = int (min (unat x) 5000)"
      by (simp only: of_nat_min of_nat_numeral)
    finally have "clamp_timeout x = word_of_nat (min (unat x) 5000)" by (simp only: of_int_of_nat_eq)
    then show ?thesis by (simp add: unat_of_nat)
  qed
  have iter: "unat ((clamp_timeout ^^ Suc m) x) = min (unat x) 5000" if "unat x < 2 ^ 31" for x m
  proof (induction m)
    case (Suc m)
    have "unat ((clamp_timeout ^^ Suc m) x) < 2 ^ 31" unfolding Suc using that by simp
    from clamp [OF this] show ?case unfolding Suc by simp
  qed (use clamp [OF that] in simp)
  have main: "epoll_wait_timeout m x = min (int (unat x)) 5000" if "unat x < 2 ^ 31" for m x
  proof -
    have "unat ((clamp_timeout ^^ Suc m) x) < 2 ^ 31" unfolding iter [OF that] using that by simp
    from small [OF this] show ?thesis
      unfolding epoll_wait_timeout_def iter [OF that] by (simp only: of_nat_min of_nat_numeral)
  qed
  have "epoll_wait_timeout n u64_max = 5000"
  proof (cases n)
    case (Suc m)
    have "(clamp_timeout ^^ Suc n) u64_max = (clamp_timeout ^^ Suc m) 5000"
      unfolding Suc funpow_Suc_right [of "Suc m"] by (simp add: clamp_timeout_def)
    then show ?thesis using main [of 5000 m] by (simp add: epoll_wait_timeout_def)
  qed (simp add: epoll_wait_timeout_def clamp_timeout_def)
  then show ?thesis
    using main [of t n] by (simp add: epoll_wait_timeout_def clamp_timeout_def u64_max_def)
qed

theorem epoll_timeout_bounded_witness:
  "epoll_wait_timeout 2 1200 = 1200 \<and> epoll_wait_timeout 2 9000 = 5000"
  using epoll_timeout_bounded [of 1200 2] epoll_timeout_bounded [of 9000 2] by simp

section \<open>Two threads in \<open>addEvent\<close>\<close>

text \<open>
  The beginning of \<^verbatim>\<open>addEvent\<close> as the steps that other threads may come between: the test of the size and, if the table is
  large enough, the look-up under the read lock; else the resize under the write lock; and then the look-up after that
  lock was given up. A thread that has its context keeps a plain pointer to it.
\<close>

datatype add_pc = AddTest int | AddResize int | AddIndex int | AddHas int | AddFault fault

definition add_index :: "int \<Rightarrow> 'c FdContext list \<Rightarrow> add_pc" where
  "add_index fd cs = (case ctx_at fd cs of Inl e \<Rightarrow> AddFault e | Inr _ \<Rightarrow> AddHas fd)"

fun add_next :: "add_pc \<Rightarrow> 'c FdContext list \<Rightarrow> add_pc \<times> 'c FdContext list" where
  "add_next (AddTest fd) cs = (if int (length cs) \<le> fd then AddResize fd else add_index fd cs, cs)"
| "add_next (AddResize fd) cs = (AddIndex fd, contextResize (grown_size (nat fd)) cs)"
| "add_next (AddIndex fd) cs = (add_index fd cs, cs)"
| "add_next p cs = (p, cs)"

text \<open>Two threads, the first adding an event of \<open>a\<close>, the second one of \<open>b\<close>; \<open>True\<close> in a schedule is a step of the first.\<close>

fun add_two :: "bool list \<Rightarrow> add_pc \<times> add_pc \<times> 'c FdContext list \<Rightarrow> add_pc \<times> add_pc \<times> 'c FdContext list" where
  "add_two [] y = y"
| "add_two (True # ts) (p, q, cs) = (case add_next p cs of (p', cs') \<Rightarrow> add_two ts (p', q, cs'))"
| "add_two (False # ts) (p, q, cs) = (case add_next q cs of (q', cs') \<Rightarrow> add_two ts (p, q', cs'))"

text \<open>Undisturbed, the steps leave the table that \<open>addEvent\<close> works with, and the context is in it.\<close>

lemma add_alone:
  assumes "io_inv io" "0 \<le> fd"
  shows "(\<lambda>(p, cs). add_next p cs) ((\<lambda>(p, cs). add_next p cs) (add_next (AddTest fd) (m_fdContexts io))) =
    (AddHas fd, m_fdContexts (covering fd io))"
proof (cases "int (length (m_fdContexts io)) \<le> fd")
  case True
  with assms covering_grown(2) [OF assms(1) True] show ?thesis
    by (simp add: add_index_def ctx_at_def covering_def contextResize_def)
next
  case False
  with assms show ?thesis by (simp add: add_index_def ctx_at_def covering_def)
qed

text \<open>
  C37. \<^verbatim>\<open>addEvent\<close> tests the size of the table under the read lock, enlarges it under the write lock without testing
  again, and looks up its context after that. Two threads that use new descriptors \<open>a\<close> and \<open>b\<close> at once, with
  \<^verbatim>\<open>a * 1.5 <= b\<close>, both find the table too small; if they resize in the order \<open>b\<close>, \<open>a\<close>, the second resize makes the table
  smaller than \<open>b\<close> needs. Either the thread of \<open>b\<close> then indexes out of range, or it has looked up its context before and
  that context is destroyed under it. One after the other, in either order, both calls find their contexts.
\<close>

theorem concurrent_resize_shrinks:
  assumes "length cs \<le> a" and "2 \<le> a" and "grown_size a \<le> b"
  shows "fst (snd (add_two [False, True, False, True, False] (AddTest (int a), AddTest (int b), cs))) =
      AddFault (UndefinedBehaviour ''m_fdContexts index out of range'') \<and>
    (\<exists>cs'. add_two [False, True, False, False, True, True] (AddTest (int a), AddTest (int b), cs) = (AddHas (int a), AddHas (int b), cs') \<and>
       length cs' \<le> b) \<and>
    (\<forall>first. \<exists>cs'. add_two (replicate 3 first @ replicate 3 (\<not> first)) (AddTest (int a), AddTest (int b), cs) =
       (AddHas (int a), AddHas (int b), cs') \<and> a < length cs' \<and> b < length cs')"
proof -
  have size: "length (contextResize n cs') = n" for n and cs' :: "'a FdContext list" by (simp add: contextResize_def)
  have lt: "b < grown_size b" "a < grown_size a" using assms grown_size_gt [of a] grown_size_gt [of b] by simp_all
  have less: "length cs \<le> b" "a < b" "a < grown_size b" using assms lt by simp_all
  show ?thesis
    using assms lt less
    by (simp add: all_bool_eq numeral_3_eq_3 add_index_def ctx_at_def size not_le)
qed

theorem concurrent_resize_shrinks_witness:
  "fst (snd (add_two [False, True, False, True, False] (AddTest 32, AddTest 64, m_fdContexts io_start))) =
     AddFault (UndefinedBehaviour ''m_fdContexts index out of range'')"
proof -
  have "length (m_fdContexts io_start) \<le> 32"
    by (simp add: io_start_def IOManager_new_def Scheduler_new_def start_def Let_def contextResize_grow)
  then show ?thesis using concurrent_resize_shrinks [of "m_fdContexts io_start" 32 64] by (simp add: grown_size_def)
qed

lemma io_schedule_tasks:
  "m_tasks (io_scheduler (io_schedule t io)) = m_tasks (io_scheduler io) @ (if runnable t then [t] else [])"
  "io_timers (io_schedule t io) = io_timers io"
  by (simp_all add: io_schedule_def schedule_def scheduleNoLock_def tickle_def Let_def)

lemma fold_io_schedule:
  "m_tasks (io_scheduler (fold io_schedule ts io)) = m_tasks (io_scheduler io) @ filter runnable ts \<and>
   io_timers (fold io_schedule ts io) = io_timers io"
  by (induction ts arbitrary: io) (simp_all add: io_schedule_tasks)

lemma idle_events_frame:
  "idle_events K i ret evs io k = Inr (reqs, io', k') \<Longrightarrow>
     io_scheduler io' = io_scheduler io \<and> io_timers io' = io_timers io"
proof (induction evs arbitrary: i ret io k reqs io' k')
  case (Cons ev evs)
  obtain d events where ev: "ev = (d, events)" by fastforce
  show ?case
  proof (cases d)
    case TicklePipe
    then show ?thesis using Cons ev by (auto split: if_splits)
  next
    case (CtxPtr fd)
    show ?thesis
      using Cons.prems unfolding ev CtxPtr
      by (auto simp: Let_def outcome_simps put_ctx_def split: if_splits prod.splits dest!: Cons.IH)
  qed
qed simp

text \<open>
  A round of \<^verbatim>\<open>idle()\<close> that does not end the loop queues, behind what is queued already, the
  callbacks of all timers that \<^verbatim>\<open>listExpiredCb\<close> reports, in their order, and then the waiters of
  the handled events that belong to this manager; the others are passed to their schedulers.
\<close>

theorem idle_round_queues_work:
  assumes "idle_round K this now now' q ret evs io k = Inr (Some foreign, io', k')"
  shows "\<exists>cbs reqs. listExpiredCb now' q [] (snd (getNextTimer now (io_timers io))) = (cbs, io_timers io') \<and>
    m_tasks (io_scheduler io') = m_tasks (io_scheduler io) @
      map (\<lambda>cb. Task_cb cb (- 1)) (filter (\<lambda>cb. cb \<noteq> None) cbs) @ filter runnable (own_requests this reqs) \<and>
    foreign = filter (\<lambda>r. fst r \<noteq> this) reqs"
proof -
  obtain timeout tm where n: "getNextTimer now (io_timers io) = (timeout, tm)" by fastforce
  obtain cbs tm' where l: "listExpiredCb now' q [] tm = (cbs, tm')" by fastforce
  let ?io1 = "io\<lparr>io_timers := tm'\<rparr>"
  let ?io2 = "fold io_schedule (map (\<lambda>cb. Task_cb cb (- 1)) cbs) ?io1"
  obtain reqs io3 where e: "idle_events K 0 ret evs ?io2 k = Inr (reqs, io3, k')"
    and f: "foreign = filter (\<lambda>r. fst r \<noteq> this) reqs" and io': "io' = fold io_schedule (own_requests this reqs) io3"
    using assms by (auto simp: idle_round_def IOManager_stopping_def n l Let_def outcome_simps fold_map comp_def
        split: if_splits)
  have "filter runnable (map (\<lambda>cb. Task_cb cb (- 1)) cbs) = map (\<lambda>cb. Task_cb cb (- 1)) (filter (\<lambda>cb. cb \<noteq> None) cbs)"
    by (induction cbs) (simp_all add: runnable_def Task_cb_def)
  then show ?thesis
    using idle_events_frame [OF e] fold_io_schedule [of "map (\<lambda>cb. Task_cb cb (- 1)) cbs" ?io1]
      fold_io_schedule [of "own_requests this reqs" io3] n l f io'
    by (intro exI [of _ cbs] exI [of _ reqs]) simp
qed

theorem idle_round_queues_work_witness:
  "\<exists>io' k'. idle_round map_epoll 10 11 15 2 0 [] (io_start\<lparr>io_timers := one_timer\<rparr>) Map.empty = Inr (Some [], io', k') \<and>
     Task_cb (Some True) (- 1) \<in> set (m_tasks (io_scheduler io'))"
proof -
  let ?io = "io_start\<lparr>io_timers := one_timer\<rparr>"
  have l: "fst (listExpiredCb 15 2 [] (snd (getNextTimer 11 one_timer))) = [Some True]"
    by (simp add: one_timer_eq getNextTimer_def listExpiredCb_def detectClockRollover_def Let_def
        skip_due_now.simps Comparator_def Timer_new_def Timer_key_def)
  have "fst (getNextTimer 11 one_timer) \<noteq> u64_max"
    by (simp add: one_timer_eq getNextTimer_def Timer_new_def u64_max_def)
  then obtain io' k' where i: "idle_round map_epoll 10 11 15 2 0 [] ?io Map.empty = Inr (Some [], io', k')"
    by (cases "getNextTimer 11 one_timer"; cases "listExpiredCb 15 2 [] (snd (getNextTimer 11 one_timer))")
       (simp add: idle_round_def IOManager_stopping_def own_requests_def)
  then show ?thesis using idle_round_queues_work [OF i] l by fastforce
qed

end
