(* ===== verification/FdManager.thy ===== *)
theory FdManager
  imports Fd_Table
begin

text \<open>
  \<^verbatim>\<open>sylar/fd_manager.h\<close> and \<^verbatim>\<open>sylar/fd_manager.cpp\<close>: the per-descriptor context kept for the
  hooked system calls, and the table of contexts. \<^verbatim>\<open>fstat\<close> and \<^verbatim>\<open>fcntl\<close> are the
  operating system's: they are the functions of a \<open>kernel\<close> parameter over an abstract
  kernel state. Contexts are stored by value: the pointer a call obtains is used only to
  read or write the slot it came from.
\<close>

unbundle bit_operations_syntax

section \<open>Data\<close>

definition O_NONBLOCK :: u32 where
  "O_NONBLOCK = 0x800"

definition SO_RCVTIMEO :: int where
  "SO_RCVTIMEO = 20"

definition SO_SNDTIMEO :: int where
  "SO_SNDTIMEO = 21"

text \<open>
  \<open>k_fstat fd\<close> is \<open>None\<close> when \<^verbatim>\<open>fstat\<close> fails and otherwise \<^verbatim>\<open>S_ISSOCK(st_mode)\<close>;
  \<open>k_getfl\<close> and \<open>k_setfl\<close> are \<^verbatim>\<open>fcntl\<close> with \<^verbatim>\<open>F_GETFL\<close> and \<^verbatim>\<open>F_SETFL\<close>.
\<close>

record 'k kernel =
  k_fstat :: "int \<Rightarrow> 'k \<Rightarrow> bool option"
  k_getfl :: "int \<Rightarrow> 'k \<Rightarrow> u32"
  k_setfl :: "int \<Rightarrow> u32 \<Rightarrow> 'k \<Rightarrow> int \<times> 'k"

record FdCtx =
  m_isInit :: bool
  m_isSocket :: bool
  m_sysNonBlock :: bool
  m_userNonBlock :: bool
  m_isClosed :: bool
  m_fd :: int
  m_recvTimeout :: u64
  m_sendTimeout :: u64

type_synonym FdManager = "FdCtx option list"

section \<open>Operations\<close>

definition FdCtx_init :: "'k kernel \<Rightarrow> FdCtx \<Rightarrow> 'k \<Rightarrow> bool \<times> FdCtx \<times> 'k" where
  "FdCtx_init K c k =
     (if m_isInit c then (True, c, k)
      else
        (let (isInit, isSocket) = (case k_fstat K (m_fd c) k of
                None \<Rightarrow> (False, False) | Some sock \<Rightarrow> (True, sock));
             (sysNonBlock, k') =
               (if isSocket then
                  (let flags = k_getfl K (m_fd c) k
                   in (True, if flags AND O_NONBLOCK = 0
                             then snd (k_setfl K (m_fd c) (flags OR O_NONBLOCK) k) else k))
                else (False, k))
         in (isInit,
             c\<lparr>m_recvTimeout := u64_max, m_sendTimeout := u64_max, m_isInit := isInit,
               m_isSocket := isSocket, m_sysNonBlock := sysNonBlock, m_userNonBlock := False,
               m_isClosed := False\<rparr>, k')))"

definition FdCtx_new :: "'k kernel \<Rightarrow> int \<Rightarrow> 'k \<Rightarrow> FdCtx \<times> 'k" where
  "FdCtx_new K fd k =
     snd (FdCtx_init K \<lparr>m_isInit = False, m_isSocket = False, m_sysNonBlock = False,
            m_userNonBlock = False, m_isClosed = False, m_fd = fd,
            m_recvTimeout = u64_max, m_sendTimeout = u64_max\<rparr> k)"

definition setTimeout :: "int \<Rightarrow> u64 \<Rightarrow> FdCtx \<Rightarrow> FdCtx" where
  "setTimeout type val c =
     (if type = SO_RCVTIMEO then c\<lparr>m_recvTimeout := val\<rparr> else c\<lparr>m_sendTimeout := val\<rparr>)"

definition getTimeout :: "int \<Rightarrow> FdCtx \<Rightarrow> u64" where
  "getTimeout type c = (if type = SO_RCVTIMEO then m_recvTimeout c else m_sendTimeout c)"

definition FdManager_new :: FdManager where
  "FdManager_new = vec_resize 64 None []"

text \<open>The second half of \<^verbatim>\<open>get\<close>, under the write lock.\<close>

definition FdManager_create ::
  "'k kernel \<Rightarrow> int \<Rightarrow> FdManager \<Rightarrow> 'k \<Rightarrow> (FdCtx option \<times> FdManager \<times> 'k) result" where
  "FdManager_create K fd datas k =
     (let (ctx, k') = FdCtx_new K fd k;
          datas' = (if int (length datas) \<le> fd then vec_resize (grown_size (nat fd)) None datas else datas)
      in if 0 \<le> fd \<and> nat fd < length datas' then Inr (Some ctx, datas'[nat fd := Some ctx], k')
         else Inl (UndefinedBehaviour ''m_datas index out of range''))"

definition FdManager_get ::
  "'k kernel \<Rightarrow> int \<Rightarrow> bool \<Rightarrow> FdManager \<Rightarrow> 'k \<Rightarrow> (FdCtx option \<times> FdManager \<times> 'k) result" where
  "FdManager_get K fd autoCreate datas k =
     (if fd = - 1 then Inr (None, datas, k)
      else if int (length datas) \<le> fd then
        (if \<not> autoCreate then Inr (None, datas, k) else FdManager_create K fd datas k)
      else if fd < 0 then Inl (UndefinedBehaviour ''m_datas index out of range'')
      else if datas ! nat fd \<noteq> None \<or> \<not> autoCreate then Inr (datas ! nat fd, datas, k)
      else FdManager_create K fd datas k)"

definition FdManager_del :: "int \<Rightarrow> FdManager \<Rightarrow> FdManager result" where
  "FdManager_del fd datas =
     (if int (length datas) \<le> fd then Inr datas
      else if fd < 0 then Inl (UndefinedBehaviour ''m_datas index out of range'')
      else Inr (datas[nat fd := None]))"

section \<open>The table\<close>

text \<open>What a lookup without creation answers.\<close>

definition fd_lookup :: "FdManager \<Rightarrow> int \<Rightarrow> FdCtx option" where
  "fd_lookup datas fd = (if 0 \<le> fd \<and> fd < int (length datas) then datas ! nat fd else None)"

interpretation fd_datas: growing_table length nth "\<lambda>n. vec_resize n (None :: FdCtx option)"
  by unfold_locales (simp_all add: nth_vec_resize)

lemma FdManager_get_lookup:
  "- 1 \<le> fd \<Longrightarrow> FdManager_get K fd False datas k = Inr (fd_lookup datas fd, datas, k)"
  by (auto simp: FdManager_get_def fd_lookup_def)

lemma FdCtx_new_fields:
  "m_fd (fst (FdCtx_new K fd k)) = fd" "\<not> m_userNonBlock (fst (FdCtx_new K fd k))"
  "\<not> m_isClosed (fst (FdCtx_new K fd k))"
  "m_isSocket (fst (FdCtx_new K fd k)) = (k_fstat K fd k = Some True)"
  "m_sysNonBlock (fst (FdCtx_new K fd k)) = (k_fstat K fd k = Some True)"
  "m_recvTimeout (fst (FdCtx_new K fd k)) = u64_max" "m_sendTimeout (fst (FdCtx_new K fd k)) = u64_max"
  by (auto simp: FdCtx_new_def FdCtx_init_def Let_def split: option.splits)

lemma FdManager_create_spec:
  assumes "64 \<le> length datas" and "0 \<le> fd" and "FdCtx_new K fd k = (c, k')"
  shows "\<exists>datas'. FdManager_create K fd datas k = Inr (Some c, datas', k') \<and>
    length datas \<le> length datas' \<and> fd_lookup datas' fd = Some c \<and>
    (\<forall>g. g \<noteq> fd \<longrightarrow> fd_lookup datas' g = fd_lookup datas g)"
proof (cases "int (length datas) \<le> fd")
  case False
  with assms show ?thesis
    by (auto simp: FdManager_create_def fd_lookup_def nth_list_update)
next
  case True
  let ?n = "grown_size (nat fd)"
  let ?datas = "vec_resize ?n None datas"
  have big: "2 \<le> length datas" "length datas \<le> nat fd" using assms(1) True by auto
  note cover = fd_datas.grow_covers [OF big]
  have "FdManager_create K fd datas k = Inr (Some c, ?datas[nat fd := Some c], k')"
    using assms True cover by (simp add: FdManager_create_def)
  moreover have "fd_lookup (?datas[nat fd := Some c]) fd = Some c"
    using assms(2) cover by (simp add: fd_lookup_def)
  moreover have "fd_lookup (?datas[nat fd := Some c]) g = fd_lookup datas g" if "g \<noteq> fd" for g
  proof (cases "0 \<le> g \<and> g < int (length datas)")
    case True
    then show ?thesis
      using that cover assms(2) fd_datas.grow_keeps [OF big, of "nat g"]
      by (auto simp: fd_lookup_def nth_list_update)
  next
    case False
    then show ?thesis
      using that assms(2) by (auto simp: fd_lookup_def nth_list_update nth_vec_resize)
  qed
  ultimately show ?thesis using cover(2) by auto
qed

section \<open>Properties\<close>

text \<open>
  C25. The descriptor table is a finite map: on a table of at least the initial 64 entries, \<^verbatim>\<open>get(fd, true)\<close>
  returns for every descriptor \<^verbatim>\<open>fd >= 0\<close> without indexing out of range, gives the existing
  context or installs a fresh one, and changes no other entry; \<^verbatim>\<open>get(fd)\<close> then answers the
  same context, and \<^verbatim>\<open>del\<close> removes exactly that entry. \<^verbatim>\<open>get\<close> never makes the table smaller, and \<^verbatim>\<open>del\<close> keeps its size.
\<close>

theorem FdManager_is_map:
  assumes "64 \<le> length datas" and "0 \<le> fd"
  shows "\<exists>c datas' k'. FdManager_get K fd True datas k = Inr (Some c, datas', k') \<and>
     (case fd_lookup datas fd of Some c' \<Rightarrow> c = c' \<and> datas' = datas \<and> k' = k
      | None \<Rightarrow> (c, k') = FdCtx_new K fd k) \<and>
     length datas \<le> length datas' \<and>
     FdManager_get K fd False datas' k' = Inr (Some c, datas', k') \<and>
     (\<forall>g. g \<noteq> fd \<longrightarrow> fd_lookup datas' g = fd_lookup datas g) \<and>
     (\<exists>datas''. FdManager_del fd datas' = Inr datas'' \<and> length datas'' = length datas' \<and>
        fd_lookup datas'' fd = None \<and> (\<forall>g. g \<noteq> fd \<longrightarrow> fd_lookup datas'' g = fd_lookup datas g))"
proof -
  have del: "\<exists>ds''. FdManager_del fd ds = Inr ds'' \<and> length ds'' = length ds \<and> fd_lookup ds'' fd = None \<and>
      (\<forall>g. g \<noteq> fd \<longrightarrow> fd_lookup ds'' g = fd_lookup ds g)" for ds
    using assms(2) by (auto simp: FdManager_del_def fd_lookup_def nth_list_update)
  show ?thesis
  proof (cases "fd_lookup datas fd")
    case (Some c)
    then have "FdManager_get K fd True datas k = Inr (Some c, datas, k)"
      by (auto simp: fd_lookup_def FdManager_get_def split: if_splits)
    with Some assms del [of datas] show ?thesis by (auto simp: FdManager_get_lookup)
  next
    case None
    obtain c k' where new: "FdCtx_new K fd k = (c, k')" by fastforce
    have get: "FdManager_get K fd True datas k = FdManager_create K fd datas k"
      using None assms(2) by (auto simp: FdManager_get_def fd_lookup_def split: if_splits)
    obtain ds where ds: "FdManager_create K fd datas k = Inr (Some c, ds, k')"
      "length datas \<le> length ds" "fd_lookup ds fd = Some c" "\<forall>g. g \<noteq> fd \<longrightarrow> fd_lookup ds g = fd_lookup datas g"
      using FdManager_create_spec [OF assms new] by blast
    show ?thesis
    proof (rule exI [of _ c], rule exI [of _ ds], rule exI [of _ k'], intro conjI)
      show "FdManager_get K fd True datas k = Inr (Some c, ds, k')" using get ds(1) by simp
      show "case fd_lookup datas fd of Some c' \<Rightarrow> c = c' \<and> ds = datas \<and> k' = k
        | None \<Rightarrow> (c, k') = FdCtx_new K fd k" using None new by simp
      show "length datas \<le> length ds" using ds(2) .
      show "FdManager_get K fd False ds k' = Inr (Some c, ds, k')"
        using ds(3) assms(2) by (simp add: FdManager_get_lookup)
      show "\<forall>g. g \<noteq> fd \<longrightarrow> fd_lookup ds g = fd_lookup datas g" using ds(4) .
      show "\<exists>ds''. FdManager_del fd ds = Inr ds'' \<and> length ds'' = length ds \<and> fd_lookup ds'' fd = None \<and>
          (\<forall>g. g \<noteq> fd \<longrightarrow> fd_lookup ds'' g = fd_lookup datas g)"
        using del [of ds] ds(4) by metis
    qed
  qed
qed

text \<open>A kernel whose state is the flag word of every descriptor, all of them sockets.\<close>

definition flag_kernel :: "(int \<Rightarrow> u32) kernel" where
  "flag_kernel = \<lparr>k_fstat = (\<lambda>fd k. Some True), k_getfl = (\<lambda>fd k. k fd),
     k_setfl = (\<lambda>fd flags k. (0, k(fd := flags)))\<rparr>"

theorem FdManager_is_map_witness:
  "\<exists>c datas' k'. FdManager_get flag_kernel 200 True FdManager_new (\<lambda>_. 0) = Inr (Some c, datas', k') \<and>
     fd_lookup datas' 3 = None"
proof -
  have "64 \<le> length FdManager_new" by (simp add: FdManager_new_def)
  from FdManager_is_map [OF this, of 200 flag_kernel "\<lambda>_. 0"]
  obtain c ds k' where get: "FdManager_get flag_kernel 200 True FdManager_new (\<lambda>_. 0) = Inr (Some c, ds, k')"
    and other: "\<forall>g. g \<noteq> 200 \<longrightarrow> fd_lookup ds g = fd_lookup FdManager_new g" by auto
  have "fd_lookup FdManager_new 3 = None"
    by (simp add: fd_lookup_def FdManager_new_def nth_vec_resize)
  with other have "fd_lookup ds 3 = None" by simp
  with get show ?thesis by blast
qed

text \<open>
  Creating the context of a socket switches the descriptor to non-blocking mode in the
  kernel, whatever its flags were, and keeps its other flags; other files are left alone.
  The kernel is only assumed to store the flags it is given.
\<close>

theorem FdCtx_new_socket_nonblocking:
  assumes "\<And>fd flags k. k_getfl K fd (snd (k_setfl K fd flags k)) = flags"
  shows "case FdCtx_new K fd k of (c, k') \<Rightarrow>
     m_isSocket c = (k_fstat K fd k = Some True) \<and> m_sysNonBlock c = m_isSocket c \<and>
     \<not> m_userNonBlock c \<and> \<not> m_isClosed c \<and>
     (m_isSocket c \<longrightarrow> k_getfl K fd k' = k_getfl K fd k OR O_NONBLOCK) \<and>
     (\<not> m_isSocket c \<longrightarrow> k' = k)"
proof -
  have "O_NONBLOCK = 2 ^ 11" by (simp add: O_NONBLOCK_def)
  then have set: "f OR O_NONBLOCK = f" if "f AND O_NONBLOCK \<noteq> 0" for f :: u32
    using that flag_unset_iff [of f 11] flag_or_idem [of f 11] by simp
  show ?thesis
    using assms set by (auto simp: FdCtx_new_def FdCtx_init_def Let_def split: option.splits)
qed

theorem FdCtx_new_socket_nonblocking_witness:
  "k_getfl flag_kernel 5 (snd (FdCtx_new flag_kernel 5 (\<lambda>_. 2))) = 0x802"
proof -
  have "k_getfl flag_kernel fd (snd (k_setfl flag_kernel fd flags k)) = flags" for fd flags k
    by (simp add: flag_kernel_def)
  from FdCtx_new_socket_nonblocking [OF this, of 5 "\<lambda>_. 2"] show ?thesis
    by (simp add: flag_kernel_def O_NONBLOCK_def split: prod.splits)
qed

end
