(* ===== verification/Hook.thy ===== *)
theory Hook
  imports IOManager FdManager "HOL-Library.Signed_Division"
begin

text \<open>
  \<^verbatim>\<open>sylar/hook.cpp\<close>: the replaced system calls. A hooked call runs until it returns or its fiber
  yields; what it does after the fiber is resumed is a second operation. The original calls
  (\<^verbatim>\<open>read_f\<close>, \<^verbatim>\<open>connect_f\<close> and so on) are parameters: functions of the kernel state that give the
  result, \<^verbatim>\<open>errno\<close> and the new state.
\<close>

unbundle bit_operations_syntax

section \<open>Data\<close>

definition EINTR :: int where "EINTR = 4"
definition EBADF :: int where "EBADF = 9"
definition EAGAIN :: int where "EAGAIN = 11"
definition ETIMEDOUT :: int where "ETIMEDOUT = 110"
definition EINPROGRESS :: int where "EINPROGRESS = 115"

text \<open>
  Callbacks the hooks create: waking a fiber, and the timeout of a call on a descriptor, which
  refers to its \<^verbatim>\<open>TimerInfo\<close> by address.
\<close>

datatype 'u hook_cb = User 'u | ScheduleFiber addr | IoTimeout addr int u32

type_synonym 'u task_cb = "(addr, 'u hook_cb) callback"

text \<open>
  \<open>h_tinfo\<close> holds the live \<^verbatim>\<open>TimerInfo\<close> objects and their \<^verbatim>\<open>cancelled\<close>. \<open>h_io\<close> is the
  \<^verbatim>\<open>IOManager\<close> of the current thread, at address \<open>h_iom\<close>, which is 0 when there is none.
\<close>

record ('u, 'k) hook_env =
  t_hook_enable :: bool
  h_fds :: FdManager
  h_iom :: addr
  h_io :: "'u task_cb IOManager"
  h_tinfo :: "addr \<rightharpoonup> int"
  h_kernel :: 'k

text \<open>A call has returned a value with \<^verbatim>\<open>errno\<close>, or its fiber has yielded, waiting with a timer.\<close>

datatype outcome = Returned int int | Suspended "addr option"

type_synonym 'k syscall = "'k \<Rightarrow> int \<times> int \<times> 'k"

text \<open>
  \<^verbatim>\<open>HOOK_FUNC\<close> lists the replaced functions. The pointers to the originals (\<^verbatim>\<open>read_f\<close>, ...) are null until
  \<^verbatim>\<open>hook_init\<close> looks them up, once.
\<close>

definition HOOK_FUNC :: "string list" where
  "HOOK_FUNC = [''sleep'', ''usleep'', ''nanosleep'', ''socket'', ''connect'', ''accept'', ''read'', ''readv'', ''recv'',
     ''recvfrom'', ''recvmsg'', ''write'', ''writev'', ''send'', ''sendto'', ''sendmsg'', ''close'', ''fcntl'', ''ioctl'',
     ''getsockopt'', ''setsockopt'']"

record originals =
  isInited :: bool
  func_f :: "string \<Rightarrow> addr"

definition originals_start :: originals where
  "originals_start = \<lparr>isInited = False, func_f = (\<lambda>_. 0)\<rparr>"

definition hook_init :: "(string \<Rightarrow> addr) \<Rightarrow> originals \<Rightarrow> originals" where
  "hook_init dlsym orig =
     (if isInited orig then orig
      else \<lparr>isInited = True, func_f = foldl (\<lambda>f name. f(name := dlsym name)) (func_f orig) HOOK_FUNC\<rparr>)"

lemma hook_init_resolves:
  assumes "\<not> isInited orig" "name \<in> set HOOK_FUNC"
  shows "func_f (hook_init dlsym orig) name = dlsym name"
proof -
  have "foldl (\<lambda>f n. f(n := dlsym n)) f ns n = (if n \<in> set ns then dlsym n else f n)" for f ns n
    by (induction ns arbitrary: f) auto
  then show ?thesis using assms by (simp add: hook_init_def)
qed

lemma hook_init_once: "isInited (hook_init dlsym orig) \<and> hook_init dlsym' (hook_init dlsym orig) = hook_init dlsym orig"
  by (simp add: hook_init_def)

definition is_hook_enable :: "('u, 'k) hook_env \<Rightarrow> bool" where
  "is_hook_enable env = t_hook_enable env"

definition set_hook_enable :: "bool \<Rightarrow> ('u, 'k) hook_env \<Rightarrow> ('u, 'k) hook_env" where
  "set_hook_enable flag env = env\<lparr>t_hook_enable := flag\<rparr>"

section \<open>Input and output\<close>

text \<open>\<^verbatim>\<open>n = func(...); while (n == -1 && errno == EINTR) n = func(...);\<close>\<close>

partial_function (option) io_call :: "'k syscall \<Rightarrow> 'k \<Rightarrow> (int \<times> int \<times> 'k) option" where
  "io_call func k =
     (case func k of (n, e, k') \<Rightarrow> if n = - 1 \<and> e = EINTR then io_call func k' else Some (n, e, k'))"

definition call_once :: "'k syscall \<Rightarrow> ('u, 'k) hook_env \<Rightarrow> outcome \<times> ('u, 'k) hook_env" where
  "call_once func env = (case func (h_kernel env) of (n, e, k') \<Rightarrow> (Returned n e, env\<lparr>h_kernel := k'\<rparr>))"

text \<open>\<^verbatim>\<open>iom->addConditionTimer(timeout, ..., wInfo)\<close> of a hooked call; \<open>p\<close> and \<open>ti\<close> are the addresses of
  the timer and of the \<^verbatim>\<open>TimerInfo\<close>.\<close>

definition arm_timeout ::
  "u64 \<Rightarrow> int \<Rightarrow> u32 \<Rightarrow> u64 \<Rightarrow> addr \<Rightarrow> addr \<Rightarrow> ('u, 'k) hook_env \<Rightarrow> addr option \<times> ('u, 'k) hook_env" where
  "arm_timeout timeout fd event now p ti env =
     (if timeout \<noteq> u64_max then
        (let (front, tm) = addConditionTimer timeout (Some (IoTimeout ti fd event)) ti False now p (io_timers (h_io env));
             io = (h_io env)\<lparr>io_timers := tm\<rparr>
         in (Some p, env\<lparr>h_io := if front then onTimerInsertedAtFront io else io\<rparr>))
      else (None, env))"

text \<open>\<^verbatim>\<open>if (timer) timer->cancel();\<close>\<close>

definition cancel_timeout :: "addr option \<Rightarrow> ('u, 'k) hook_env \<Rightarrow> ('u, 'k) hook_env result" where
  "cancel_timeout timer env =
     (case timer of
        None \<Rightarrow> Inr env
      | Some p \<Rightarrow> rbind (Timer_cancel p (io_timers (h_io env))) (\<lambda>(b, tm).
          Inr (env\<lparr>h_io := (h_io env)\<lparr>io_timers := tm\<rparr>\<rparr>)))"

text \<open>
  \<^verbatim>\<open>do_io\<close> from the label \<^verbatim>\<open>retry\<close>; the fiber at \<open>fiber\<close> is running. \<^verbatim>\<open>addEvent\<close> returns a \<^verbatim>\<open>bool\<close>, which is
  stored in an \<^verbatim>\<open>int\<close> and tested for being non-zero.
\<close>

definition do_io_retry ::
  "'k epoll \<Rightarrow> int \<Rightarrow> 'k syscall \<Rightarrow> u32 \<Rightarrow> u64 \<Rightarrow> u64 \<Rightarrow> addr \<Rightarrow> addr \<Rightarrow> addr \<Rightarrow> ('u, 'k) hook_env
   \<Rightarrow> (outcome \<times> ('u, 'k) hook_env) result option" where
  "do_io_retry E fd func event timeout now p ti fiber env =
     (case io_call func (h_kernel env) of
        None \<Rightarrow> None
      | Some (n, e, k') \<Rightarrow>
          (let env0 = env\<lparr>h_kernel := k'\<rparr>
           in Some (if n = - 1 \<and> e = EAGAIN then
                if h_iom env = 0 then Inl (UndefinedBehaviour ''iom is null'')
                else
                  (let (timer, env1) = arm_timeout timeout fd event now p ti env0
                   in rbind (addEvent E (h_iom env) fiber RUNNING fd event None (h_io env1) (h_kernel env1))
                        (\<lambda>(b, io, k'').
                          let ret = (if b then 1 else 0 :: int);
                              env2 = env1\<lparr>h_io := io, h_kernel := k''\<rparr>
                          in if ret \<noteq> 0 then
                               rbind (cancel_timeout timer env2) (\<lambda>env3.
                                 Inr (Returned (- 1) e, env3\<lparr>h_tinfo := (h_tinfo env3)(ti := None)\<rparr>))
                             else Inr (Suspended timer, env2)))
              else Inr (Returned n e, env0\<lparr>h_tinfo := (h_tinfo env0)(ti := None)\<rparr>))))"

definition do_io ::
  "'k kernel \<Rightarrow> 'k epoll \<Rightarrow> int \<Rightarrow> 'k syscall \<Rightarrow> u32 \<Rightarrow> int \<Rightarrow> u64 \<Rightarrow> addr \<Rightarrow> addr \<Rightarrow> addr \<Rightarrow> ('u, 'k) hook_env
   \<Rightarrow> (outcome \<times> ('u, 'k) hook_env) result option" where
  "do_io K E fd func event timeoutSo now p ti fiber env =
     (if \<not> t_hook_enable env then Some (Inr (call_once func env))
      else case FdManager_get K fd False (h_fds env) (h_kernel env) of
        Inl f \<Rightarrow> Some (Inl f)
      | Inr (None, _) \<Rightarrow> Some (Inr (call_once func env))
      | Inr (Some ctx, _) \<Rightarrow>
          if m_isClosed ctx then Some (Inr (Returned (- 1) EBADF, env))
          else if \<not> m_isSocket ctx \<or> m_userNonBlock ctx then Some (Inr (call_once func env))
          else do_io_retry E fd func event (getTimeout timeoutSo ctx) now p ti fiber
                 (env\<lparr>h_tinfo := (h_tinfo env)(ti \<mapsto> 0)\<rparr>))"

text \<open>The rest of \<^verbatim>\<open>do_io\<close> once the fiber runs again.\<close>

definition do_io_resume ::
  "'k epoll \<Rightarrow> int \<Rightarrow> 'k syscall \<Rightarrow> u32 \<Rightarrow> u64 \<Rightarrow> u64 \<Rightarrow> addr \<Rightarrow> addr \<Rightarrow> addr \<Rightarrow> addr option \<Rightarrow> ('u, 'k) hook_env
   \<Rightarrow> (outcome \<times> ('u, 'k) hook_env) result option" where
  "do_io_resume E fd func event timeout now p ti fiber timer env =
     (case cancel_timeout timer env of
        Inl f \<Rightarrow> Some (Inl f)
      | Inr env1 \<Rightarrow>
          (case h_tinfo env1 ti of
             None \<Rightarrow> Some (Inl (UndefinedBehaviour ''dangling TimerInfo''))
           | Some cancelled \<Rightarrow>
               if cancelled \<noteq> 0
               then Some (Inr (Returned (- 1) cancelled, env1\<lparr>h_tinfo := (h_tinfo env1)(ti := None)\<rparr>))
               else do_io_retry E fd func event timeout now p ti fiber env1))"

text \<open>The lambda given to \<^verbatim>\<open>addConditionTimer\<close>, run as a task.\<close>

definition io_timeout ::
  "'k epoll \<Rightarrow> addr \<Rightarrow> int \<Rightarrow> u32 \<Rightarrow> ('u, 'k) hook_env
   \<Rightarrow> ('u task_cb request list \<times> ('u, 'k) hook_env) result" where
  "io_timeout E ti fd event env =
     (case h_tinfo env ti of
        None \<Rightarrow> Inr ([], env)
      | Some cancelled \<Rightarrow>
          if cancelled \<noteq> 0 then Inr ([], env)
          else
            (let env1 = env\<lparr>h_tinfo := (h_tinfo env)(ti \<mapsto> ETIMEDOUT)\<rparr>
             in rbind (cancelEvent E fd event (h_io env1) (h_kernel env1)) (\<lambda>(b, reqs, io, k').
                  Inr (reqs, env1\<lparr>h_io := io, h_kernel := k'\<rparr>))))"

section \<open>The hooked functions over \<open>do_io\<close>\<close>

datatype io_fun = Accept | Read | Readv | Recv | Recvfrom | Recvmsg | Write | Writev | Send | Sendto | Sendmsg

fun io_fun_event :: "io_fun \<Rightarrow> u32 \<times> int" where
  "io_fun_event Accept = (READ, SO_RCVTIMEO)"
| "io_fun_event Read = (READ, SO_RCVTIMEO)"
| "io_fun_event Readv = (READ, SO_RCVTIMEO)"
| "io_fun_event Recv = (READ, SO_RCVTIMEO)"
| "io_fun_event Recvfrom = (READ, SO_RCVTIMEO)"
| "io_fun_event Recvmsg = (READ, SO_RCVTIMEO)"
| "io_fun_event Write = (WRITE, SO_SNDTIMEO)"
| "io_fun_event Writev = (WRITE, SO_SNDTIMEO)"
| "io_fun_event Send = (WRITE, SO_SNDTIMEO)"
| "io_fun_event Sendto = (WRITE, SO_SNDTIMEO)"
| "io_fun_event Sendmsg = (WRITE, SO_SNDTIMEO)"

definition hook_io ::
  "'k kernel \<Rightarrow> 'k epoll \<Rightarrow> io_fun \<Rightarrow> int \<Rightarrow> 'k syscall \<Rightarrow> u64 \<Rightarrow> addr \<Rightarrow> addr \<Rightarrow> addr \<Rightarrow> ('u, 'k) hook_env
   \<Rightarrow> (outcome \<times> ('u, 'k) hook_env) result option" where
  "hook_io K E f fd func now p ti fiber env =
     (case io_fun_event f of (event, timeoutSo) \<Rightarrow> do_io K E fd func event timeoutSo now p ti fiber env)"

text \<open>What \<^verbatim>\<open>accept\<close> and \<^verbatim>\<open>socket\<close> do with the descriptor they obtained.\<close>

definition track_fd :: "'k kernel \<Rightarrow> int \<Rightarrow> ('u, 'k) hook_env \<Rightarrow> ('u, 'k) hook_env result" where
  "track_fd K fd env =
     rbind (FdManager_get K fd True (h_fds env) (h_kernel env)) (\<lambda>(c, fds, k').
       Inr (env\<lparr>h_fds := fds, h_kernel := k'\<rparr>))"

definition accept_done :: "'k kernel \<Rightarrow> int \<Rightarrow> ('u, 'k) hook_env \<Rightarrow> ('u, 'k) hook_env result" where
  "accept_done K fd env = (if fd \<ge> 0 then track_fd K fd env else Inr env)"

definition hook_socket :: "'k kernel \<Rightarrow> 'k syscall \<Rightarrow> ('u, 'k) hook_env \<Rightarrow> (int \<times> ('u, 'k) hook_env) result" where
  "hook_socket K socket_f env =
     (case socket_f (h_kernel env) of (fd, e, k') \<Rightarrow>
        let env1 = env\<lparr>h_kernel := k'\<rparr>
        in if \<not> t_hook_enable env \<or> fd = - 1 then Inr (fd, env1)
           else rbind (track_fd K fd env1) (\<lambda>env2. Inr (fd, env2)))"

section \<open>Sleeping\<close>

text \<open>The milliseconds given to \<^verbatim>\<open>addTimer\<close>, at the widths of the C++ expressions.\<close>

definition sleep_ms :: "u32 \<Rightarrow> u64" where
  "sleep_ms seconds = ucast (seconds * 1000)"

definition usleep_ms :: "u32 \<Rightarrow> u64" where
  "usleep_ms usec = ucast (usec div 1000)"

text \<open>\<^verbatim>\<open>tv_sec\<close> and \<^verbatim>\<open>tv_nsec\<close> are 64-bit signed; the sum is stored in an \<^verbatim>\<open>int\<close>.\<close>

definition nanosleep_ms :: "int \<Rightarrow> int \<Rightarrow> u64" where
  "nanosleep_ms tv_sec tv_nsec =
     scast (word_of_int (tv_sec * 1000 + tv_nsec sdiv 1000 sdiv 1000) :: u32)"

text \<open>
  The common body: a timer that schedules the current fiber, then \<^verbatim>\<open>yield\<close>. Without an
  \<^verbatim>\<open>IOManager\<close> on the thread the call dereferences null.
\<close>

definition sleep_for :: "u64 \<Rightarrow> u64 \<Rightarrow> addr \<Rightarrow> addr \<Rightarrow> ('u, 'k) hook_env \<Rightarrow> (outcome \<times> ('u, 'k) hook_env) result" where
  "sleep_for ms now p fiber env =
     (if h_iom env = 0 then Inl (UndefinedBehaviour ''iom is null'')
      else
        (let (front, tm) = addTimer ms (Some (Plain (ScheduleFiber fiber))) False now p (io_timers (h_io env));
             io = (h_io env)\<lparr>io_timers := tm\<rparr>
         in Inr (Suspended (Some p), env\<lparr>h_io := if front then onTimerInsertedAtFront io else io\<rparr>)))"

definition hook_sleep ::
  "'k syscall \<Rightarrow> u32 \<Rightarrow> u64 \<Rightarrow> addr \<Rightarrow> addr \<Rightarrow> ('u, 'k) hook_env \<Rightarrow> (outcome \<times> ('u, 'k) hook_env) result" where
  "hook_sleep sleep_f seconds now p fiber env =
     (if \<not> t_hook_enable env then Inr (call_once sleep_f env) else sleep_for (sleep_ms seconds) now p fiber env)"

definition hook_usleep ::
  "'k syscall \<Rightarrow> u32 \<Rightarrow> u64 \<Rightarrow> addr \<Rightarrow> addr \<Rightarrow> ('u, 'k) hook_env \<Rightarrow> (outcome \<times> ('u, 'k) hook_env) result" where
  "hook_usleep usleep_f usec now p fiber env =
     (if \<not> t_hook_enable env then Inr (call_once usleep_f env) else sleep_for (usleep_ms usec) now p fiber env)"

definition hook_nanosleep ::
  "'k syscall \<Rightarrow> int \<Rightarrow> int \<Rightarrow> u64 \<Rightarrow> addr \<Rightarrow> addr \<Rightarrow> ('u, 'k) hook_env \<Rightarrow> (outcome \<times> ('u, 'k) hook_env) result" where
  "hook_nanosleep nanosleep_f tv_sec tv_nsec now p fiber env =
     (if \<not> t_hook_enable env then Inr (call_once nanosleep_f env)
      else sleep_for (nanosleep_ms tv_sec tv_nsec) now p fiber env)"

section \<open>Connecting\<close>

text \<open>The end of \<^verbatim>\<open>connect_with_timeout\<close>: \<open>so_error\<close> is \<^verbatim>\<open>getsockopt(SO_ERROR)\<close>, result, \<^verbatim>\<open>errno\<close> and \<^verbatim>\<open>error\<close>.\<close>

definition connect_result :: "int \<times> int \<times> int \<Rightarrow> outcome" where
  "connect_result so_error =
     (case so_error of (n, e, error) \<Rightarrow>
        if n = - 1 then Returned (- 1) e
        else if error = 0 then Returned 0 e else Returned (- 1) error)"

definition connect_with_timeout ::
  "'k kernel \<Rightarrow> 'k epoll \<Rightarrow> int \<Rightarrow> 'k syscall \<Rightarrow> ('k \<Rightarrow> int \<times> int \<times> int) \<Rightarrow> u64 \<Rightarrow> u64 \<Rightarrow> addr \<Rightarrow> addr \<Rightarrow> addr
   \<Rightarrow> ('u, 'k) hook_env \<Rightarrow> (outcome \<times> ('u, 'k) hook_env) result" where
  "connect_with_timeout K E fd connect_f so_error timeoutMs now p ti fiber env =
     (if \<not> t_hook_enable env then Inr (call_once connect_f env)
      else rbind (FdManager_get K fd False (h_fds env) (h_kernel env)) (\<lambda>(c, _).
        case c of
          None \<Rightarrow> Inr (Returned (- 1) EBADF, env)
        | Some ctx \<Rightarrow>
            if m_isClosed ctx then Inr (Returned (- 1) EBADF, env)
            else if \<not> m_isSocket ctx \<or> m_userNonBlock ctx then Inr (call_once connect_f env)
            else (case connect_f (h_kernel env) of (n, e, k') \<Rightarrow>
              let env0 = env\<lparr>h_kernel := k'\<rparr>
              in if n = 0 then Inr (Returned 0 e, env0)
                 else if n \<noteq> - 1 \<or> e \<noteq> EINPROGRESS then Inr (Returned n e, env0)
                 else if h_iom env = 0 then Inl (UndefinedBehaviour ''iom is null'')
                 else
                   (let (timer, env1) = arm_timeout timeoutMs fd WRITE now p ti (env0\<lparr>h_tinfo := (h_tinfo env0)(ti \<mapsto> 0)\<rparr>)
                    in rbind (addEvent E (h_iom env) fiber RUNNING fd WRITE None (h_io env1) (h_kernel env1))
                         (\<lambda>(b, io, k'').
                           let ret = (if b then 1 else 0 :: int);
                               env2 = env1\<lparr>h_io := io, h_kernel := k''\<rparr>
                           in if ret = 0 then Inr (Suspended timer, env2)
                              else rbind (cancel_timeout timer env2) (\<lambda>env3.
                                Inr (connect_result (so_error k''),
                                     env3\<lparr>h_tinfo := (h_tinfo env3)(ti := None)\<rparr>)))))))"

text \<open>\<^verbatim>\<open>connect_with_timeout\<close> once its fiber runs again.\<close>

definition connect_resume ::
  "('k \<Rightarrow> int \<times> int \<times> int) \<Rightarrow> addr \<Rightarrow> addr option \<Rightarrow> ('u, 'k) hook_env \<Rightarrow> (outcome \<times> ('u, 'k) hook_env) result" where
  "connect_resume so_error ti timer env =
     rbind (cancel_timeout timer env) (\<lambda>env1.
       case h_tinfo env1 ti of
         None \<Rightarrow> Inl (UndefinedBehaviour ''dangling TimerInfo'')
       | Some cancelled \<Rightarrow>
           Inr (if cancelled \<noteq> 0 then Returned (- 1) cancelled else connect_result (so_error (h_kernel env1)),
                env1\<lparr>h_tinfo := (h_tinfo env1)(ti := None)\<rparr>))"

section \<open>Descriptors\<close>

definition hook_close ::
  "'k kernel \<Rightarrow> 'k epoll \<Rightarrow> int \<Rightarrow> 'k syscall \<Rightarrow> ('u, 'k) hook_env
   \<Rightarrow> (outcome \<times> 'u task_cb request list \<times> ('u, 'k) hook_env) result" where
  "hook_close K E fd close_f env =
     (let finish = (\<lambda>reqs env. case call_once close_f env of (out, env') \<Rightarrow> Inr (out, reqs, env'))
      in if \<not> t_hook_enable env then finish [] env
         else rbind (FdManager_get K fd False (h_fds env) (h_kernel env)) (\<lambda>(c, _).
           if c = None then finish [] env
           else
             rbind (if h_iom env \<noteq> 0 then cancelAll E fd (h_io env) (h_kernel env)
                    else Inr (False, [], h_io env, h_kernel env)) (\<lambda>(b, reqs, io, k').
             rbind (FdManager_del fd (h_fds env)) (\<lambda>fds.
               finish reqs (env\<lparr>h_io := io, h_kernel := k', h_fds := fds\<rparr>)))))"

text \<open>Writing a context back through the pointer that \<^verbatim>\<open>get\<close> returned.\<close>

definition put_fdctx :: "int \<Rightarrow> FdCtx \<Rightarrow> ('u, 'k) hook_env \<Rightarrow> ('u, 'k) hook_env" where
  "put_fdctx fd c env = env\<lparr>h_fds := (h_fds env)[nat fd := Some c]\<rparr>"

definition is_live_socket :: "FdCtx option \<Rightarrow> bool" where
  "is_live_socket c = (case c of None \<Rightarrow> False | Some ctx \<Rightarrow> \<not> m_isClosed ctx \<and> m_isSocket ctx)"

text \<open>\<^verbatim>\<open>fcntl\<close> with \<^verbatim>\<open>F_SETFL\<close> and \<^verbatim>\<open>F_GETFL\<close>; the other commands pass their argument on.\<close>

definition fcntl_setfl :: "'k kernel \<Rightarrow> int \<Rightarrow> u32 \<Rightarrow> ('u, 'k) hook_env \<Rightarrow> (int \<times> ('u, 'k) hook_env) result" where
  "fcntl_setfl K fd arg env =
     rbind (FdManager_get K fd False (h_fds env) (h_kernel env)) (\<lambda>(c, _).
       if \<not> is_live_socket c then
         (case k_setfl K fd arg (h_kernel env) of (r, k') \<Rightarrow> Inr (r, env\<lparr>h_kernel := k'\<rparr>))
       else
         (let ctx = (the c)\<lparr>m_userNonBlock := (arg AND O_NONBLOCK \<noteq> 0)\<rparr>;
              arg' = (if m_sysNonBlock ctx then arg OR O_NONBLOCK else arg AND NOT O_NONBLOCK)
          in case k_setfl K fd arg' (h_kernel env) of (r, k') \<Rightarrow>
               Inr (r, put_fdctx fd ctx (env\<lparr>h_kernel := k'\<rparr>))))"

definition fcntl_getfl :: "'k kernel \<Rightarrow> int \<Rightarrow> ('u, 'k) hook_env \<Rightarrow> u32 result" where
  "fcntl_getfl K fd env =
     (let arg = k_getfl K fd (h_kernel env)
      in rbind (FdManager_get K fd False (h_fds env) (h_kernel env)) (\<lambda>(c, _).
           if \<not> is_live_socket c then Inr arg
           else Inr (if m_userNonBlock (the c) then arg OR O_NONBLOCK else arg AND NOT O_NONBLOCK)))"

text \<open>\<^verbatim>\<open>ioctl(d, FIONBIO, &val)\<close>; \<open>ioctl_f\<close> is the original call.\<close>

definition ioctl_fionbio ::
  "'k kernel \<Rightarrow> int \<Rightarrow> int \<Rightarrow> 'k syscall \<Rightarrow> ('u, 'k) hook_env \<Rightarrow> (outcome \<times> ('u, 'k) hook_env) result" where
  "ioctl_fionbio K fd val ioctl_f env =
     rbind (FdManager_get K fd False (h_fds env) (h_kernel env)) (\<lambda>(c, _).
       if \<not> is_live_socket c then Inr (call_once ioctl_f env)
       else Inr (call_once ioctl_f (put_fdctx fd ((the c)\<lparr>m_userNonBlock := (val \<noteq> 0)\<rparr>) env)))"

text \<open>\<^verbatim>\<open>setsockopt(sockfd, SOL_SOCKET, optname, &tv)\<close> for a timeout option.\<close>

definition setsockopt_timeout ::
  "'k kernel \<Rightarrow> int \<Rightarrow> int \<Rightarrow> int \<Rightarrow> int \<Rightarrow> 'k syscall \<Rightarrow> ('u, 'k) hook_env \<Rightarrow> (outcome \<times> ('u, 'k) hook_env) result" where
  "setsockopt_timeout K fd optname tv_sec tv_usec setsockopt_f env =
     (if \<not> t_hook_enable env \<or> optname \<noteq> SO_RCVTIMEO \<and> optname \<noteq> SO_SNDTIMEO then Inr (call_once setsockopt_f env)
      else rbind (FdManager_get K fd False (h_fds env) (h_kernel env)) (\<lambda>(c, _).
        Inr (call_once setsockopt_f
          (case c of
             None \<Rightarrow> env
           | Some ctx \<Rightarrow> put_fdctx fd (setTimeout optname (word_of_int (tv_sec * 1000 + tv_usec sdiv 1000)) ctx) env))))"

text \<open>
  The whole of \<^verbatim>\<open>fcntl\<close>: commands with an argument pass it on, all others call the original without
  one. \<open>fcntl_f\<close> is the original for these.
\<close>

definition F_SETFL :: int where "F_SETFL = 4"
definition F_GETFL :: int where "F_GETFL = 3"

text \<open>
  \<^verbatim>\<open>F_DUPFD\<close>, \<^verbatim>\<open>F_DUPFD_CLOEXEC\<close>, \<^verbatim>\<open>F_SETFD\<close>, \<^verbatim>\<open>F_SETOWN\<close>, \<^verbatim>\<open>F_SETSIG\<close>, \<^verbatim>\<open>F_SETLEASE\<close>, \<^verbatim>\<open>F_NOTIFY\<close>, \<^verbatim>\<open>F_SETPIPE_SZ\<close>
  take an \<^verbatim>\<open>int\<close>; \<^verbatim>\<open>F_GETFD\<close>, \<^verbatim>\<open>F_GETOWN\<close>, \<^verbatim>\<open>F_GETSIG\<close>, \<^verbatim>\<open>F_GETLEASE\<close>, \<^verbatim>\<open>F_GETPIPE_SZ\<close> nothing;
  \<^verbatim>\<open>F_SETLK\<close>, \<^verbatim>\<open>F_SETLKW\<close>, \<^verbatim>\<open>F_GETLK\<close>, \<^verbatim>\<open>F_GETOWN_EX\<close>, \<^verbatim>\<open>F_SETOWN_EX\<close> a pointer.
\<close>

definition fcntl_int_commands :: "int list" where
  "fcntl_int_commands = [0, 1030, 2, 8, 10, 1024, 1026, 1031]"

definition fcntl_void_commands :: "int list" where
  "fcntl_void_commands = [1, 9, 11, 1025, 1032]"

definition fcntl_pointer_commands :: "int list" where
  "fcntl_pointer_commands = [6, 7, 5, 16, 15]"

definition hook_fcntl ::
  "'k kernel \<Rightarrow> (int \<Rightarrow> u64 option \<Rightarrow> 'k syscall) \<Rightarrow> int \<Rightarrow> int \<Rightarrow> u64 \<Rightarrow> ('u, 'k) hook_env
   \<Rightarrow> (int \<times> ('u, 'k) hook_env) result" where
  "hook_fcntl K fcntl_f fd cmd arg env =
     (let original = (\<lambda>a. case fcntl_f cmd a (h_kernel env) of (n, e, k') \<Rightarrow> Inr (n, env\<lparr>h_kernel := k'\<rparr>))
      in if cmd = F_SETFL then fcntl_setfl K fd (ucast arg) env
         else if cmd = F_GETFL then rbind (fcntl_getfl K fd env) (\<lambda>flags. Inr (sint flags, env))
         else if cmd \<in> set fcntl_int_commands then original (Some (ucast (ucast arg :: u32)))
         else if cmd \<in> set fcntl_void_commands then original None
         else if cmd \<in> set fcntl_pointer_commands then original (Some arg)
         else original None)"

text \<open>\<^verbatim>\<open>ioctl\<close> reads its argument as an \<^verbatim>\<open>int\<close> only for \<^verbatim>\<open>FIONBIO\<close>.\<close>

definition FIONBIO :: u64 where "FIONBIO = 0x5421"

definition hook_ioctl ::
  "'k kernel \<Rightarrow> int \<Rightarrow> u64 \<Rightarrow> int \<Rightarrow> 'k syscall \<Rightarrow> ('u, 'k) hook_env \<Rightarrow> (outcome \<times> ('u, 'k) hook_env) result" where
  "hook_ioctl K fd request val ioctl_f env =
     (if FIONBIO = request then ioctl_fionbio K fd val ioctl_f env else Inr (call_once ioctl_f env))"

definition SOL_SOCKET :: int where "SOL_SOCKET = 1"

definition hook_getsockopt :: "'k syscall \<Rightarrow> ('u, 'k) hook_env \<Rightarrow> outcome \<times> ('u, 'k) hook_env" where
  "hook_getsockopt getsockopt_f env = call_once getsockopt_f env"

definition hook_setsockopt ::
  "'k kernel \<Rightarrow> int \<Rightarrow> int \<Rightarrow> int \<Rightarrow> int \<Rightarrow> int \<Rightarrow> 'k syscall \<Rightarrow> ('u, 'k) hook_env
   \<Rightarrow> (outcome \<times> ('u, 'k) hook_env) result" where
  "hook_setsockopt K fd level optname tv_sec tv_usec setsockopt_f env =
     (if level = SOL_SOCKET then setsockopt_timeout K fd optname tv_sec tv_usec setsockopt_f env
      else Inr (call_once setsockopt_f env))"

section \<open>Lemmas\<close>

text \<open>A call that is interrupted finitely often returns what the last attempt returned.\<close>

fun interrupted :: "nat \<Rightarrow> 'k syscall \<Rightarrow> 'k \<Rightarrow> 'k \<Rightarrow> bool" where
  "interrupted 0 func k k' \<longleftrightarrow> k' = k"
| "interrupted (Suc n) func k k' \<longleftrightarrow> (\<exists>k1. func k = (- 1, EINTR, k1) \<and> interrupted n func k1 k')"

lemma io_call_returns:
  assumes "interrupted j func k k1" and "func k1 = (n, e, k')" and "\<not> (n = - 1 \<and> e = EINTR)"
  shows "io_call func k = Some (n, e, k')"
  using assms
proof (induction j arbitrary: k)
  case 0
  then show ?case by (subst io_call.simps) auto
next
  case (Suc j)
  then show ?case by (subst io_call.simps) auto
qed

lemma fd_get_known:
  assumes "fd_lookup fds fd = Some ctx"
  shows "FdManager_get K fd False fds k = Inr (Some ctx, fds, k)" and "0 \<le> fd" and "nat fd < length fds"
  using assms by (auto simp: FdManager_get_def fd_lookup_def split: if_splits)

lemma fd_lookup_update:
  "fd_lookup fds fd = Some ctx \<Longrightarrow> fd_lookup (fds[nat fd := c]) g = (if g = fd then c else fd_lookup fds g)"
  by (auto simp: fd_lookup_def nth_list_update split: if_splits)

section \<open>Properties\<close>

text \<open>
  C34. A hooked call on a socket that would block. \<^verbatim>\<open>do_io\<close> means to register the fiber and yield,
  but it takes the \<^verbatim>\<open>true\<close> of a successful \<^verbatim>\<open>addEvent\<close> for an error: when \<^verbatim>\<open>epoll_ctl\<close> succeeds the
  call returns -1 with \<^verbatim>\<open>EAGAIN\<close> at once and leaves the running fiber registered, so the next call that
  would block on the same descriptor aborts in \<^verbatim>\<open>addEvent\<close>. When \<^verbatim>\<open>epoll_ctl\<close> fails the fiber yields
  although nothing is registered to resume it.
\<close>

theorem do_io_waits_only_on_failure:
  assumes en: "t_hook_enable env" and ctx: "fd_lookup (h_fds env) fd = Some ctx"
    and sock: "\<not> m_isClosed ctx" "m_isSocket ctx" "\<not> m_userNonBlock ctx" "getTimeout so ctx = u64_max"
    and call: "io_call func (h_kernel env) = Some (- 1, EAGAIN, k')"
    and io: "h_iom env \<noteq> 0" "io_inv (h_io env)" "event \<in> {READ, WRITE}" "registered (h_io env) fd event = None"
      "fiber \<noteq> 0"
  shows "\<exists>ok env'. do_io K E fd func event so now p ti fiber env =
      Some (Inr (if ok then Returned (- 1) EAGAIN else Suspended None, env')) \<and>
    (\<exists>op ev. fst (ep_ctl E op fd ev k') = ok) \<and>
    registered (h_io env') fd event =
      (if ok then Some \<lparr>ec_scheduler = h_iom env, ec_fiber = fiber, ec_cb = None\<rparr> else None) \<and>
    (ok \<longrightarrow> (\<forall>k''. io_call func (h_kernel env') = Some (- 1, EAGAIN, k'') \<longrightarrow>
       do_io K E fd func event so now p ti fiber env' =
         Some (Inl (AssertFailed ''!(fdCtx->m_events & event)''))))"
proof -
  note known = fd_get_known(1) [OF ctx]
  have ev: "event = READ \<or> event = WRITE" using io(3) by simp
  have fd: "0 \<le> fd" by (rule fd_get_known(2) [OF ctx])
  let ?e = "\<lparr>ec_scheduler = h_iom env, ec_fiber = fiber, ec_cb = None :: 'a task_cb option\<rparr>"
  let ?m = "m_events (ctx_of (h_io env) fd)"
  obtain ok k'' where ctl: "ep_ctl E (if ?m \<noteq> 0 then EPOLL_CTL_MOD else EPOLL_CTL_ADD) fd (EPOLLET OR ?m OR event) k' = (ok, k'')"
    by fastforce
  have add: "addEvent E (h_iom env) fiber RUNNING fd event None (h_io env) k' =
      Inr (ok, if ok then enroll fd event ?e (h_io env) else covering fd (h_io env), k'')"
    using addEvent_eq [OF io(2) fd ev io(4), of None RUNNING E "h_iom env" fiber k'] ctl by (simp add: Let_def)
  have reg: "registered (enroll fd event ?e (h_io env)) fd event = Some ?e"
    using enroll_registered [OF io(2) fd ev ev] by simp
  let ?env' = "env\<lparr>h_io := if ok then enroll fd event ?e (h_io env) else covering fd (h_io env), h_kernel := k'',
      h_tinfo := if ok then (h_tinfo env)(ti := None) else (h_tinfo env)(ti \<mapsto> 0)\<rparr>"
  have first: "do_io K E fd func event so now p ti fiber env =
      Some (Inr (if ok then Returned (- 1) EAGAIN else Suspended None, ?env'))"
    using en sock call io(1) add
    by (simp add: known do_io_def do_io_retry_def arm_timeout_def cancel_timeout_def Let_def)
  have again: "do_io K E fd func event so now p ti fiber ?env' = Some (Inl (AssertFailed ''!(fdCtx->m_events & event)''))"
    if "ok" "io_call func k'' = Some (- 1, EAGAIN, k3)" for k3
  proof -
    note r = registered_in_range [OF reg]
    have "addEvent E (h_iom env) fiber RUNNING fd event None (enroll fd event ?e (h_io env)) k3 =
        Inl (AssertFailed ''!(fdCtx->m_events & event)'')"
      using r by (auto simp: addEvent_def ctx_at_def ctx_of_def Let_def)
    then show ?thesis
      using en sock that io(1)
      by (simp add: known do_io_def do_io_retry_def arm_timeout_def Let_def)
  qed
  have ctl': "\<exists>op ev. fst (ep_ctl E op fd ev k') = ok" using ctl by (metis fst_conv)
  show ?thesis
    using first again ctl' reg covering_registered [OF io(2)] io(4)
    by (intro exI [of _ ok] exI [of _ ?env']) auto
qed

text \<open>
  A thread on the manager at address 10 with descriptor 7 a socket known to the table; the kernel
  state pairs the descriptor flags with the watched events.
\<close>

definition sock_ctx :: FdCtx where
  "sock_ctx = \<lparr>m_isInit = True, m_isSocket = True, m_sysNonBlock = True, m_userNonBlock = False,
     m_isClosed = False, m_fd = 7, m_recvTimeout = u64_max, m_sendTimeout = u64_max\<rparr>"

definition hook_io_start :: "bool task_cb IOManager" where
  "hook_io_start = (case IOManager_new 2 False 10 0 11 100 3 0 0 0 int 0 of Inr (io, _) \<Rightarrow> io)"

lemma hook_io_start_new: "IOManager_new 2 False 10 0 11 100 3 0 0 0 int 0 = Inr (hook_io_start, 0)"
  by (simp add: hook_io_start_def IOManager_new_def Scheduler_new_def start_def Let_def)

lemmas hook_io_start_inv = IOManager_new_fresh(1) [OF hook_io_start_new]
lemmas hook_io_start_free = IOManager_new_fresh(3) [OF hook_io_start_new]

definition sock_env :: "(bool, int \<rightharpoonup> u32) hook_env" where
  "sock_env = \<lparr>t_hook_enable = True, h_fds = FdManager_new[7 := Some sock_ctx], h_iom = 10, h_io = hook_io_start,
     h_tinfo = Map.empty, h_kernel = Map.empty\<rparr>"

definition sock_kernel :: "(int \<rightharpoonup> u32) kernel" where
  "sock_kernel = \<lparr>k_fstat = (\<lambda>fd k. Some True), k_getfl = (\<lambda>fd k. 0), k_setfl = (\<lambda>fd flags k. (0, k))\<rparr>"

lemma map_epoll_fst [simp]: "fst (ep_ctl map_epoll op fd ev k)"
  by (simp add: map_epoll_def)

lemma sock_env_simps:
  "t_hook_enable sock_env" "h_iom sock_env = 10" "h_io sock_env = hook_io_start" "h_kernel sock_env = Map.empty"
  "fd_lookup (h_fds sock_env) 7 = Some sock_ctx"
  by (simp_all add: sock_env_def fd_lookup_def FdManager_new_def)

definition would_block :: "'k syscall" where
  "would_block k = (- 1, EAGAIN, k)"

lemma io_call_would_block: "io_call would_block k = Some (- 1, EAGAIN, k)"
  by (rule io_call_returns [of 0]) (simp_all add: would_block_def EAGAIN_def EINTR_def)

theorem do_io_waits_only_on_failure_witness:
  "\<exists>env'. do_io sock_kernel map_epoll 7 would_block READ SO_RCVTIMEO 0 1 2 8 sock_env = Some (Inr (Returned (- 1) EAGAIN, env')) \<and>
     do_io sock_kernel map_epoll 7 would_block READ SO_RCVTIMEO 0 1 2 8 env' = Some (Inl (AssertFailed ''!(fdCtx->m_events & event)''))"
proof -
  have "\<not> m_isClosed sock_ctx" "m_isSocket sock_ctx" "\<not> m_userNonBlock sock_ctx" "getTimeout SO_RCVTIMEO sock_ctx = u64_max"
    by (simp_all add: sock_ctx_def getTimeout_def)
  from do_io_waits_only_on_failure [where K = sock_kernel and E = map_epoll and event = READ and fiber = 8
      and now = 0 and p = 1 and ti = 2, OF sock_env_simps(1,5) this io_call_would_block]
  show ?thesis
    by (auto simp: sock_env_simps hook_io_start_inv hook_io_start_free io_call_would_block)
qed

text \<open>
  C23. \<^verbatim>\<open>close\<close> of a tracked descriptor in a hooked thread drops its context, wakes every fiber or
  callback waiting on it exactly once, readers first, and leaves nothing registered for it, before
  the original \<^verbatim>\<open>close\<close> is called once and gives the result; contexts of other descriptors stay. (When
  \<^verbatim>\<open>epoll_ctl\<close> refuses, registrations stay as they are.)
\<close>

theorem hook_close_releases:
  assumes en: "t_hook_enable env" and ctx: "fd_lookup (h_fds env) fd = Some ctx"
    and io: "h_iom env \<noteq> 0" "io_inv (h_io env)" and ctl: "\<And>op ev k. fst (ep_ctl E op fd ev k)"
  shows "\<exists>n e reqs env'. hook_close K E fd close_f env = Inr (Returned n e, reqs, env') \<and>
    (\<exists>k. close_f k = (n, e, h_kernel env')) \<and>
    reqs = map wake (List.map_filter (registered (h_io env) fd) [READ, WRITE]) \<and>
    io_inv (h_io env') \<and> registered (h_io env') fd READ = None \<and> registered (h_io env') fd WRITE = None \<and>
    (\<forall>g. fd_lookup (h_fds env') g = (if g = fd then None else fd_lookup (h_fds env) g))"
proof -
  note known = fd_get_known [OF ctx]
  let ?m = "m_events (ctx_of (h_io env) fd)"
  have inv: "io_inv (h_io env)" and fd: "0 \<le> fd" using io(2) known(2) by simp_all
  obtain k' where k': "ep_ctl E EPOLL_CTL_DEL fd NONE (h_kernel env) = (True, k')"
    using ctl [of EPOLL_CTL_DEL NONE "h_kernel env"] by (metis prod.collapse)
  let ?io = "if ?m = 0 then h_io env else unregister_all fd ?m (h_io env)"
  let ?k = "if ?m = 0 then h_kernel env else k'"
  obtain n e k2 where close: "close_f ?k = (n, e, k2)" by (cases "close_f ?k")
  have gone: "io_inv ?io" "registered ?io fd READ = None" "registered ?io fd WRITE = None"
    using inv unregister_everything [OF inv fd] no_events_iff [OF inv fd] by auto
  note reqs = wakes_all [OF fd, of "h_io env"]
  have none: "?m = 0 \<Longrightarrow> wakes (h_io env) fd ?m = []" by (simp add: wakes_def)
  have all: "\<exists>b. cancelAll E fd (h_io env) (h_kernel env) = Inr (b, wakes (h_io env) fd ?m, ?io, ?k)"
    using k' none by (auto simp: cancelAll_eq [OF inv fd] Let_def)
  have del: "FdManager_del fd (h_fds env) = Inr ((h_fds env)[nat fd := None])"
    using known(2,3) by (auto simp: FdManager_del_def)
  have "hook_close K E fd close_f env = Inr (Returned n e, wakes (h_io env) fd ?m,
      env\<lparr>h_io := ?io, h_kernel := k2, h_fds := (h_fds env)[nat fd := None]\<rparr>)"
    using all en io(1) del close by (auto simp: hook_close_def known(1) call_once_def Let_def)
  then show ?thesis
    using gone reqs close fd_lookup_update [OF ctx, of None]
    by (intro exI [of _ n] exI [of _ e] exI [of _ "wakes (h_io env) fd ?m"]
        exI [of _ "env\<lparr>h_io := ?io, h_kernel := k2, h_fds := (h_fds env)[nat fd := None]\<rparr>"]) auto
qed

theorem hook_close_releases_witness:
  "\<exists>n e env'. hook_close sock_kernel map_epoll 7 (\<lambda>k. (0, 0, k)) (sock_env\<lparr>h_io := enroll 7 READ
       \<lparr>ec_scheduler = 10, ec_fiber = 8, ec_cb = None\<rparr> hook_io_start\<rparr>) = Inr (Returned n e, [(10, Task_fiber 8 (- 1))], env') \<and>
     fd_lookup (h_fds env') 7 = None"
proof -
  let ?e = "\<lparr>ec_scheduler = 10, ec_fiber = 8, ec_cb = None :: bool task_cb option\<rparr>"
  let ?env = "sock_env\<lparr>h_io := enroll 7 READ ?e hook_io_start\<rparr>"
  have inv: "io_inv (h_io ?env)"
    by (simp, rule enroll_inv [OF hook_io_start_inv _ _ hook_io_start_free]) (simp_all add: waiting_def)
  have reg: "registered (h_io ?env) 7 READ = Some ?e" "registered (h_io ?env) 7 WRITE = None"
    by (simp_all add: enroll_registered [OF hook_io_start_inv] hook_io_start_free)
  have env: "t_hook_enable ?env" "fd_lookup (h_fds ?env) 7 = Some sock_ctx" "h_iom ?env \<noteq> 0"
    using sock_env_simps by simp_all
  show ?thesis
    using hook_close_releases [OF env inv map_epoll_fst, of sock_kernel "\<lambda>k. (0, 0, k)"] unfolding map_filter_simps reg
    by (auto simp: wake_def)
qed

lemma nonblock_bit: "O_NONBLOCK = 2 ^ 11"
  by (simp add: O_NONBLOCK_def)

text \<open>
  \<^verbatim>\<open>fcntl\<close> keeps two views of the non-blocking flag of a tracked socket: after \<^verbatim>\<open>F_SETFL\<close> with any
  flags, \<^verbatim>\<open>F_GETFL\<close> gives back exactly these flags, while the descriptor stays non-blocking in the
  kernel; whether the hooks wait on it follows the user's flag. The kernel is only assumed to return
  the flags it was given.
\<close>

theorem fcntl_flags_virtualised:
  assumes ctx: "fd_lookup (h_fds env) fd = Some ctx" "\<not> m_isClosed ctx" "m_isSocket ctx" "m_sysNonBlock ctx"
    and K: "\<And>flags k. k_getfl K fd (snd (k_setfl K fd flags k)) = flags"
  shows "\<exists>r env'. fcntl_setfl K fd arg env = Inr (r, env') \<and> fcntl_getfl K fd env' = Inr arg \<and>
    k_getfl K fd (h_kernel env') AND O_NONBLOCK \<noteq> 0 \<and>
    (\<forall>g. fd_lookup (h_fds env') g =
       (if g = fd then Some (ctx\<lparr>m_userNonBlock := (arg AND O_NONBLOCK \<noteq> 0)\<rparr>) else fd_lookup (h_fds env) g))"
proof -
  let ?ctx = "ctx\<lparr>m_userNonBlock := (arg AND O_NONBLOCK \<noteq> 0)\<rparr>"
  obtain r k' where set: "k_setfl K fd (arg OR O_NONBLOCK) (h_kernel env) = (r, k')" by fastforce
  let ?env' = "put_fdctx fd ?ctx (env\<lparr>h_kernel := k'\<rparr>)"
  have live: "is_live_socket (Some ctx)" using ctx by (simp add: is_live_socket_def)
  have fl: "k_getfl K fd k' = arg OR O_NONBLOCK" using K [of "arg OR O_NONBLOCK" "h_kernel env"] set by simp
  have "fcntl_setfl K fd arg env = Inr (r, ?env')"
    using live set ctx(4) by (simp add: fcntl_setfl_def fd_get_known(1) [OF ctx(1)] Let_def)
  moreover have look: "fd_lookup (h_fds ?env') g = (if g = fd then Some ?ctx else fd_lookup (h_fds env) g)" for g
    using fd_lookup_update [OF ctx(1), of "Some ?ctx" g] by (simp add: put_fdctx_def)
  moreover have "fcntl_getfl K fd ?env' = Inr arg"
  proof -
    have "fd_lookup (h_fds ?env') fd = Some ?ctx" using look by simp
    note get = fd_get_known(1) [OF this]
    have "h_kernel ?env' = k'" by (simp add: put_fdctx_def)
    moreover have "is_live_socket (Some ?ctx)" using ctx by (simp add: is_live_socket_def)
    moreover have "arg AND O_NONBLOCK \<noteq> 0 \<Longrightarrow> arg OR O_NONBLOCK OR O_NONBLOCK = arg"
      "arg AND O_NONBLOCK = 0 \<Longrightarrow> (arg OR O_NONBLOCK) AND NOT O_NONBLOCK = arg"
      unfolding nonblock_bit flag_unset_iff by (simp_all add: flag_or_idem flag_set_clear del: power_numeral)
    ultimately show ?thesis using fl by (auto simp: fcntl_getfl_def get Let_def)
  qed
  moreover have "(arg OR O_NONBLOCK) AND O_NONBLOCK \<noteq> 0"
    using flag_unset_iff [of "arg OR O_NONBLOCK" 11] by (simp add: nonblock_bit bit_simps)
  ultimately show ?thesis using fl by (auto simp: put_fdctx_def)
qed

theorem fcntl_flags_virtualised_witness:
  "\<exists>r env'. fcntl_setfl flag_kernel 7 2 \<lparr>t_hook_enable = True, h_fds = FdManager_new[7 := Some sock_ctx],
       h_iom = 10, h_io = hook_io_start, h_tinfo = Map.empty, h_kernel = \<lambda>_. 0x802\<rparr> = Inr (r, env') \<and>
     fcntl_getfl flag_kernel 7 env' = Inr 2"
proof -
  let ?env = "\<lparr>t_hook_enable = True, h_fds = FdManager_new[7 := Some sock_ctx],
       h_iom = 10, h_io = hook_io_start, h_tinfo = Map.empty, h_kernel = (\<lambda>_. 0x802) :: int \<Rightarrow> u32\<rparr>"
  have "fd_lookup (h_fds ?env) 7 = Some sock_ctx" by (simp add: fd_lookup_def FdManager_new_def)
  moreover have "\<not> m_isClosed sock_ctx" "m_isSocket sock_ctx" "m_sysNonBlock sock_ctx" by (simp_all add: sock_ctx_def)
  moreover have "k_getfl flag_kernel 7 (snd (k_setfl flag_kernel 7 flags k)) = flags" for flags k
    by (simp add: flag_kernel_def)
  ultimately show ?thesis using fcntl_flags_virtualised [where env = ?env and arg = 2] by blast
qed

lemma uint_int_to_u64:
  assumes "0 \<le> n" "n < 2 ^ 31"
  shows "uint (scast (word_of_int n :: u32) :: u64) = n"
proof -
  have "signed_take_bit 31 n = n" using assms by (intro signed_take_bit_int_eq_self) auto
  then have "sint (word_of_int n :: u32) = n" by (simp add: signed_of_int)
  then have "(scast (word_of_int n :: u32) :: u64) = word_of_int n" by (metis of_int_sint)
  moreover have "take_bit 64 n = n" using assms by (intro take_bit_int_eq_self) auto
  ultimately show ?thesis using assms(1) by (simp add: unsigned_of_int)
qed

text \<open>
  How long the hooked sleeps wait, in milliseconds: \<^verbatim>\<open>usleep\<close> rounds down to whole milliseconds;
  \<^verbatim>\<open>nanosleep\<close> is exact below \<^verbatim>\<open>2^31\<close> ms; \<^verbatim>\<open>sleep\<close> multiplies in 32 bits, so it is exact up to 4294967
  seconds and wraps around beyond: \<^verbatim>\<open>sleep(4294968)\<close> waits 704 ms.
\<close>

theorem sleep_durations:
  "unat (sleep_ms s) = (1000 * unat s) mod 2 ^ 32 \<and>
   unat (usleep_ms us) = unat us div 1000 \<and>
   (0 \<le> sec \<and> 0 \<le> nsec \<and> sec * 1000 + nsec div 1000000 < 2 ^ 31 \<longrightarrow>
      uint (nanosleep_ms sec nsec) = sec * 1000 + nsec div 1000000) \<and>
   unat (sleep_ms 4294968) = 704"
proof -
  have "unat (s * 1000) = (1000 * unat s) mod 2 ^ 32" for s :: u32
    by (simp add: unat_word_ariths mult.commute)
  then have sleep: "unat (sleep_ms s) = (1000 * unat s) mod 2 ^ 32" for s
    by (simp add: sleep_ms_def unsigned_ucast_eq take_bit_nat_eq_self)
  have "unat (us div 1000) = unat us div 1000"
    by (simp add: unat_div)
  moreover have "unat us div 1000 < 2 ^ 64" using unsigned_less [of us, where 'a = nat] by simp
  ultimately have us: "unat (usleep_ms us) = unat us div 1000"
    by (simp add: usleep_ms_def unsigned_ucast_eq take_bit_nat_eq_self)
  have ns: "uint (nanosleep_ms sec nsec) = sec * 1000 + nsec div 1000000"
    if h: "0 \<le> sec" "0 \<le> nsec" "sec * 1000 + nsec div 1000000 < 2 ^ 31"
  proof -
    let ?n = "sec * 1000 + nsec div 1000000"
    have d: "nsec sdiv 1000 sdiv 1000 = nsec div 1000000"
      using h by (simp add: signed_divide_int_def sgn_if zdiv_zmult2_eq [symmetric])
    have "0 \<le> ?n" using h by simp
    then show ?thesis unfolding nanosleep_ms_def d by (rule uint_int_to_u64 [OF _ h(3)])
  qed
  show ?thesis using sleep [of s] sleep [of 4294968] us ns by simp
qed

theorem sleep_durations_witness: "uint (nanosleep_ms 2 500000000) = 2500 \<and> unat (sleep_ms 3) = 3000"
  using sleep_durations [of 3 0 2 500000000] by simp

end
