(* ===== verification/Runtime.thy ===== *)
theory Runtime
  imports Hook
begin

text \<open>
  The hooks at work on a manager: the callbacks that hooked calls give to timers, run as tasks; what
  happens to a sleeping fiber over any number of operations of other fibers on the timers, up to
  the round of \<^verbatim>\<open>idle()\<close> that wakes it.
\<close>

section \<open>The callbacks as tasks\<close>

text \<open>
  \<^verbatim>\<open>std::bind(schedule, iom, fiber, -1)\<close> and the lambda that times a call out; requests for other
  schedulers are returned. A callback of the program is returned to its caller.
\<close>

definition wake_fiber :: "addr \<Rightarrow> ('u, 'k) hook_env \<Rightarrow> ('u, 'k) hook_env" where
  "wake_fiber fiber env = env\<lparr>h_io := io_schedule (Task_fiber fiber (- 1)) (h_io env)\<rparr>"

fun run_hook_cb ::
  "'k epoll \<Rightarrow> 'u hook_cb \<Rightarrow> ('u, 'k) hook_env \<Rightarrow> ('u list \<times> 'u task_cb request list \<times> ('u, 'k) hook_env) result" where
  "run_hook_cb E (User u) env = Inr ([u], [], env)"
| "run_hook_cb E (ScheduleFiber fiber) env = Inr ([], [], wake_fiber fiber env)"
| "run_hook_cb E (IoTimeout ti fd event) env =
     rbind (io_timeout E ti fd event env) (\<lambda>(reqs, env'). Inr ([], reqs, env'))"

text \<open>A task that a timer queued: \<^verbatim>\<open>OnTimer\<close> looks at the weak pointer first.\<close>

definition run_hook_task ::
  "'k epoll \<Rightarrow> 'u task_cb \<Rightarrow> ('u, 'k) hook_env \<Rightarrow> ('u list \<times> 'u task_cb request list \<times> ('u, 'k) hook_env) result" where
  "run_hook_task E cb env =
     rbind (run_callback (\<lambda>ti. h_tinfo env ti \<noteq> None) cb) (\<lambda>cs.
       case cs of [] \<Rightarrow> Inr ([], [], env) | c # _ \<Rightarrow> run_hook_cb E c env)"

section \<open>A timer that is left alone\<close>

text \<open>What other fibers do with the timers before \<open>d\<close>, when nobody has the timer at \<open>p\<close>.\<close>

inductive undisturbed :: "addr \<Rightarrow> u64 \<Rightarrow> 'cb TimerManager \<Rightarrow> 'cb TimerManager \<Rightarrow> bool" for p d where
  und_add: "m_store tm r = None \<Longrightarrow> r \<noteq> 0 \<Longrightarrow>
     undisturbed p d tm (snd (addTimer interval cb recurring now r tm))"
| und_cancel: "Timer_cancel r tm = Inr (b, tm') \<Longrightarrow> r \<noteq> p \<Longrightarrow> undisturbed p d tm tm'"
| und_refresh: "Timer_refresh r now tm = Inr (b, tm') \<Longrightarrow> r \<noteq> p \<Longrightarrow> undisturbed p d tm tm'"
| und_reset: "Timer_reset r interval fromNow now tm = Inr (b, front, tm') \<Longrightarrow> r \<noteq> p \<Longrightarrow> undisturbed p d tm tm'"
| und_next: "undisturbed p d tm (snd (getNextTimer now tm))"
| und_expire: "m_store tm q = None \<Longrightarrow> q \<noteq> 0 \<Longrightarrow> now < d \<Longrightarrow> \<not> fst (detectClockRollover now tm) \<Longrightarrow>
     undisturbed p d tm (snd (listExpiredCb now q cbs tm))"

lemma undisturbed_step: "undisturbed p d tm tm' \<Longrightarrow> timer_step tm tm'"
  by (cases rule: undisturbed.cases) (auto intro: timer_step.intros)

lemma undisturbed_armed:
  assumes "undisturbed p d tm tm'" "timer_inv tm" "armed tm p = Some t" "m_next t = d"
  shows "armed tm' p = Some t"
  using assms(1)
proof cases
  case (und_add r interval cb recurring now)
  then have "r \<noteq> p" using assms(3) by (auto simp: armed_apply split: if_splits)
  then show ?thesis using und_add armed_add [OF assms(2) und_add(2), of interval cb recurring now] assms(3) by simp
next
  case (und_cancel r b)
  then show ?thesis
    using armed_cancel(1) [OF assms(2), of r tm'] assms(3)
    by (cases b) (auto simp: Timer_cancel_def Let_def split: option.splits if_splits)
next
  case (und_refresh r now b)
  then obtain t where "m_store tm r = Some t" by (auto simp: Timer_refresh_def split: option.splits)
  from refresh_cases [OF assms(2) this, of now] und_refresh assms(3) show ?thesis by auto
next
  case (und_reset r interval fromNow now b front)
  then obtain t where t: "m_store tm r = Some t" by (auto simp: Timer_reset_def split: option.splits)
  show ?thesis
  proof (cases "tm' = tm")
    case False
    then have "r \<in> set (m_timers tm)" "m_timer_cb t \<noteq> None" "\<not> (m_interval t = interval \<and> \<not> fromNow)"
      using und_reset t timer_found_iff [OF assms(2), of r]
      by (auto simp: Timer_reset_def Let_def split: if_splits)
    from reset_cases [OF assms(2) t this(3,1,2) refl, of now] und_reset assms(3) show ?thesis by auto
  qed (use assms(3) in simp)
next
  case (und_next now)
  with assms(3) show ?thesis by (auto simp: armed_def getNextTimer_def Let_def split: list.splits)
next
  case (und_expire q now cbs)
  then show ?thesis
    using armed_expire [OF assms(2) und_expire(2,3), of now cbs] und_expire(5) assms(3,4) by (simp add: spec_expire_def)
qed

lemma undisturbed_run:
  assumes "(undisturbed p d)\<^sup>*\<^sup>* tm tm'" "timer_inv tm" "armed tm p = Some t" "m_next t = d"
  shows "timer_inv tm' \<and> armed tm' p = Some t"
  using assms(1)
proof (induction rule: rtranclp_induct)
  case (step tm' tm'')
  then show ?case
    using undisturbed_armed [OF step.hyps(2) _ _ assms(4)] timer_machine.inv_step undisturbed_step by blast
qed (use assms in simp)

section \<open>Properties\<close>

lemma next_armed: "armed (snd (getNextTimer now tm)) = armed tm" "m_store (snd (getNextTimer now tm)) = m_store tm"
  "detectClockRollover now2 (snd (getNextTimer now tm)) =
     (fst (detectClockRollover now2 tm), (snd (detectClockRollover now2 tm))\<lparr>m_tickled := False\<rparr>)"
  by (auto simp: armed_def getNextTimer_def detectClockRollover_def Let_def split: list.splits)

text \<open>What a round of \<^verbatim>\<open>idle()\<close> does with an armed one-shot timer.\<close>

lemma idle_round_timer:
  assumes round: "idle_round K this now1 now2 q ret evs io k = Inr (Some foreign, io', k')"
    and tm: "timer_inv (io_timers io)" "m_store (io_timers io) q = None" "q \<noteq> 0"
    and t: "armed (io_timers io) p = Some t" "\<not> m_recurring t" "m_timer_cb t = Some cb"
  shows "if m_next t \<le> now2 \<or> fst (detectClockRollover now2 (io_timers io))
    then (\<exists>xs ys. m_tasks (io_scheduler io') = m_tasks (io_scheduler io) @ xs @ Task_cb (Some cb) (- 1) # ys) \<and>
      armed (io_timers io') p = None
    else armed (io_timers io') p = Some t"
proof -
  let ?tm = "snd (getNextTimer now1 (io_timers io))"
  have inv: "timer_inv ?tm" by (rule getNextTimer_inv [OF tm(1)])
  have q: "m_store ?tm q = None" using tm(2) by (simp add: next_armed)
  have arm: "armed ?tm p = Some t" using t(1) by (simp add: next_armed)
  then have at: "p \<in> set (m_timers ?tm)" "m_store ?tm p = Some t" "timer_at (m_store ?tm) p = t"
    by (auto simp: armed_apply timer_at_def split: if_splits)
  obtain cbs reqs where l: "listExpiredCb now2 q [] ?tm = (cbs, io_timers io')"
    and res: "m_tasks (io_scheduler io') = m_tasks (io_scheduler io) @
      map (\<lambda>cb. Task_cb cb (- 1)) (filter (\<lambda>cb. cb \<noteq> None) cbs) @ filter runnable (own_requests this reqs)"
    using idle_round_queues_work [OF round] by blast
  note spec = listExpiredCb_spec [OF inv q tm(3) l]
  have exp: "p \<in> set (expiring now2 ?tm) \<longleftrightarrow> m_next t \<le> now2 \<or> fst (detectClockRollover now2 (io_timers io))"
    using at by (auto simp: expiring_def due_def next_armed)
  show ?thesis
  proof (cases "p \<in> set (expiring now2 ?tm)")
    case True
    then have "Some cb \<in> set cbs" using spec(1) at(3) t(3) by force
    then obtain xs ys where "cbs = xs @ Some cb # ys" by (meson split_list)
    then have "\<exists>xs ys. m_tasks (io_scheduler io') = m_tasks (io_scheduler io) @ xs @ Task_cb (Some cb) (- 1) # ys"
      unfolding res by (intro exI) simp
    moreover have "armed (io_timers io') p = None" using True spec(4) at(3) t(2) by (auto simp: armed_apply)
    ultimately show ?thesis using True exp by auto
  next
    case False
    then have "armed (io_timers io') p = Some t" using spec(2,4) at by (auto simp: armed_apply)
    then show ?thesis using False exp by simp
  qed
qed

text \<open>
  C7. A hooked sleep is a wake-up at its deadline. \<^verbatim>\<open>sleep\<close>, \<^verbatim>\<open>usleep\<close> and \<^verbatim>\<open>nanosleep\<close> suspend the fiber with
  a timer; whatever other fibers do with the timers before the deadline, a later round of \<^verbatim>\<open>idle()\<close>
  leaves the timer armed while the clock is before the deadline and has not been set back, and otherwise
  disarms it and queues its callback, which puts the fiber in the queue of the scheduler.
\<close>

theorem sleep_wakes_fiber:
  assumes call: "(sleeping, ms) \<in> {(hook_sleep orig s, sleep_ms s), (hook_usleep orig us, usleep_ms us),
      (hook_nanosleep orig sec nsec, nanosleep_ms sec nsec)}"
    and slept: "sleeping now p fiber env = Inr (out, env1)" "t_hook_enable env"
    and fresh: "timer_inv (io_timers (h_io env))" "m_store (io_timers (h_io env)) p = None" "p \<noteq> 0" "fiber \<noteq> 0"
    and meanwhile: "(undisturbed p (now + ms))\<^sup>*\<^sup>* (io_timers (h_io env1)) (io_timers io)"
    and round: "idle_round K this now1 now2 q ret evs io k = Inr (Some foreign, io', k')"
    and q: "m_store (io_timers io) q = None" "q \<noteq> 0"
  shows "out = Suspended (Some p) \<and>
    (if now + ms \<le> now2 \<or> fst (detectClockRollover now2 (io_timers io))
     then (\<exists>xs ys. m_tasks (io_scheduler io') =
             m_tasks (io_scheduler io) @ xs @ Task_cb (Some (Plain (ScheduleFiber fiber))) (- 1) # ys) \<and>
          armed (io_timers io') p = None
     else armed (io_timers io') p \<noteq> None) \<and>
    (\<exists>env3. run_hook_task E (Plain (ScheduleFiber fiber)) env2 = Inr ([], [], env3) \<and>
       m_tasks (io_scheduler (h_io env3)) = m_tasks (io_scheduler (h_io env2)) @ [Task_fiber fiber (- 1)])"
proof -
  let ?cb = "Plain (ScheduleFiber fiber) :: 'a task_cb"
  let ?t = "Timer_new ms (Some ?cb) False now"
  from call slept have sf: "sleep_for ms now p fiber env = Inr (out, env1)"
    by (auto simp: hook_sleep_def hook_usleep_def hook_nanosleep_def)
  let ?tm = "snd (addTimer ms (Some ?cb) False now p (io_timers (h_io env)))"
  have io1: "io_timers (h_io env1) = ?tm" "out = Suspended (Some p)"
    using sf by (auto simp: sleep_for_def Let_def onTimerInsertedAtFront_def tickle_def split: if_splits prod.splits)
  have "timer_inv ?tm" "armed ?tm p = Some ?t"
    using addTimer_inv [OF fresh(1-3)] armed_add [OF fresh(1,2)] by simp_all
  with undisturbed_run [OF meanwhile] io1(1) have later: "timer_inv (io_timers io)" "armed (io_timers io) p = Some ?t"
    by (simp_all add: Timer_new_def)
  have "m_next ?t = now + ms" "\<not> m_recurring ?t" "m_timer_cb ?t = Some ?cb" by (simp_all add: Timer_new_def)
  note idle_round_timer [OF round later(1) q later(2) this(2,3), unfolded this(1)]
  moreover have "runnable (Task_fiber fiber (- 1))" using fresh(4) by (simp add: runnable_def Task_fiber_def)
  ultimately show ?thesis
    using io1(2) by (auto simp: run_hook_task_def wake_fiber_def io_schedule_tasks)
qed

text \<open>A fiber sleeps two seconds from the clock reading 10 on; the round at 2010 queues its wake-up.\<close>

theorem sleep_wakes_fiber_witness:
  "\<exists>env1 io' k' xs ys. hook_sleep (\<lambda>k. (0, 0, k)) 2 10 1 8 sock_env = Inr (Suspended (Some 1), env1) \<and>
     idle_round map_epoll 10 500 2010 2 0 [] (h_io env1) Map.empty = Inr (Some [], io', k') \<and>
     m_tasks (io_scheduler io') =
       m_tasks (io_scheduler (h_io env1)) @ xs @ Task_cb (Some (Plain (ScheduleFiber 8))) (- 1) # ys"
proof -
  let ?sleep = "hook_sleep (\<lambda>k. (0, 0, k)) 2 :: u64 \<Rightarrow> addr \<Rightarrow> addr \<Rightarrow> (bool, int \<rightharpoonup> u32) hook_env \<Rightarrow> _"
  have "io_timers hook_io_start = TimerManager_new 0"
    by (simp add: hook_io_start_def IOManager_new_def Scheduler_new_def start_def Let_def)
  then have tm: "timer_inv (io_timers (h_io sock_env))" "m_store (io_timers (h_io sock_env)) p = None" for p
    using timer_machine.inv_init [of "TimerManager_new 0"] by (auto simp: sock_env_simps timer_init_def TimerManager_new_def)
  obtain front tm1 where a: "addTimer 2000 (Some (Plain (ScheduleFiber 8))) False 10 1 (io_timers (h_io sock_env)) = (front, tm1)"
    by fastforce
  let ?io0 = "(h_io sock_env)\<lparr>io_timers := tm1\<rparr>"
  let ?env1 = "sock_env\<lparr>h_io := if front then onTimerInsertedAtFront ?io0 else ?io0\<rparr>"
  obtain env1 where "env1 = ?env1" by simp
  with a have s: "?sleep 10 1 8 sock_env = Inr (Suspended (Some 1), env1)"
    "io_timers (h_io env1) = snd (addTimer 2000 (Some (Plain (ScheduleFiber 8))) False 10 1 (io_timers (h_io sock_env)))"
    by (simp_all add: hook_sleep_def sleep_for_def sock_env_simps sleep_ms_def Let_def onTimerInsertedAtFront_def tickle_def)
  let ?io = "h_io env1"
  have eq: "io_timers ?io = \<lparr>m_store = [1 \<mapsto> Timer_new 2000 (Some (Plain (ScheduleFiber 8))) False 10], m_timers = [1],
      m_tickled = True, m_previousTime = 0\<rparr>"
    using s(2) \<open>io_timers hook_io_start = _\<close>
    by (simp add: sock_env_simps addTimer_def addTimer_locked_def set_insert_def TimerManager_new_def)
  have "fst (getNextTimer 500 (io_timers ?io)) \<noteq> u64_max" by (simp add: eq getNextTimer_def Timer_new_def u64_max_def)
  then obtain io' k' where r: "idle_round map_epoll 10 500 2010 2 0 [] ?io Map.empty = Inr (Some [], io', k')"
    by (cases "getNextTimer 500 (io_timers ?io)"; cases "listExpiredCb 2010 2 [] (snd (getNextTimer 500 (io_timers ?io)))")
       (simp add: idle_round_def IOManager_stopping_def own_requests_def)
  have "10 + sleep_ms 2 \<le> (2010 :: u64)" by (simp add: sleep_ms_def)
  with sleep_wakes_fiber [where sleeping = ?sleep and orig = "\<lambda>k. (0, 0, k)" and s = 2 and ms = "sleep_ms 2"
      and us = 0 and sec = 0 and nsec = 0, OF _ s(1) _ tm _ _ rtranclp.rtrancl_refl r] s r
  show ?thesis by (auto simp: sock_env_simps eq)
qed

section \<open>Connecting\<close>

text \<open>Arming the timeout changes the timers and the pipe only.\<close>

lemma arm_timeout_effect:
  assumes "arm_timeout timeout fd event now p ti env = (timer, env1)"
    and "timer_inv (io_timers (h_io env))" "m_store (io_timers (h_io env)) p = None" "p \<noteq> 0"
  shows "timer = (if timeout = u64_max then None else Some p) \<and>
    (\<exists>io. env1 = env\<lparr>h_io := io\<rparr> \<and> m_fdContexts io = m_fdContexts (h_io env) \<and>
       m_pendingEventCount io = m_pendingEventCount (h_io env) \<and> timer_inv (io_timers io) \<and>
       armed (io_timers io) = (if timeout = u64_max then armed (io_timers (h_io env)) else (armed (io_timers (h_io env)))
         (p \<mapsto> Timer_new timeout (Some (OnTimer ti (Some (IoTimeout ti fd event)))) False now)))"
proof (cases "timeout = u64_max")
  case True
  then show ?thesis using assms by (auto simp: arm_timeout_def intro: exI [of _ "h_io env"])
next
  case False
  let ?cb = "Some (OnTimer ti (Some (IoTimeout ti fd event))) :: 'a task_cb option"
  obtain front tm where a: "addTimer timeout ?cb False now p (io_timers (h_io env)) = (front, tm)" by fastforce
  have "tm = snd (addTimer timeout ?cb False now p (io_timers (h_io env)))" using a by simp
  then have "timer_inv tm" "armed tm = (armed (io_timers (h_io env)))(p \<mapsto> Timer_new timeout ?cb False now)"
    using addTimer_inv [OF assms(2-4)] armed_add [OF assms(2,3)] by auto
  then show ?thesis
    using assms(1) False a
    by (auto simp: arm_timeout_def addConditionTimer_def Let_def onTimerInsertedAtFront_def tickle_def)
qed

lemma cancel_armed:
  assumes "timer_inv tm" "armed tm p = Some t" "m_timer_cb t \<noteq> None"
  shows "\<exists>tm'. Timer_cancel p tm = Inr (True, tm') \<and> armed tm' = (armed tm)(p := None) \<and> timer_inv tm'"
proof -
  have "m_store tm p = Some t" "p \<in> set (m_timers tm)" using assms(2) by (auto simp: armed_apply split: if_splits)
  then obtain tm' where c: "Timer_cancel p tm = Inr (True, tm')"
    using assms(3) timer_found_iff [OF assms(1), of p] by (auto simp: Timer_cancel_def Let_def)
  with armed_cancel(1) [OF assms(1) this] cancel_inv [OF assms(1) this] show ?thesis by blast
qed

text \<open>Cancelling the timeout that was just armed restores the table of armed timers.\<close>

lemma cancel_timeout_effect:
  assumes "timer_inv (io_timers (h_io env))" "\<And>p. timer = Some p \<Longrightarrow>
    \<exists>t. armed (io_timers (h_io env)) p = Some t \<and> m_timer_cb t \<noteq> None"
  shows "\<exists>tm. cancel_timeout timer env = Inr (env\<lparr>h_io := (h_io env)\<lparr>io_timers := tm\<rparr>\<rparr>) \<and> timer_inv tm \<and>
    armed tm = (case timer of None \<Rightarrow> armed (io_timers (h_io env)) | Some p \<Rightarrow> (armed (io_timers (h_io env)))(p := None))"
proof (cases timer)
  case None
  then show ?thesis using assms(1) by (intro exI [of _ "io_timers (h_io env)"]) (simp add: cancel_timeout_def)
next
  case (Some p)
  with assms(2) obtain t where "armed (io_timers (h_io env)) p = Some t" "m_timer_cb t \<noteq> None" by blast
  from cancel_armed [OF assms(1) this] Some show ?thesis by (auto simp: cancel_timeout_def)
qed

lemma registered_same: "m_fdContexts io' = m_fdContexts io \<Longrightarrow> registered io' fd event = registered io fd event"
  by (simp add: registered_def)

lemma unarmed_fresh: "timer_inv tm \<Longrightarrow> m_store tm p = None \<Longrightarrow> armed tm p = None"
  by (simp add: armed_apply)

text \<open>
  C31. A hooked \<^verbatim>\<open>connect\<close> on a blocking socket whose connection is in progress. \<^verbatim>\<open>connect_with_timeout\<close>
  means to wait until the socket is writable or the timeout is over, but it takes the \<^verbatim>\<open>true\<close> of a
  successful \<^verbatim>\<open>addEvent\<close> for an error: when \<^verbatim>\<open>epoll_ctl\<close> succeeds it reads \<^verbatim>\<open>SO_ERROR\<close> at once, so an
  unfinished connection without an error yet is reported as established, no timeout is left armed,
  and the fiber stays registered. When \<^verbatim>\<open>epoll_ctl\<close> fails the fiber yields with nothing registered,
  and its timeout wakes nobody.
\<close>

theorem connect_reports_unfinished:
  assumes en: "t_hook_enable env" and ctx: "fd_lookup (h_fds env) fd = Some ctx"
    and sock: "\<not> m_isClosed ctx" "m_isSocket ctx" "\<not> m_userNonBlock ctx"
    and call: "connect_f (h_kernel env) = (- 1, EINPROGRESS, k')"
    and io: "h_iom env \<noteq> 0" "io_inv (h_io env)" "registered (h_io env) fd WRITE = None"
    and fresh: "timer_inv (io_timers (h_io env))" "m_store (io_timers (h_io env)) p = None" "p \<noteq> 0"
  shows "\<exists>ok env'. connect_with_timeout K E fd connect_f so_error timeoutMs now p ti fiber env =
      Inr (if ok then connect_result (so_error (h_kernel env'))
           else Suspended (if timeoutMs = u64_max then None else Some p), env') \<and>
    (\<exists>op ev. fst (ep_ctl E op fd ev k') = ok) \<and>
    registered (h_io env') fd WRITE =
      (if ok then Some \<lparr>ec_scheduler = h_iom env, ec_fiber = fiber, ec_cb = None\<rparr> else None) \<and>
    (if ok then armed (io_timers (h_io env')) = armed (io_timers (h_io env))
     else \<exists>env2. io_timeout E ti fd WRITE env' = Inr ([], env2))"
proof -
  note known = fd_get_known(1) [OF ctx] and fd = fd_get_known(2) [OF ctx]
  let ?T = "armed (io_timers (h_io env))"
  let ?e = "\<lparr>ec_scheduler = h_iom env, ec_fiber = fiber, ec_cb = None :: 'a task_cb option\<rparr>"
  let ?env0 = "env\<lparr>h_kernel := k', h_tinfo := (h_tinfo env)(ti \<mapsto> 0)\<rparr>"
  obtain timer env1 where a: "arm_timeout timeoutMs fd WRITE now p ti ?env0 = (timer, env1)" by fastforce
  from arm_timeout_effect [OF a] fresh obtain io1 where timer: "timer = (if timeoutMs = u64_max then None else Some p)"
    and io1: "env1 = ?env0\<lparr>h_io := io1\<rparr>" "m_fdContexts io1 = m_fdContexts (h_io env)"
      "m_pendingEventCount io1 = m_pendingEventCount (h_io env)" "timer_inv (io_timers io1)"
      "armed (io_timers io1) = (if timeoutMs = u64_max then ?T
         else ?T(p \<mapsto> Timer_new timeoutMs (Some (OnTimer ti (Some (IoTimeout ti fd WRITE)))) False now))"
    by auto
  have inv: "io_inv io1" by (rule io_inv_same [OF io(2) io1(2,3)])
  have free: "registered io1 fd WRITE = None" using io(3) registered_same [OF io1(2)] by simp
  obtain ok k'' where ctl: "ep_ctl E (if m_events (ctx_of io1 fd) \<noteq> 0 then EPOLL_CTL_MOD else EPOLL_CTL_ADD) fd
      (EPOLLET OR m_events (ctx_of io1 fd) OR WRITE) k' = (ok, k'')" by fastforce
  let ?io2 = "if ok then enroll fd WRITE ?e io1 else covering fd io1"
  let ?env2 = "env1\<lparr>h_io := ?io2, h_kernel := k''\<rparr>"
  have add: "addEvent E (h_iom env) fiber RUNNING fd WRITE None io1 k' = Inr (ok, ?io2, k'')"
    using addEvent_eq [OF inv fd _ free, of None RUNNING E "h_iom env" fiber k'] ctl by (simp add: Let_def)
  have run: "connect_with_timeout K E fd connect_f so_error timeoutMs now p ti fiber env =
    (if ok then rbind (cancel_timeout timer ?env2) (\<lambda>env3.
         Inr (connect_result (so_error k''), env3\<lparr>h_tinfo := (h_tinfo env3)(ti := None)\<rparr>))
     else Inr (Suspended timer, ?env2))"
    using en sock call io(1) a add io1(1) by (simp add: known connect_with_timeout_def EINPROGRESS_def Let_def)
  have ctl': "\<exists>op ev. fst (ep_ctl E op fd ev k') = ok" using ctl by (metis fst_conv)
  show ?thesis
  proof (cases ok)
    case True
    have "\<exists>tm. cancel_timeout timer ?env2 = Inr (?env2\<lparr>h_io := (h_io ?env2)\<lparr>io_timers := tm\<rparr>\<rparr>) \<and> timer_inv tm \<and>
        armed tm = (case timer of None \<Rightarrow> armed (io_timers io1) | Some p \<Rightarrow> (armed (io_timers io1))(p := None))"
      using cancel_timeout_effect [of ?env2 timer] io1(4,5) True timer
      by (auto simp: Timer_new_def split: if_splits)
    then obtain tm where c: "cancel_timeout timer ?env2 = Inr (?env2\<lparr>h_io := (h_io ?env2)\<lparr>io_timers := tm\<rparr>\<rparr>)"
      "armed tm = (case timer of None \<Rightarrow> armed (io_timers io1) | Some p \<Rightarrow> (armed (io_timers io1))(p := None))" by blast
    then have "armed tm = ?T"
      using io1(5) timer unarmed_fresh [OF fresh(1,2)] by (auto simp: fun_upd_idem)
    moreover have "registered ((enroll fd WRITE ?e io1)\<lparr>io_timers := tm\<rparr>) fd WRITE = Some ?e"
      using enroll_registered [OF inv fd, of WRITE WRITE ?e fd]
      by (simp add: registered_same [of "(enroll fd WRITE ?e io1)\<lparr>io_timers := tm\<rparr>" "enroll fd WRITE ?e io1"])
    ultimately show ?thesis
      using True ctl' unfolding run c(1) by (auto intro!: exI [of _ True])
  next
    case False
    have reg: "registered (covering fd io1) fd WRITE = None" using covering_registered [OF inv] free by simp
    then have "cancelEvent E fd WRITE (covering fd io1) k'' = Inr (False, [], covering fd io1, k'')"
      using cancelEvent_eq [OF covering_inv [OF inv, of fd] fd, of WRITE E k''] by simp
    then have "\<exists>env2. io_timeout E ti fd WRITE ?env2 = Inr ([], env2)"
      using False io1(1) by (simp add: io_timeout_def)
    then show ?thesis
      using False ctl' reg timer unfolding run by (auto intro!: exI [of _ False])
  qed
qed

theorem connect_reports_unfinished_witness:
  "\<exists>env'. connect_with_timeout sock_kernel map_epoll 7 (\<lambda>k. (- 1, EINPROGRESS, k)) (\<lambda>k. (0, 0, 0)) 5000 0 1 2 8 sock_env =
      Inr (Returned 0 0, env') \<and> armed (io_timers (h_io env')) = armed (io_timers hook_io_start)"
proof -
  have "\<not> m_isClosed sock_ctx" "m_isSocket sock_ctx" "\<not> m_userNonBlock sock_ctx" by (simp_all add: sock_ctx_def)
  moreover have "timer_inv (io_timers (h_io sock_env))" "m_store (io_timers (h_io sock_env)) 1 = None"
    by (simp_all add: sock_env_simps hook_io_start_def IOManager_new_def Scheduler_new_def start_def Let_def
        timer_inv_def TimerManager_new_def)
  ultimately show ?thesis
    using connect_reports_unfinished [where K = sock_kernel and E = map_epoll and fiber = 8 and now = 0 and ti = 2
        and so_error = "\<lambda>k. (0, 0, 0)" and timeoutMs = 5000 and connect_f = "\<lambda>k. (- 1, EINPROGRESS, k)" and p = 1,
        OF sock_env_simps(1,5)]
    by (auto simp: sock_env_simps hook_io_start_inv hook_io_start_free connect_result_def)
qed

end
