(* ===== verification/Util.thy ===== *)
theory Util
  imports Prelude
begin

text \<open>
  \<^verbatim>\<open>sylar/util.cpp\<close>: clock values, letter case, number parsing, and the file utilities. File names are
  strings; the file system is a parameter: its calls are functions of a record over an abstract state.
\<close>

section \<open>Clocks\<close>

text \<open>\<^verbatim>\<open>tv_sec\<close>, \<^verbatim>\<open>tv_nsec\<close> and \<^verbatim>\<open>tv_usec\<close> as the system reports them.\<close>

definition GetElapsedMS :: "nat \<Rightarrow> nat \<Rightarrow> u64" where
  "GetElapsedMS tv_sec tv_nsec = of_nat (tv_sec * 1000 + tv_nsec div 1000000)"

definition GetCurrentMS :: "nat \<Rightarrow> nat \<Rightarrow> u64" where
  "GetCurrentMS tv_sec tv_usec = of_nat (tv_sec * 1000 + tv_usec div 1000)"

definition GetCurrentUS :: "nat \<Rightarrow> nat \<Rightarrow> u64" where
  "GetCurrentUS tv_sec tv_usec = of_nat (tv_sec * 1000 * 1000 + tv_usec)"

section \<open>Characters and numbers\<close>

text \<open>The bytes before the terminator.\<close>

definition c_str :: "string \<Rightarrow> string" where
  "c_str s = takeWhile (\<lambda>c. c \<noteq> CHR 0x00) s"

definition code :: "char \<Rightarrow> nat" where
  "code c = of_char c"

definition toupper :: "char \<Rightarrow> char" where
  "toupper c = (if 97 \<le> code c \<and> code c \<le> 122 then char_of (code c - 32) else c)"

definition tolower :: "char \<Rightarrow> char" where
  "tolower c = (if 65 \<le> code c \<and> code c \<le> 90 then char_of (code c + 32) else c)"

definition ToUpper :: "string \<Rightarrow> string" where
  "ToUpper name = map toupper name"

definition ToLower :: "string \<Rightarrow> string" where
  "ToLower name = map tolower name"

definition isspace :: "char \<Rightarrow> bool" where
  "isspace c \<longleftrightarrow> code c = 32 \<or> 9 \<le> code c \<and> code c \<le> 13"

definition isdigit :: "char \<Rightarrow> bool" where
  "isdigit c \<longleftrightarrow> 48 \<le> code c \<and> code c \<le> 57"

definition digits_value :: "string \<Rightarrow> nat" where
  "digits_value ds = foldl (\<lambda>a c. 10 * a + (code c - 48)) 0 ds"

text \<open>
  \<^verbatim>\<open>strtoull(str, nullptr, 10)\<close>: white space, a sign, digits; saturating, and negated modulo \<^verbatim>\<open>2^64\<close>
  after a minus sign.
\<close>

definition strtoull :: "string \<Rightarrow> u64" where
  "strtoull str =
     (let s = dropWhile isspace (c_str str);
          neg = (s \<noteq> [] \<and> hd s = CHR ''-'');
          body = (if s \<noteq> [] \<and> (hd s = CHR ''-'' \<or> hd s = CHR ''+'') then tl s else s);
          v = digits_value (takeWhile isdigit body)
      in if 2 ^ 64 \<le> v then u64_max else if neg then - of_nat v else of_nat v)"

text \<open>\<^verbatim>\<open>TypeUtil::Atoi\<close> on a \<^verbatim>\<open>std::string\<close> and on a \<^verbatim>\<open>char *\<close>, \<open>None\<close> being the null pointer.\<close>

definition Atoi :: "string \<Rightarrow> int" where
  "Atoi str = (if str = [] then 0 else sint (strtoull str))"

definition Atoi_ptr :: "string option \<Rightarrow> int" where
  "Atoi_ptr str = (case str of None \<Rightarrow> 0 | Some s \<Rightarrow> sint (strtoull s))"

text \<open>\<open>atof\<close> is the conversion of the C library.\<close>

definition Atof :: "(string \<Rightarrow> 'd :: zero) \<Rightarrow> string \<Rightarrow> 'd" where
  "Atof atof str = (if str = [] then 0 else atof (c_str str))"

definition Atof_ptr :: "(string \<Rightarrow> 'd :: zero) \<Rightarrow> string option \<Rightarrow> 'd" where
  "Atof_ptr atof str = (case str of None \<Rightarrow> 0 | Some s \<Rightarrow> atof s)"

definition ToChar :: "string \<Rightarrow> char" where
  "ToChar str = (if str = [] then CHR 0x00 else hd str)"

definition ToChar_ptr :: "string option \<Rightarrow> char" where
  "ToChar_ptr str = (case str of None \<Rightarrow> CHR 0x00 | Some s \<Rightarrow> if s = [] then CHR 0x00 else hd s)"

section \<open>Path names\<close>

fun rfind :: "char \<Rightarrow> string \<Rightarrow> nat option" where
  "rfind c [] = None"
| "rfind c (x # xs) =
     (case rfind c xs of Some i \<Rightarrow> Some (Suc i) | None \<Rightarrow> if x = c then Some 0 else None)"

definition Dirname :: "string \<Rightarrow> string" where
  "Dirname filename =
     (if filename = [] then ''.''
      else case rfind (CHR ''/'') filename of
             None \<Rightarrow> ''.''
           | Some pos \<Rightarrow> if pos = 0 then ''/'' else take pos filename)"

definition Basename :: "string \<Rightarrow> string" where
  "Basename filename =
     (if filename = [] then filename
      else case rfind (CHR ''/'') filename of
             None \<Rightarrow> filename
           | Some pos \<Rightarrow> drop (Suc pos) filename)"

section \<open>Threads, time and backtraces\<close>

text \<open>
  The kernel keeps a thread name of at most 15 bytes: \<^verbatim>\<open>pthread_setname_np\<close> refuses a longer one, and the wrapper
  ignores that.
\<close>

definition SetThreadName :: "string \<Rightarrow> string \<Rightarrow> string" where
  "SetThreadName name kernel_name = (if length (c_str name) \<le> 15 then c_str name else kernel_name)"

definition GetThreadName :: "string \<Rightarrow> string" where
  "GetThreadName kernel_name = c_str (take 16 (kernel_name @ replicate 16 CHR 0x00))"

text \<open>
  \<open>strftime\<close> gives the full text of a format at a time; what does not fit into the 64 bytes leaves the
  buffer unspecified. \<open>strptime\<close> and \<open>mktime\<close> together give the time a text denotes.
\<close>

definition Time2Str :: "(string \<Rightarrow> u64 \<Rightarrow> string) \<Rightarrow> u64 \<Rightarrow> string \<Rightarrow> string result" where
  "Time2Str strftime ts fmt =
     (let t = strftime (c_str fmt) ts
      in if length t < 64 then Inr (c_str t) else Inl (UndefinedBehaviour ''strftime did not fit''))"

definition Str2Time :: "(string \<Rightarrow> string \<Rightarrow> u64 option) \<Rightarrow> string \<Rightarrow> string \<Rightarrow> u64" where
  "Str2Time strptime str fmt = (case strptime str fmt of None \<Rightarrow> 0 | Some t \<Rightarrow> t)"

text \<open>\<^verbatim>\<open>sscanf\<close> with \<^verbatim>\<open>"%*[^(]%*[^_]%255[^)+]"\<close> and with \<^verbatim>\<open>"%255s"\<close>: every item matches at least one character.\<close>

definition scan_symbol :: "string \<Rightarrow> string option" where
  "scan_symbol str =
     (let a = dropWhile (\<lambda>c. c \<noteq> CHR ''('') str;
          b = dropWhile (\<lambda>c. c \<noteq> CHR ''_'') a;
          m = takeWhile (\<lambda>c. c \<noteq> CHR '')'' \<and> c \<noteq> CHR ''+'') b
      in if a = str \<or> b = a \<or> m = [] then None else Some (take 255 m))"

definition scan_word :: "string \<Rightarrow> string option" where
  "scan_word str =
     (let w = takeWhile (\<lambda>c. \<not> isspace c) (dropWhile isspace str) in if w = [] then None else Some (take 255 w))"

text \<open>Writing a terminated string to the front of the buffer \<^verbatim>\<open>rt\<close>.\<close>

definition write_buf :: "string \<Rightarrow> string \<Rightarrow> string" where
  "write_buf s rt = s @ [CHR 0x00] @ drop (length s + 1) rt"

text \<open>\<open>cxa_demangle\<close> may fail. The buffer is returned as it is, with all its 256 bytes.\<close>

definition demangle :: "(string \<Rightarrow> string option) \<Rightarrow> string \<Rightarrow> string" where
  "demangle cxa_demangle str =
     (let rt = replicate 256 CHR 0x00;
          symbol = scan_symbol str;
          rt1 = (case symbol of None \<Rightarrow> rt | Some m \<Rightarrow> write_buf m rt)
      in case (case symbol of None \<Rightarrow> None | Some m \<Rightarrow> cxa_demangle m) of
           Some v \<Rightarrow> v
         | None \<Rightarrow> (case scan_word str of Some w \<Rightarrow> write_buf w rt1 | None \<Rightarrow> str))"

text \<open>\<open>frames\<close> is what \<^verbatim>\<open>backtrace\<close> and \<^verbatim>\<open>backtrace_symbols\<close> give; a negative \<^verbatim>\<open>skip\<close> becomes a huge index.\<close>

definition Backtrace :: "(string \<Rightarrow> string option) \<Rightarrow> string list option \<Rightarrow> int \<Rightarrow> string list \<Rightarrow> string list" where
  "Backtrace cxa_demangle frames skip bt =
     (case frames of
        None \<Rightarrow> bt
      | Some fs \<Rightarrow> bt @ (if skip < 0 then [] else map (demangle cxa_demangle) (drop (nat skip) fs)))"

definition BacktraceToString :: "(string \<Rightarrow> string option) \<Rightarrow> string list option \<Rightarrow> int \<Rightarrow> string \<Rightarrow> string" where
  "BacktraceToString cxa_demangle frames skip prefix =
     concat (map (\<lambda>l. prefix @ l @ [CHR 0x0A]) (Backtrace cxa_demangle frames skip []))"

section \<open>The file system\<close>

datatype d_type = DT_DIR | DT_REG | DT_OTHER

text \<open>
  \<open>fs_lstat\<close> gives \<^verbatim>\<open>st_mode\<close>; \<open>fs_readdir\<close> opens a directory and lists its entries; the others
  succeed or not and change the state.
\<close>

record 'f fsys =
  fs_access :: "string \<Rightarrow> 'f \<Rightarrow> bool"
  fs_lstat :: "string \<Rightarrow> 'f \<Rightarrow> u32 option"
  fs_readdir :: "string \<Rightarrow> 'f \<Rightarrow> (string \<times> d_type) list option"
  fs_mkdir :: "string \<Rightarrow> 'f \<Rightarrow> bool \<times> 'f"
  fs_unlink :: "string \<Rightarrow> 'f \<Rightarrow> bool \<times> 'f"
  fs_rmdir :: "string \<Rightarrow> 'f \<Rightarrow> bool \<times> 'f"
  fs_rename :: "string \<Rightarrow> string \<Rightarrow> 'f \<Rightarrow> bool \<times> 'f"
  fs_symlink :: "string \<Rightarrow> string \<Rightarrow> 'f \<Rightarrow> bool \<times> 'f"
  fs_realpath :: "string \<Rightarrow> 'f \<Rightarrow> string option"
  fs_open_write :: "string \<Rightarrow> 'f \<Rightarrow> bool \<times> 'f"

section \<open>Listing files\<close>

definition is_dots :: "string \<Rightarrow> bool" where
  "is_dots name \<longleftrightarrow> name = ''.'' \<or> name = ''..''"

definition has_subfix :: "string \<Rightarrow> string \<Rightarrow> bool" where
  "has_subfix subfix filename \<longleftrightarrow> subfix = [] \<or>
     \<not> length filename < length subfix \<and> drop (length filename - length subfix) filename = subfix"

text \<open>The loop over \<^verbatim>\<open>readdir\<close>; \<open>rec\<close> is the recursive call.\<close>

fun list_entries ::
  "(string list \<Rightarrow> string \<Rightarrow> string list option) \<Rightarrow> string \<Rightarrow> string \<Rightarrow> string list \<Rightarrow> (string \<times> d_type) list
   \<Rightarrow> string list option" where
  "list_entries rec path subfix files [] = Some files"
| "list_entries rec path subfix files ((name, ty) # es) =
     (case ty of
        DT_DIR \<Rightarrow>
          if is_dots name then list_entries rec path subfix files es
          else (case rec files (path @ ''/'' @ name) of
                  None \<Rightarrow> None
                | Some files' \<Rightarrow> list_entries rec path subfix files' es)
      | DT_REG \<Rightarrow>
          list_entries rec path subfix
            (if has_subfix subfix name then files @ [path @ ''/'' @ name] else files) es
      | DT_OTHER \<Rightarrow> list_entries rec path subfix files es)"

text \<open>The fuel bounds the nesting of directories.\<close>

fun ListAllFile :: "'f fsys \<Rightarrow> 'f \<Rightarrow> string \<Rightarrow> nat \<Rightarrow> string list \<Rightarrow> string \<Rightarrow> string list option" where
  "ListAllFile F f subfix 0 files path = None"
| "ListAllFile F f subfix (Suc fuel) files path =
     (if \<not> fs_access F path f then Some files
      else case fs_readdir F path f of
             None \<Rightarrow> Some files
           | Some es \<Rightarrow> list_entries (\<lambda>files path. ListAllFile F f subfix fuel files path) path subfix files es)"

section \<open>Creating and removing\<close>

definition mkdir1 :: "'f fsys \<Rightarrow> string \<Rightarrow> 'f \<Rightarrow> bool \<times> 'f" where
  "mkdir1 F dirname f = (if fs_access F dirname f then (True, f) else fs_mkdir F dirname f)"

text \<open>\<^verbatim>\<open>strchr(path + i, '/')\<close> as an index.\<close>

definition strchr_slash :: "string \<Rightarrow> nat \<Rightarrow> nat option" where
  "strchr_slash path i = find (\<lambda>j. path ! j = CHR ''/'') [i..<length path]"

lemma strchr_slash_bounds: "strchr_slash path i = Some j \<Longrightarrow> i \<le> j \<and> j < length path"
  by (auto simp: strchr_slash_def find_Some_iff)

text \<open>
  \<^verbatim>\<open>for (; ptr; *ptr = '/', ptr = strchr(ptr + 1, '/')) { *ptr = 0; if (__mkdir(path) != 0) break; }\<close>:
  where the pointer ends, and the state.
\<close>

function mkdir_loop :: "'f fsys \<Rightarrow> string \<Rightarrow> nat option \<Rightarrow> 'f \<Rightarrow> nat option \<times> 'f" where
  "mkdir_loop F path None f = (None, f)"
| "mkdir_loop F path (Some ptr) f =
     (case mkdir1 F (take ptr path) f of (ok, f') \<Rightarrow>
        if \<not> ok then (Some ptr, f') else mkdir_loop F path (strchr_slash path (Suc ptr)) f')"
  by pat_completeness auto
termination
proof (relation "measure (\<lambda>(F, path, p, f). case p of None \<Rightarrow> 0 | Some i \<Rightarrow> Suc (length path - i))")
qed (auto dest: strchr_slash_bounds split: option.split)

text \<open>\<^verbatim>\<open>strchr(path + 1, '/')\<close> reads behind the terminator of an empty name.\<close>

definition Mkdir :: "'f fsys \<Rightarrow> string \<Rightarrow> 'f \<Rightarrow> (bool \<times> 'f) result" where
  "Mkdir F dirname f =
     (let path = c_str dirname
      in if fs_lstat F path f \<noteq> None then Inr (True, f)
         else if path = [] then Inl (UndefinedBehaviour ''strchr(path + 1)'')
         else (case mkdir_loop F path (strchr_slash path 1) f of (ptr, f1) \<Rightarrow>
           if ptr \<noteq> None then Inr (False, f1)
           else Inr (mkdir1 F path f1)))"

definition Unlink :: "'f fsys \<Rightarrow> string \<Rightarrow> bool \<Rightarrow> 'f \<Rightarrow> bool \<times> 'f" where
  "Unlink F filename exist f =
     (if \<not> exist \<and> fs_lstat F filename f = None then (True, f) else fs_unlink F filename f)"

definition S_IFDIR :: u32 where "S_IFDIR = 0x4000"

unbundle bit_operations_syntax

text \<open>The loop of \<^verbatim>\<open>Rm\<close>; each recursive call overwrites \<^verbatim>\<open>ret\<close>.\<close>

fun rm_entries ::
  "(string \<Rightarrow> 'f \<Rightarrow> (bool \<times> 'f) option) \<Rightarrow> string \<Rightarrow> bool \<Rightarrow> (string \<times> d_type) list \<Rightarrow> 'f \<Rightarrow> (bool \<times> 'f) option" where
  "rm_entries rec path ret [] f = Some (ret, f)"
| "rm_entries rec path ret ((name, ty) # es) f =
     (if is_dots name then rm_entries rec path ret es f
      else case rec (path @ ''/'' @ name) f of
             None \<Rightarrow> None
           | Some (ret', f') \<Rightarrow> rm_entries rec path ret' es f')"

fun Rm :: "'f fsys \<Rightarrow> nat \<Rightarrow> string \<Rightarrow> 'f \<Rightarrow> (bool \<times> 'f) option" where
  "Rm F 0 path f = None"
| "Rm F (Suc fuel) path f =
     (case fs_lstat F path f of
        None \<Rightarrow> Some (True, f)
      | Some st_mode \<Rightarrow>
          if st_mode AND S_IFDIR = 0 then Some (Unlink F path False f)
          else (case fs_readdir F path f of
            None \<Rightarrow> Some (False, f)
          | Some es \<Rightarrow>
              (case rm_entries (\<lambda>path f. Rm F fuel path f) path True es f of
                 None \<Rightarrow> None
               | Some (ret, f1) \<Rightarrow>
                   (case fs_rmdir F path f1 of (ok, f2) \<Rightarrow> Some (if \<not> ok then False else ret, f2)))))"

definition Mv :: "'f fsys \<Rightarrow> nat \<Rightarrow> string \<Rightarrow> string \<Rightarrow> 'f \<Rightarrow> (bool \<times> 'f) option" where
  "Mv F fuel from to f =
     (case Rm F fuel to f of
        None \<Rightarrow> None
      | Some (ok, f1) \<Rightarrow> Some (if \<not> ok then (False, f1) else fs_rename F from to f1))"

definition Symlink :: "'f fsys \<Rightarrow> nat \<Rightarrow> string \<Rightarrow> string \<Rightarrow> 'f \<Rightarrow> (bool \<times> 'f) option" where
  "Symlink F fuel from to f =
     (case Rm F fuel to f of
        None \<Rightarrow> None
      | Some (ok, f1) \<Rightarrow> Some (if \<not> ok then (False, f1) else fs_symlink F from to f1))"

definition Realpath :: "'f fsys \<Rightarrow> string \<Rightarrow> 'f \<Rightarrow> string option" where
  "Realpath F path f = (if fs_lstat F path f = None then None else fs_realpath F path f)"

text \<open>\<open>can_read\<close>: the files that can be opened for reading.\<close>

definition OpenForRead :: "(string \<Rightarrow> bool) \<Rightarrow> string \<Rightarrow> bool" where
  "OpenForRead can_read filename = can_read (c_str filename)"

definition OpenForWrite :: "'f fsys \<Rightarrow> string \<Rightarrow> 'f \<Rightarrow> (bool \<times> 'f) result" where
  "OpenForWrite F filename f =
     (case fs_open_write F filename f of (ok, f1) \<Rightarrow>
        if ok then Inr (True, f1)
        else rbind (Mkdir F (Dirname filename) f1) (\<lambda>(b, f2). Inr (fs_open_write F filename f2)))"

text \<open>
  \<^verbatim>\<open>IsRunningPidfile\<close>: \<open>line\<close> is the first line of the file if it can be read, \<open>atoi\<close> and \<open>kill\<close> are the
  library's.
\<close>

definition IsRunningPidfile ::
  "'f fsys \<Rightarrow> (string \<Rightarrow> int) \<Rightarrow> (int \<Rightarrow> bool) \<Rightarrow> string \<Rightarrow> string option \<Rightarrow> 'f \<Rightarrow> bool" where
  "IsRunningPidfile F atoi kill0 pidfile line f =
     (if fs_lstat F pidfile f = None then False
      else case line of
             None \<Rightarrow> False
           | Some l \<Rightarrow> l \<noteq> [] \<and> \<not> atoi l \<le> 1 \<and> kill0 (atoi l))"

section \<open>Specification\<close>

text \<open>The ancestors of a path, outermost first, and making directories until one fails.\<close>

definition parents :: "string \<Rightarrow> string list" where
  "parents path = map (\<lambda>i. take i path) (filter (\<lambda>i. path ! i = CHR ''/'') [1..<length path])"

fun mkdirs :: "'f fsys \<Rightarrow> string list \<Rightarrow> 'f \<Rightarrow> bool \<times> 'f" where
  "mkdirs F [] f = (True, f)"
| "mkdirs F (d # ds) f = (case mkdir1 F d f of (ok, f') \<Rightarrow> if ok then mkdirs F ds f' else (False, f'))"

text \<open>A directory tree, and a file system that shows it at a path.\<close>

datatype ftree = RegularFile | OtherFile | Directory "(string \<times> ftree) list"

fun ftype :: "ftree \<Rightarrow> d_type" where
  "ftype RegularFile = DT_REG"
| "ftype OtherFile = DT_OTHER"
| "ftype (Directory es) = DT_DIR"

fun depth :: "ftree \<Rightarrow> nat" where
  "depth (Directory es) = Suc (foldr max (map (depth \<circ> snd) es) 0)"
| "depth _ = 0"

fun shows_dir :: "'f fsys \<Rightarrow> 'f \<Rightarrow> string \<Rightarrow> ftree \<Rightarrow> bool" where
  "shows_dir F f path (Directory es) \<longleftrightarrow> fs_access F path f \<and>
     (\<exists>ls. fs_readdir F path f = Some ls \<and>
        filter (\<lambda>(n, ty). \<not> is_dots n) ls = map (\<lambda>(n, t). (n, ftype t)) es \<and>
        (\<forall>(n, ty)\<in>set ls. is_dots n \<longrightarrow> ty = DT_DIR)) \<and>
     (\<forall>e\<in>set es. shows_dir F f (path @ ''/'' @ fst e) (snd e))"
| "shows_dir F f path _ \<longleftrightarrow> True"

definition ends_with :: "string \<Rightarrow> string \<Rightarrow> bool" where
  "ends_with subfix name \<longleftrightarrow> (\<exists>stem. name = stem @ subfix)"

text \<open>The regular files of a tree whose name ends as wanted, depth first.\<close>

fun tree_files :: "string \<Rightarrow> string \<Rightarrow> ftree \<Rightarrow> string list" where
  "tree_files subfix path (Directory es) =
     concat (map (\<lambda>e. case snd e of
         RegularFile \<Rightarrow> if ends_with subfix (fst e) then [path @ ''/'' @ fst e] else []
       | _ \<Rightarrow> tree_files subfix (path @ ''/'' @ fst e) (snd e)) es)"
| "tree_files subfix path _ = []"

text \<open>Decimal notation.\<close>

fun decimal :: "nat \<Rightarrow> string" where
  "decimal n = (if n < 10 then [char_of (48 + n)] else decimal (n div 10) @ [char_of (48 + n mod 10)])"

declare decimal.simps [simp del]

definition show_int :: "int \<Rightarrow> string" where
  "show_int n = (if n < 0 then CHR ''-'' # decimal (nat (- n)) else decimal (nat n))"

section \<open>Lemmas\<close>

lemma length_write_buf: "length s < length rt \<Longrightarrow> length (write_buf s rt) = length rt"
  by (simp add: write_buf_def)

lemma length_scan: "scan_symbol str = Some m \<Longrightarrow> length m < 256" "scan_word str = Some w \<Longrightarrow> length w < 256"
  by (auto simp: scan_symbol_def scan_word_def Let_def split: if_splits)

text \<open>A frame whose symbol cannot be demangled is reported as a string of 256 bytes, terminators included.\<close>

lemma demangle_fallback_padded:
  assumes "\<And>m. scan_symbol str = Some m \<Longrightarrow> cxa_demangle m = None" "scan_word str = Some w"
  shows "length (demangle cxa_demangle str) = 256 \<and> c_str (demangle cxa_demangle str) = c_str w"
proof -
  obtain rt where rt: "demangle cxa_demangle str = write_buf w rt" "length rt = 256"
    using assms length_scan(1) [of str]
    by (cases "scan_symbol str") (auto simp: demangle_def Let_def length_write_buf)
  have "c_str (w @ CHR 0x00 # r) = c_str w" for r by (induction w) (auto simp: c_str_def)
  then show ?thesis using rt length_write_buf [of w rt] length_scan(2) [OF assms(2)] by (simp add: write_buf_def)
qed

lemma rfind_None: "rfind c s = None \<longleftrightarrow> c \<notin> set s"
  by (induction s) (auto split: option.splits)

lemma rfind_Some:
  "rfind c s = Some i \<Longrightarrow> i < length s \<and> s ! i = c \<and> c \<notin> set (drop (Suc i) s)"
proof (induction s arbitrary: i)
  case (Cons x xs)
  then show ?case by (cases "rfind c xs") (auto simp: rfind_None split: if_splits)
qed simp

lemma find_upt_split:
  assumes "find Q [i..<n] = r"
  shows "filter Q [i..<n] = (case r of None \<Rightarrow> [] | Some j \<Rightarrow> j # filter Q [Suc j..<n])"
proof (cases r)
  case None
  then show ?thesis using assms by (auto simp: find_None_iff)
next
  case (Some j)
  then have j: "i \<le> j" "j < n" "Q j" "\<forall>k. i \<le> k \<and> k < j \<longrightarrow> \<not> Q k"
    using assms by (auto simp: find_Some_iff) (metis add_diff_inverse_nat diff_less_mono nat_diff_split not_le)
  have "[i..<n] = [i..<j] @ j # [Suc j..<n]"
    using j upt_add_eq_append [of i j "n - j"] by (simp add: upt_conv_Cons)
  moreover have "filter Q [i..<j] = []" using j(4) by (auto simp: filter_empty_conv)
  ultimately show ?thesis using j(3) Some by simp
qed

lemma has_subfix_ends_with: "has_subfix subfix name \<longleftrightarrow> ends_with subfix name"
proof
  assume h: "has_subfix subfix name"
  show "ends_with subfix name"
  proof (cases "subfix = []")
    case False
    with h have "name = take (length name - length subfix) name @ subfix"
      unfolding has_subfix_def by (metis append_take_drop_id)
    then show ?thesis unfolding ends_with_def by blast
  qed (simp add: ends_with_def)
qed (auto simp: has_subfix_def ends_with_def)

text \<open>The pointer loop makes the directories of the remaining prefixes.\<close>

lemma mkdir_loop_mkdirs:
  assumes "p = strchr_slash path i"
  shows "case mkdir_loop F path p f of (ptr, f1) \<Rightarrow>
    mkdirs F (map (\<lambda>i. take i path) (filter (\<lambda>i. path ! i = CHR ''/'') [i..<length path]) @ ds) f =
      (if ptr = None then mkdirs F ds f1 else (False, f1))"
  using assms
proof (induction F path p f arbitrary: i rule: mkdir_loop.induct)
  case (1 F path f)
  then show ?case using find_upt_split [OF 1 [symmetric, unfolded strchr_slash_def]] by simp
next
  case (2 F path ptr f)
  obtain ok f' where m: "mkdir1 F (take ptr path) f = (ok, f')" by fastforce
  note split = find_upt_split [OF 2(2) [symmetric, unfolded strchr_slash_def]]
  show ?case
    using 2(1) [OF m [symmetric], of "Suc ptr"] m split by (cases ok) (auto split: prod.splits)
qed

text \<open>The loop over the entries of a directory whose subdirectories are listed correctly.\<close>

lemma list_entries_tree:
  assumes "filter (\<lambda>(n, ty). \<not> is_dots n) ls = map (\<lambda>(n, t). (n, ftype t)) es"
    and "\<forall>(n, ty)\<in>set ls. is_dots n \<longrightarrow> ty = DT_DIR"
    and "\<And>e files. e \<in> set es \<Longrightarrow> ftype (snd e) = DT_DIR \<Longrightarrow>
      rec files (path @ ''/'' @ fst e) = Some (files @ tree_files subfix (path @ ''/'' @ fst e) (snd e))"
  shows "list_entries rec path subfix files ls = Some (files @ tree_files subfix path (Directory es))"
  using assms
proof (induction ls arbitrary: files es)
  case (Cons l ls)
  obtain n ty where l: "l = (n, ty)" by fastforce
  show ?case
  proof (cases "is_dots n")
    case True
    then show ?thesis using Cons l by auto
  next
    case False
    then obtain t es' where es: "es = (n, t) # es'" and ty: "ty = ftype t"
      and rest: "filter (\<lambda>(n, ty). \<not> is_dots n) ls = map (\<lambda>(n, t). (n, ftype t)) es'"
      using Cons.prems(1) l by (cases es) auto
    have IH: "list_entries rec path subfix fs ls = Some (fs @ tree_files subfix path (Directory es'))" for fs
      using Cons.prems(2,3) es by (intro Cons.IH [OF rest]) auto
    show ?thesis
      using IH Cons.prems(3) [of "(n, t)"] False l ty es by (cases t) (auto simp: has_subfix_ends_with)
  qed
qed simp

lemma depth_member: "e \<in> set es \<Longrightarrow> depth (snd e) < depth (Directory es)"
proof -
  have "x \<in> set xs \<Longrightarrow> x \<le> foldr max xs (0 :: nat)" for x xs by (induction xs) auto
  from this [of "depth (snd e)" "map (depth \<circ> snd) es"] show "e \<in> set es \<Longrightarrow> ?thesis"
    by (simp add: less_Suc_eq_le)
qed

lemma digits_value_append: "digits_value (xs @ [c]) = 10 * digits_value xs + (code c - 48)"
  by (simp add: digits_value_def)

lemma code_digit: "n < 10 \<Longrightarrow> code (char_of (48 + n)) = 48 + n"
  by (simp add: code_def)

lemma decimal_digits: "list_all isdigit (decimal n) \<and> decimal n \<noteq> [] \<and> digits_value (decimal n) = n"
proof (induction n rule: decimal.induct)
  case (1 n)
  show ?case
  proof (cases "n < 10")
    case True
    then show ?thesis
      using code_digit [of n] by (simp add: decimal.simps [of n] isdigit_def digits_value_def)
  next
    case False
    have "code (char_of (48 + n mod 10)) = 48 + n mod 10" by (rule code_digit) simp
    then show ?thesis
      using 1 False by (simp add: decimal.simps [of n] digits_value_append isdigit_def)
  qed
qed

lemma decimal_simps [simp]:
  "takeWhile isdigit (decimal m) = decimal m" "digits_value (decimal m) = m" "decimal m \<noteq> []"
  using decimal_digits [of m] by (auto simp: takeWhile_eq_all_conv list_all_iff)

section \<open>Properties\<close>

text \<open>
  \<^verbatim>\<open>Dirname\<close> and \<^verbatim>\<open>Basename\<close> split every name at its last slash: the base name has no slash, and
  unless the name has none, putting the slash between the two parts gives the name back (with an
  empty directory part shown as the root).
\<close>

theorem dirname_basename_split:
  "CHR ''/'' \<notin> set (Basename f) \<and>
   (if CHR ''/'' \<in> set f
    then \<exists>dir. f = dir @ ''/'' @ Basename f \<and> Dirname f = (if dir = [] then ''/'' else dir)
    else Dirname f = ''.'' \<and> Basename f = f)"
proof (cases "rfind (CHR ''/'') f")
  case None
  then show ?thesis using rfind_None [of "CHR ''/''" f] by (auto simp: Dirname_def Basename_def)
next
  case (Some i)
  note i = rfind_Some [OF Some]
  have "f = take i f @ CHR ''/'' # drop (Suc i) f" using i id_take_nth_drop [of i f] by simp
  moreover have "CHR ''/'' \<in> set f" using i nth_mem [of i f] by simp
  moreover have "f \<noteq> []" using i by auto
  ultimately show ?thesis
    using i Some by (auto simp: Dirname_def Basename_def intro!: exI [of _ "take i f"])
qed

text \<open>
  \<^verbatim>\<open>Mkdir\<close>, which walks over the name and overwrites each slash for a moment, is the plain
  algorithm: it returns true at once when the name exists, and otherwise makes each missing ancestor
  and then the directory itself, outermost first, stopping with false at the first that cannot be
  made. The walk ends for every name. The empty name is read out of bounds.
\<close>

theorem Mkdir_makes_ancestors:
  "Mkdir F dirname f =
     (let path = c_str dirname
      in if fs_lstat F path f \<noteq> None then Inr (True, f)
         else if path = [] then Inl (UndefinedBehaviour ''strchr(path + 1)'')
         else Inr (mkdirs F (parents path @ [path]) f))"
proof -
  let ?path = "c_str dirname"
  have "case mkdir_loop F ?path (strchr_slash ?path 1) f of (ptr, f1) \<Rightarrow>
      mkdirs F (parents ?path @ [?path]) f = (if ptr = None then mkdirs F [?path] f1 else (False, f1))"
    unfolding parents_def by (rule mkdir_loop_mkdirs) simp
  moreover have "mkdirs F [?path] g = mkdir1 F ?path g" for g by (auto split: prod.splits)
  ultimately show ?thesis by (auto simp: Mkdir_def Let_def split: prod.splits)
qed

text \<open>
  C30. \<^verbatim>\<open>ListAllFile\<close> on a path where the file system shows a directory tree appends exactly the regular
  files of the tree whose name ends with the suffix, as paths below the given one, depth first in
  the order of the directory entries; the recursion nests no deeper than the tree has levels: that much fuel is enough.
\<close>

theorem ListAllFile_lists_tree:
  assumes "shows_dir F f path (Directory es)" and "depth (Directory es) \<le> fuel"
  shows "ListAllFile F f subfix fuel files path = Some (files @ tree_files subfix path (Directory es))"
  using assms
proof (induction fuel arbitrary: files path es)
  case (Suc fuel)
  obtain ls where ls: "fs_access F path f" "fs_readdir F path f = Some ls"
    "filter (\<lambda>(n, ty). \<not> is_dots n) ls = map (\<lambda>(n, t). (n, ftype t)) es"
    "\<forall>(n, ty)\<in>set ls. is_dots n \<longrightarrow> ty = DT_DIR"
    and sub: "\<forall>e\<in>set es. shows_dir F f (path @ ''/'' @ fst e) (snd e)"
    using Suc.prems(1) by auto
  have "ListAllFile F f subfix fuel fs (path @ ''/'' @ fst e) =
      Some (fs @ tree_files subfix (path @ ''/'' @ fst e) (snd e))"
    if e: "e \<in> set es" "ftype (snd e) = DT_DIR" for e fs
  proof -
    obtain es' where d: "snd e = Directory es'" using e(2) by (cases "snd e") auto
    have "depth (Directory es') \<le> fuel" using depth_member [OF e(1)] d Suc.prems(2) by simp
    then show ?thesis using Suc.IH [of "path @ ''/'' @ fst e" es' fs] sub e(1) d by auto
  qed
  from list_entries_tree [OF ls(3,4), of "\<lambda>fs p. ListAllFile F f subfix fuel fs p" path subfix files, OF this]
  show ?case using ls(1,2) by simp
qed simp

text \<open>A file system with one directory \<^verbatim>\<open>c\<close> that holds \<^verbatim>\<open>a.yml\<close>, \<^verbatim>\<open>b.txt\<close> and the directory \<^verbatim>\<open>d\<close> with \<^verbatim>\<open>e.yml\<close>.\<close>

definition conf_fs :: "unit fsys" where
  "conf_fs = \<lparr>fs_access = (\<lambda>p f. True), fs_lstat = (\<lambda>p f. None),
     fs_readdir = (\<lambda>p f.
       if p = ''c'' then Some [(''.'', DT_DIR), (''a.yml'', DT_REG), (''d'', DT_DIR), (''b.txt'', DT_REG)]
       else if p = ''c/d'' then Some [(''e.yml'', DT_REG), (''..'', DT_DIR)] else None),
     fs_mkdir = (\<lambda>p f. (False, f)), fs_unlink = (\<lambda>p f. (False, f)), fs_rmdir = (\<lambda>p f. (False, f)),
     fs_rename = (\<lambda>p q f. (False, f)), fs_symlink = (\<lambda>p q f. (False, f)), fs_realpath = (\<lambda>p f. None),
     fs_open_write = (\<lambda>p f. (False, f))\<rparr>"

theorem ListAllFile_lists_tree_witness:
  "ListAllFile conf_fs () ''.yml'' 2 [] ''c'' = Some [''c/a.yml'', ''c/d/e.yml'']"
proof -
  let ?es = "[(''a.yml'', RegularFile), (''d'', Directory [(''e.yml'', RegularFile)]), (''b.txt'', RegularFile)]"
  have "shows_dir conf_fs () ''c'' (Directory ?es)"
    by (simp add: conf_fs_def is_dots_def)
  then have "ListAllFile conf_fs () ''.yml'' 2 [] ''c'' = Some ([] @ tree_files ''.yml'' ''c'' (Directory ?es))"
    by (rule ListAllFile_lists_tree) simp
  then show ?thesis by (simp only:) (simp add: has_subfix_ends_with [symmetric] has_subfix_def)
qed

text \<open>
  \<^verbatim>\<open>TypeUtil::Atoi\<close> reads back every 64-bit signed number from its decimal notation, also behind
  white space, although it goes through the unsigned \<^verbatim>\<open>strtoull\<close>; the empty string gives 0.
\<close>

theorem Atoi_show_int:
  assumes "- (2 ^ 63) \<le> n" and "n < 2 ^ 63" and "list_all isspace ws"
  shows "Atoi (ws @ show_int n) = n \<and> Atoi [] = 0"
proof -
  let ?d = "decimal (nat \<bar>n\<bar>)"
  note d = decimal_digits [of "nat \<bar>n\<bar>"]
  have digit: "\<not> isspace c \<and> c \<noteq> CHR 0x00 \<and> c \<noteq> CHR ''-'' \<and> c \<noteq> CHR ''+''" if "isdigit c" for c
    using that by (auto simp: isdigit_def isspace_def code_def)
  have sp: "c \<noteq> CHR 0x00" if "isspace c" for c using that by (auto simp: isspace_def code_def)
  have all: "\<forall>c\<in>set ?d. isdigit c" using d by (simp add: list_all_iff)
  have sh: "show_int n = (if n < 0 then CHR ''-'' # ?d else ?d)" by (simp add: show_int_def)
  have c: "c_str (ws @ show_int n) = ws @ show_int n"
    using assms(3) digit sp all by (auto simp: c_str_def sh list_all_iff takeWhile_eq_all_conv)
  have "dropWhile isspace (show_int n) = show_int n"
    using digit all d by (cases ?d) (auto simp: sh isspace_def code_def)
  then have s: "dropWhile isspace (ws @ show_int n) = show_int n"
    using assms(3) by (simp add: list_all_iff dropWhile_append2)
  have h: "hd ?d \<noteq> CHR ''-''" "hd ?d \<noteq> CHR ''+''" using digit all d by (metis list.set_sel(1))+
  have lt: "nat \<bar>n\<bar> < 2 ^ 64" using assms by auto
  have body: "dropWhile isspace (c_str (ws @ show_int n)) = (if n < 0 then CHR ''-'' # ?d else ?d)"
    unfolding c s by (rule sh)
  have "strtoull (ws @ show_int n) = word_of_int n"
  proof (cases "n < 0")
    case True
    then show ?thesis using lt unfolding strtoull_def Let_def body by simp
  next
    case False
    then show ?thesis using lt h unfolding strtoull_def Let_def body by simp
  qed
  moreover have "sint (word_of_int n :: u64) = n"
  proof -
    have "signed_take_bit 63 n = n" using assms by (intro signed_take_bit_int_eq_self) auto
    then show ?thesis by (simp add: signed_of_int)
  qed
  moreover have "show_int n \<noteq> []" using d by (simp add: sh)
  ultimately show ?thesis by (simp add: Atoi_def)
qed

theorem Atoi_show_int_witness: "Atoi ('' '' @ show_int (- 42)) = - 42"
  using Atoi_show_int [of "- 42" "'' ''"] by (simp add: isspace_def code_def)

end
