(* ===== verification/Env.thy ===== *)
theory Env
  imports Util
begin

text \<open>
  \<^verbatim>\<open>sylar/env.cpp\<close>: the program arguments, the help texts and the paths of the process. Every operation
  holds the lock, so it is one step on the state. Command line arguments are C strings.
\<close>

section \<open>Data\<close>

record Env =
  m_args :: "string \<rightharpoonup> string"
  m_helps :: "(string \<times> string) list"
  m_program :: string
  m_exe :: string
  m_cwd :: string

definition Env_new :: Env where
  "Env_new = \<lparr>m_args = Map.empty, m_helps = [], m_program = [], m_exe = [], m_cwd = []\<rparr>"

section \<open>Arguments\<close>

definition add :: "string \<Rightarrow> string \<Rightarrow> Env \<Rightarrow> Env" where
  "add key val e = e\<lparr>m_args := (m_args e)(key \<mapsto> val)\<rparr>"

definition has :: "string \<Rightarrow> Env \<Rightarrow> bool" where
  "has key e \<longleftrightarrow> m_args e key \<noteq> None"

definition del :: "string \<Rightarrow> Env \<Rightarrow> Env" where
  "del key e = e\<lparr>m_args := (m_args e)(key := None)\<rparr>"

definition get :: "string \<Rightarrow> string \<Rightarrow> Env \<Rightarrow> string" where
  "get key default_value e = (case m_args e key of Some v \<Rightarrow> v | None \<Rightarrow> default_value)"

text \<open>\<^verbatim>\<open>if (now_key) add(now_key, "");\<close>\<close>

definition flush_key :: "string option \<Rightarrow> Env \<Rightarrow> Env" where
  "flush_key now_key e = (case now_key of Some k \<Rightarrow> add k [] e | None \<Rightarrow> e)"

text \<open>The loop over \<^verbatim>\<open>argv[1]\<close> to \<^verbatim>\<open>argv[argc - 1]\<close>.\<close>

fun parse_args :: "string option \<Rightarrow> string list \<Rightarrow> Env \<Rightarrow> bool \<times> Env" where
  "parse_args now_key [] e = (True, flush_key now_key e)"
| "parse_args now_key (arg # args) e =
     (if arg \<noteq> [] \<and> hd arg = CHR ''-'' then
        if length arg > 1 then parse_args (Some (tl arg)) args (flush_key now_key e)
        else (False, e)
      else
        (case now_key of
           Some k \<Rightarrow> parse_args None args (add k arg e)
         | None \<Rightarrow> (False, e)))"

text \<open>
  \<^verbatim>\<open>init\<close>: \<open>link\<close> is what \<^verbatim>\<open>/proc/<pid>/exe\<close> points to. The 1024 byte buffer is not terminated when the
  link fills it. \<^verbatim>\<open>argv[0]\<close> is \<open>program\<close>.
\<close>

definition init :: "string \<Rightarrow> string \<Rightarrow> string list \<Rightarrow> Env \<Rightarrow> (bool \<times> Env) result" where
  "init link program args e =
     (if 1024 \<le> length link then Inl (UndefinedBehaviour ''path is not terminated'')
      else
        (let exe = c_str link;
             cwd = (case rfind (CHR ''/'') exe of None \<Rightarrow> exe | Some pos \<Rightarrow> take pos exe) @ ''/''
         in Inr (parse_args None args (e\<lparr>m_exe := exe, m_cwd := cwd, m_program := program\<rparr>))))"

section \<open>Help texts\<close>

text \<open>The loop with \<^verbatim>\<open>erase\<close> in \<^verbatim>\<open>removeHelp\<close>.\<close>

fun remove_loop :: "string \<Rightarrow> (string \<times> string) list \<Rightarrow> (string \<times> string) list" where
  "remove_loop key [] = []"
| "remove_loop key (h # hs) = (if fst h = key then remove_loop key hs else h # remove_loop key hs)"

definition removeHelp :: "string \<Rightarrow> Env \<Rightarrow> Env" where
  "removeHelp key e = e\<lparr>m_helps := remove_loop key (m_helps e)\<rparr>"

text \<open>One step; the source gives up the lock between the removal and the insertion.\<close>

definition addHelp :: "string \<Rightarrow> string \<Rightarrow> Env \<Rightarrow> Env" where
  "addHelp key desc e = (let e1 = removeHelp key e in e1\<lparr>m_helps := m_helps e1 @ [(key, desc)]\<rparr>)"

definition printHelp :: "Env \<Rightarrow> string" where
  "printHelp e = ''Usage: '' @ c_str (m_program e) @ '' [options]'' @ [CHR 0x0A] @
     concat (map (\<lambda>(key, value). ''    -'' @ key @ '' : '' @ value @ [CHR 0x0A]) (m_helps e))"

section \<open>Environment and paths\<close>

text \<open>\<open>env\<close> is the environment of the process, what \<^verbatim>\<open>getenv\<close> finds.\<close>

definition getEnv :: "(string \<rightharpoonup> string) \<Rightarrow> string \<Rightarrow> string \<Rightarrow> string" where
  "getEnv env key default_value = (case env (c_str key) of None \<Rightarrow> default_value | Some v \<Rightarrow> v)"

text \<open>\<^verbatim>\<open>setenv\<close> fails on an empty name and on one with an equals sign.\<close>

definition setEnv :: "string \<Rightarrow> string \<Rightarrow> (string \<rightharpoonup> string) \<Rightarrow> bool \<times> (string \<rightharpoonup> string)" where
  "setEnv key val env =
     (if c_str key = [] \<or> CHR ''='' \<in> set (c_str key) then (False, env)
      else (True, env(c_str key \<mapsto> c_str val)))"

definition getAbsolutePath :: "string \<Rightarrow> Env \<Rightarrow> string" where
  "getAbsolutePath path e =
     (if path = [] then ''/'' else if hd path = CHR ''/'' then path else m_cwd e @ path)"

text \<open>
  \<^verbatim>\<open>getAbsoluteWorkPath\<close> dereferences what \<^verbatim>\<open>Config::Lookup<std::string>("server.work_path")\<close> returned:
  \<open>work_path\<close>, \<open>None\<close> for the null pointer.
\<close>

definition getAbsoluteWorkPath :: "string option \<Rightarrow> string \<Rightarrow> string result" where
  "getAbsoluteWorkPath work_path path =
     (if path = [] then Inr ''/''
      else if hd path = CHR ''/'' then Inr path
      else case work_path of
             None \<Rightarrow> Inl (UndefinedBehaviour ''g_server_work_path is null'')
           | Some w \<Rightarrow> Inr (w @ ''/'' @ path))"

definition getConfigPath :: "Env \<Rightarrow> string" where
  "getConfigPath e = getAbsolutePath (get ''c'' ''conf'' e) e"

section \<open>Specification of the argument syntax\<close>

text \<open>A command line is a list of options, each with or without a value.\<close>

fun render :: "(string \<times> string option) list \<Rightarrow> string list" where
  "render [] = []"
| "render ((k, None) # os) = (CHR ''-'' # k) # render os"
| "render ((k, Some v) # os) = (CHR ''-'' # k) # v # render os"

definition opt_ok :: "string \<times> string option \<Rightarrow> bool" where
  "opt_ok kv \<longleftrightarrow> fst kv \<noteq> [] \<and> (case snd kv of None \<Rightarrow> True | Some v \<Rightarrow> v = [] \<or> hd v \<noteq> CHR ''-'')"

definition set_opts :: "(string \<times> string option) list \<Rightarrow> (string \<rightharpoonup> string) \<Rightarrow> (string \<rightharpoonup> string)" where
  "set_opts os m = foldl (\<lambda>m (k, v). m(k \<mapsto> case v of None \<Rightarrow> [] | Some w \<Rightarrow> w)) m os"

section \<open>Lemmas\<close>

lemma flush_key_simps [simp]: "flush_key None e = e" "flush_key (Some k) e = add k [] e"
  by (simp_all add: flush_key_def)

lemma add_args [simp]: "m_args (add k v e) = (m_args e)(k \<mapsto> v)"
  by (simp add: add_def)

lemma set_opts_simps [simp]:
  "set_opts [] m = m"
  "set_opts ((k, None) # os) m = set_opts os (m(k \<mapsto> []))"
  "set_opts ((k, Some v) # os) m = set_opts os (m(k \<mapsto> v))"
  by (simp_all add: set_opts_def)

lemma opt_ok_simps [simp]:
  "opt_ok (k, None) \<longleftrightarrow> k \<noteq> []"
  "opt_ok (k, Some v) \<longleftrightarrow> k \<noteq> [] \<and> \<not> (v \<noteq> [] \<and> hd v = CHR ''-'')"
  by (auto simp: opt_ok_def)

text \<open>
  Parsing a rendered command line with a pending key is parsing it with the key's option in front: both
  statements are proved together, since each step of the loop changes between the two.
\<close>

lemma parse_render:
  assumes "list_all opt_ok os"
  shows "fst (parse_args None (render os) e) \<and> m_args (snd (parse_args None (render os) e)) = set_opts os (m_args e)"
    and "fst (parse_args (Some k) (render os) e) \<and>
      m_args (snd (parse_args (Some k) (render os) e)) = set_opts ((k, None) # os) (m_args e)"
  using assms by (induction os arbitrary: e k rule: render.induct) auto

text \<open>Conversely what the loop accepts is a rendered command line, the pending key in front.\<close>

lemma parse_accepts:
  assumes "fst (parse_args now_key args e)" "now_key \<noteq> Some []"
  shows "\<exists>os. list_all opt_ok os \<and> (case now_key of None \<Rightarrow> args | Some k \<Rightarrow> (CHR ''-'' # k) # args) = render os"
  using assms
proof (induction now_key args e rule: parse_args.induct)
  case (1 now_key e)
  show ?case
  proof (cases now_key)
    case None
    then show ?thesis by (intro exI [of _ "[]"]) simp
  next
    case (Some k)
    then show ?thesis using "1.prems"(2) by (intro exI [of _ "[(k, None)]"]) simp
  qed
next
  case (2 now_key arg args e)
  show ?case
  proof (cases "arg \<noteq> [] \<and> hd arg = CHR ''-''")
    case True
    then have dash: "CHR ''-'' # tl arg = arg" by (cases arg) simp_all
    have long: "length arg > 1" using "2.prems"(1) True by (simp split: if_splits)
    then have ne: "tl arg \<noteq> []" by (cases arg) auto
    from "2.IH"(1) [OF True long] "2.prems"(1) True long ne obtain os where os: "list_all opt_ok os" "arg # args = render os"
      by (auto simp: dash)
    show ?thesis
    proof (cases now_key)
      case None
      with os show ?thesis by auto
    next
      case (Some k)
      with os "2.prems"(2) show ?thesis by (intro exI [of _ "(k, None) # os"]) simp
    qed
  next
    case False
    with "2.prems"(1) obtain k where k: "now_key = Some k" "fst (parse_args None args (add k arg e))"
      by (auto split: option.splits if_splits)
    with "2.IH"(2) False obtain os where "list_all opt_ok os" "args = render os" by auto
    with k "2.prems"(2) False show ?thesis by (intro exI [of _ "(k, Some arg) # os"]) auto
  qed
qed

lemma remove_loop_filter: "remove_loop key hs = filter (\<lambda>h. fst h \<noteq> key) hs"
  by (induction hs) auto

section \<open>Properties\<close>

text \<open>
  \<^verbatim>\<open>init\<close> succeeds exactly on the command lines that are sequences of options \<^verbatim>\<open>-key\<close> and
  \<^verbatim>\<open>-key value\<close> with non-empty keys and values that do not start with a dash, and it then stores each
  option, the later ones of the same key winning, a missing value as the empty string.
\<close>

theorem init_accepts_options:
  assumes "length link < 1024"
  shows "\<exists>b e'. init link program args e = Inr (b, e') \<and>
    (b \<longleftrightarrow> (\<exists>os. list_all opt_ok os \<and> args = render os)) \<and>
    (\<forall>os. list_all opt_ok os \<and> args = render os \<longrightarrow> m_args e' = set_opts os (m_args e))"
proof -
  obtain e0 where e0: "init link program args e = Inr (parse_args None args e0)" "m_args e0 = m_args e"
    using assms by (auto simp: init_def Let_def)
  obtain b e' where r: "parse_args None args e0 = (b, e')" by fastforce
  have "b \<longleftrightarrow> (\<exists>os. list_all opt_ok os \<and> args = render os)"
    using parse_accepts [of None args e0] parse_render(1) [of _ e0] r by fastforce
  moreover have "\<forall>os. list_all opt_ok os \<and> args = render os \<longrightarrow> m_args e' = set_opts os (m_args e)"
    using parse_render(1) [of _ e0] r e0(2) by fastforce
  ultimately show ?thesis using e0(1) r by simp
qed

theorem init_accepts_options_witness:
  "\<exists>b e'. init ''/bin/s'' ''s'' [''-d'', ''-c'', ''/etc''] Env_new = Inr (b, e') \<and>
    (b \<longleftrightarrow> (\<exists>os. list_all opt_ok os \<and> [''-d'', ''-c'', ''/etc''] = render os)) \<and>
    (\<forall>os. list_all opt_ok os \<and> [''-d'', ''-c'', ''/etc''] = render os \<longrightarrow>
       m_args e' = set_opts os (m_args Env_new))"
  by (rule init_accepts_options) simp

end
