(* ===== verification/Config.thy ===== *)
theory Config
  imports Env Std_Set
begin

text \<open>
  \<^verbatim>\<open>sylar/config.h\<close> and \<^verbatim>\<open>sylar/config.cpp\<close>: configuration variables with their listeners, the conversions
  between strings and containers, the registry of variables, and loading from YAML documents. yaml-cpp is
  a parameter: a document is a tree, and reading, printing and indexing it are functions of a record
  (\<open>yaml_key\<close> gives \<open>None\<close> for an undefined node). Operations are steps of one thread; \<open>Program\<close> interleaves
  the two locked sections of \<^verbatim>\<open>setValue\<close>.
\<close>

section \<open>YAML documents\<close>

datatype Node = Null | Scalar string | Sequence "Node list" | Map "(string \<times> Node) list"

record yaml_cpp =
  yaml_Load :: "string \<Rightarrow> Node result"
  yaml_emit :: "Node \<Rightarrow> string"
  yaml_index :: "Node \<Rightarrow> nat \<Rightarrow> Node result"
  yaml_key :: "Node \<Rightarrow> string \<Rightarrow> Node option result"
  yaml_as_string :: "Node \<Rightarrow> string result"

fun node_size :: "Node \<Rightarrow> nat" where
  "node_size (Sequence ns) = length ns"
| "node_size (Map kvs) = length kvs"
| "node_size _ = 0"

text \<open>
  Iterating with \<^verbatim>\<open>it->first\<close> and \<^verbatim>\<open>it->second\<close>: a sequence has elements but no pairs, so using them throws;
  scalars and null have no elements.
\<close>

fun node_pairs :: "Node \<Rightarrow> (string \<times> Node) list result" where
  "node_pairs (Map kvs) = Inr kvs"
| "node_pairs (Sequence ns) = (if ns = [] then Inr [] else Inl (Exception ''InvalidNode''))"
| "node_pairs _ = Inr []"

text \<open>\<^verbatim>\<open>node[key] = value\<close> on a map.\<close>

fun node_assign :: "string \<Rightarrow> Node \<Rightarrow> (string \<times> Node) list \<Rightarrow> (string \<times> Node) list" where
  "node_assign key v [] = [(key, v)]"
| "node_assign key v ((k, w) # kvs) = (if k = key then (k, v) # kvs else (k, w) # node_assign key v kvs)"

section \<open>Conversions\<close>

text \<open>
  \<^verbatim>\<open>LexicalCast\<close> between strings and containers; \<open>from\<close> and \<open>to\<close> are the conversions of the elements.
  The loops print every element of the document and convert the text.
\<close>

fun seq_elems :: "yaml_cpp \<Rightarrow> (string \<Rightarrow> 'a result) \<Rightarrow> Node \<Rightarrow> nat list \<Rightarrow> 'a list result" where
  "seq_elems Y from node [] = Inr []"
| "seq_elems Y from node (i # is) =
     rbind (yaml_index Y node i) (\<lambda>n.
     rbind (from (yaml_emit Y n)) (\<lambda>x.
     rbind (seq_elems Y from node is) (\<lambda>xs. Inr (x # xs))))"

definition string_to_vector :: "yaml_cpp \<Rightarrow> (string \<Rightarrow> 'a result) \<Rightarrow> string \<Rightarrow> 'a list result" where
  "string_to_vector Y from val =
     rbind (yaml_Load Y val) (\<lambda>node. seq_elems Y from node [0..<node_size node])"

text \<open>Elements are appended to a list as to a vector.\<close>

definition string_to_list :: "yaml_cpp \<Rightarrow> (string \<Rightarrow> 'a result) \<Rightarrow> string \<Rightarrow> 'a list result" where
  "string_to_list Y from val =
     rbind (yaml_Load Y val) (\<lambda>node. seq_elems Y from node [0..<node_size node])"

text \<open>\<^verbatim>\<open>std::set\<close>: the elements are inserted one after the other.\<close>

definition string_to_set :: "yaml_cpp \<Rightarrow> ('a \<Rightarrow> 'a \<Rightarrow> bool) \<Rightarrow> (string \<Rightarrow> 'a result) \<Rightarrow> string \<Rightarrow> 'a list result" where
  "string_to_set Y lt from val =
     rbind (yaml_Load Y val) (\<lambda>node.
     rbind (seq_elems Y from node [0..<node_size node]) (\<lambda>xs.
       Inr (foldl (\<lambda>s x. fst (set_insert lt x s)) [] xs)))"

definition string_to_unordered_set :: "yaml_cpp \<Rightarrow> (string \<Rightarrow> 'a result) \<Rightarrow> string \<Rightarrow> 'a set result" where
  "string_to_unordered_set Y from val =
     rbind (yaml_Load Y val) (\<lambda>node.
     rbind (seq_elems Y from node [0..<node_size node]) (\<lambda>xs. Inr (set xs)))"

text \<open>The other direction: the values in iteration order become a sequence.\<close>

fun seq_nodes :: "yaml_cpp \<Rightarrow> ('a \<Rightarrow> string result) \<Rightarrow> 'a list \<Rightarrow> Node list result" where
  "seq_nodes Y to [] = Inr []"
| "seq_nodes Y to (v # vs) =
     rbind (to v) (\<lambda>s. rbind (yaml_Load Y s) (\<lambda>n. rbind (seq_nodes Y to vs) (\<lambda>ns. Inr (n # ns))))"

definition vector_to_string :: "yaml_cpp \<Rightarrow> ('a \<Rightarrow> string result) \<Rightarrow> 'a list \<Rightarrow> string result" where
  "vector_to_string Y to val = rbind (seq_nodes Y to val) (\<lambda>ns. Inr (yaml_emit Y (Sequence ns)))"

definition list_to_string :: "yaml_cpp \<Rightarrow> ('a \<Rightarrow> string result) \<Rightarrow> 'a list \<Rightarrow> string result" where
  "list_to_string Y to val = rbind (seq_nodes Y to val) (\<lambda>ns. Inr (yaml_emit Y (Sequence ns)))"

definition set_to_string :: "yaml_cpp \<Rightarrow> ('a \<Rightarrow> string result) \<Rightarrow> 'a list \<Rightarrow> string result" where
  "set_to_string Y to val = rbind (seq_nodes Y to val) (\<lambda>ns. Inr (yaml_emit Y (Sequence ns)))"

definition unordered_set_to_string :: "yaml_cpp \<Rightarrow> ('a \<Rightarrow> string result) \<Rightarrow> 'a list \<Rightarrow> string result" where
  "unordered_set_to_string Y to val = rbind (seq_nodes Y to val) (\<lambda>ns. Inr (yaml_emit Y (Sequence ns)))"

text \<open>Maps: \<^verbatim>\<open>insert\<close> keeps the first of two equal keys.\<close>

fun map_elems :: "yaml_cpp \<Rightarrow> (string \<Rightarrow> 'a result) \<Rightarrow> (string \<times> Node) list \<Rightarrow> (string \<rightharpoonup> 'a) \<Rightarrow> (string \<rightharpoonup> 'a) result" where
  "map_elems Y from [] m = Inr m"
| "map_elems Y from ((k, n) # kvs) m =
     rbind (from (yaml_emit Y n)) (\<lambda>x. map_elems Y from kvs (if m k = None then m(k \<mapsto> x) else m))"

definition string_to_map :: "yaml_cpp \<Rightarrow> (string \<Rightarrow> 'a result) \<Rightarrow> string \<Rightarrow> (string \<rightharpoonup> 'a) result" where
  "string_to_map Y from val =
     rbind (yaml_Load Y val) (\<lambda>node. rbind (node_pairs node) (\<lambda>kvs. map_elems Y from kvs Map.empty))"

definition string_to_unordered_map :: "yaml_cpp \<Rightarrow> (string \<Rightarrow> 'a result) \<Rightarrow> string \<Rightarrow> (string \<rightharpoonup> 'a) result" where
  "string_to_unordered_map Y from val =
     rbind (yaml_Load Y val) (\<lambda>node. rbind (node_pairs node) (\<lambda>kvs. map_elems Y from kvs Map.empty))"

fun map_nodes :: "yaml_cpp \<Rightarrow> ('a \<Rightarrow> string result) \<Rightarrow> (string \<times> 'a) list \<Rightarrow> (string \<times> Node) list \<Rightarrow>
    (string \<times> Node) list result" where
  "map_nodes Y to [] kvs = Inr kvs"
| "map_nodes Y to ((key, v) # vs) kvs =
     rbind (to v) (\<lambda>s. rbind (yaml_Load Y s) (\<lambda>n. map_nodes Y to vs (node_assign key n kvs)))"

definition map_to_string :: "yaml_cpp \<Rightarrow> ('a \<Rightarrow> string result) \<Rightarrow> (string \<times> 'a) list \<Rightarrow> string result" where
  "map_to_string Y to val = rbind (map_nodes Y to val []) (\<lambda>kvs. Inr (yaml_emit Y (Map kvs)))"

definition unordered_map_to_string :: "yaml_cpp \<Rightarrow> ('a \<Rightarrow> string result) \<Rightarrow> (string \<times> 'a) list \<Rightarrow> string result" where
  "unordered_map_to_string Y to val = rbind (map_nodes Y to val []) (\<lambda>kvs. Inr (yaml_emit Y (Map kvs)))"

section \<open>Configuration variables\<close>

text \<open>
  One record for the variables of all types: \<open>'v\<close> holds the values, \<open>var_type\<close> names the type and
  \<open>FromStr\<close>, \<open>ToStr\<close> are its conversions. A listener changes the state \<open>'s\<close> of the program and may throw.
\<close>

type_synonym ('v, 's) on_change_cb = "'v \<Rightarrow> 'v \<Rightarrow> 's \<Rightarrow> fault option \<times> 's"

record ('v, 's) ConfigVar =
  var_name :: string
  var_description :: string
  var_type :: string
  FromStr :: "string \<Rightarrow> 'v result"
  ToStr :: "'v \<Rightarrow> string result"
  m_val :: 'v
  m_cbs :: "(u64 \<times> ('v, 's) on_change_cb) list"

definition ConfigVar_new ::
  "string \<Rightarrow> 'v \<Rightarrow> string \<Rightarrow> string \<Rightarrow> (string \<Rightarrow> 'v result) \<Rightarrow> ('v \<Rightarrow> string result) \<Rightarrow> ('v, 's) ConfigVar" where
  "ConfigVar_new name default_value description tname from to =
     \<lparr>var_name = ToLower name, var_description = description, var_type = tname,
      FromStr = from, ToStr = to, m_val = default_value, m_cbs = []\<rparr>"

text \<open>A standard exception is logged and gives the empty string.\<close>

definition toString :: "('v, 's) ConfigVar \<Rightarrow> string result" where
  "toString var =
     (case ToStr var (m_val var) of
        Inl (Exception e) \<Rightarrow> Inr []
      | r \<Rightarrow> r)"

definition getValue :: "('v, 's) ConfigVar \<Rightarrow> 'v" where
  "getValue var = m_val var"

fun run_cbs :: "(u64 \<times> ('v, 's) on_change_cb) list \<Rightarrow> 'v \<Rightarrow> 'v \<Rightarrow> 's \<Rightarrow> fault option \<times> 's" where
  "run_cbs [] old new s = (None, s)"
| "run_cbs ((key, cb) # cbs) old new s =
     (case cb old new s of
        (Some e, s') \<Rightarrow> (Some e, s')
      | (None, s') \<Rightarrow> run_cbs cbs old new s')"

definition setValue ::
  "'v \<Rightarrow> ('v, 's) ConfigVar \<Rightarrow> 's \<Rightarrow> fault option \<times> ('v, 's) ConfigVar \<times> 's" where
  "setValue val var s =
     (if m_val var = val then (None, var, s)
      else
        (case run_cbs (m_cbs var) (m_val var) val s of
           (Some e, s') \<Rightarrow> (Some e, var, s')
         | (None, s') \<Rightarrow> (None, var\<lparr>m_val := val\<rparr>, s')))"

text \<open>\<^verbatim>\<open>fromString\<close> swallows standard exceptions; when it returns, it returns \<^verbatim>\<open>false\<close>.\<close>

definition fromString ::
  "string \<Rightarrow> ('v, 's) ConfigVar \<Rightarrow> 's \<Rightarrow> bool result \<times> ('v, 's) ConfigVar \<times> 's" where
  "fromString val var s =
     (case FromStr var val of
        Inl (Exception e) \<Rightarrow> (Inr False, var, s)
      | Inl e \<Rightarrow> (Inl e, var, s)
      | Inr v \<Rightarrow>
          (case setValue v var s of
             (None, var', s') \<Rightarrow> (Inr False, var', s')
           | (Some (Exception e), var', s') \<Rightarrow> (Inr False, var', s')
           | (Some e, var', s') \<Rightarrow> (Inl e, var', s')))"

text \<open>\<^verbatim>\<open>m_cbs[key] = cb\<close> on a \<^verbatim>\<open>std::map\<close>, its entries in the order of the keys.\<close>

fun cbs_assign :: "u64 \<Rightarrow> 'c \<Rightarrow> (u64 \<times> 'c) list \<Rightarrow> (u64 \<times> 'c) list" where
  "cbs_assign key cb [] = [(key, cb)]"
| "cbs_assign key cb ((k, c) # cbs) =
     (if k < key then (k, c) # cbs_assign key cb cbs
      else if k = key then (k, cb) # cbs
      else (key, cb) # (k, c) # cbs)"

text \<open>\<open>s_fun_id\<close> is the static counter of the variable's type; the call returns it incremented.\<close>

definition addListener ::
  "('v, 's) on_change_cb \<Rightarrow> u64 \<Rightarrow> ('v, 's) ConfigVar \<Rightarrow> u64 \<times> ('v, 's) ConfigVar" where
  "addListener cb s_fun_id var =
     (s_fun_id + 1, var\<lparr>m_cbs := cbs_assign (s_fun_id + 1) cb (m_cbs var)\<rparr>)"

definition delListener :: "u64 \<Rightarrow> ('v, 's) ConfigVar \<Rightarrow> ('v, 's) ConfigVar" where
  "delListener key var = var\<lparr>m_cbs := filter (\<lambda>(k, c). k \<noteq> key) (m_cbs var)\<rparr>"

definition getListener :: "u64 \<Rightarrow> ('v, 's) ConfigVar \<Rightarrow> ('v, 's) on_change_cb option" where
  "getListener key var = map_of (m_cbs var) key"

definition clearListener :: "('v, 's) ConfigVar \<Rightarrow> ('v, 's) ConfigVar" where
  "clearListener var = var\<lparr>m_cbs := []\<rparr>"

section \<open>The registry\<close>

text \<open>
  Variables are never removed, so the key stands for the shared pointer to its variable. The order of
  \<open>s_datas\<close> is the iteration order of the unordered map.
\<close>

record ('v, 's) Config =
  s_datas :: "(string \<times> ('v, 's) ConfigVar) list"
  s_file2modifytime :: "string \<Rightarrow> u64"

definition name_chars :: string where
  "name_chars = ''abcdefghikjlmnopqrstuvwxyz._012345678''"

definition valid_name :: "string \<Rightarrow> bool" where
  "valid_name name \<longleftrightarrow> list_all (\<lambda>c. c \<in> set name_chars) name"

text \<open>\<^verbatim>\<open>Lookup\<close> with a default: the variable, or the null pointer when it has another type.\<close>

definition Lookup_default ::
  "string \<Rightarrow> 'v \<Rightarrow> string \<Rightarrow> string \<Rightarrow> (string \<Rightarrow> 'v result) \<Rightarrow> ('v \<Rightarrow> string result) \<Rightarrow>
   ('v, 's) Config \<Rightarrow> (string option \<times> ('v, 's) Config) result" where
  "Lookup_default name default_value description tname from to cfg =
     (case map_of (s_datas cfg) name of
        Some var \<Rightarrow> Inr (if var_type var = tname then Some name else None, cfg)
      | None \<Rightarrow>
          if \<not> valid_name name then Inl (Exception name)
          else Inr (Some name,
            cfg\<lparr>s_datas := (name, ConfigVar_new name default_value description tname from to) # s_datas cfg\<rparr>))"

definition Lookup :: "string \<Rightarrow> string \<Rightarrow> ('v, 's) Config \<Rightarrow> string option" where
  "Lookup tname name cfg =
     (case map_of (s_datas cfg) name of
        None \<Rightarrow> None
      | Some var \<Rightarrow> if var_type var = tname then Some name else None)"

definition LookupBase :: "string \<Rightarrow> ('v, 's) Config \<Rightarrow> ('v, 's) ConfigVar option" where
  "LookupBase name cfg = map_of (s_datas cfg) name"

text \<open>Writing back the variable of a key.\<close>

definition store_var :: "string \<Rightarrow> ('v, 's) ConfigVar \<Rightarrow> ('v, 's) Config \<Rightarrow> ('v, 's) Config" where
  "store_var name var cfg =
     cfg\<lparr>s_datas := map (\<lambda>(k, w). if k = name then (k, var) else (k, w)) (s_datas cfg)\<rparr>"

section \<open>Loading\<close>

definition child_name :: "string \<Rightarrow> string \<Rightarrow> string" where
  "child_name prefix k = (if prefix = [] then k else prefix @ ''.'' @ k)"

fun ListAllMember :: "string \<Rightarrow> Node \<Rightarrow> (string \<times> Node) list" where
  "ListAllMember prefix node =
     (if \<not> valid_name prefix then []
      else (prefix, node) #
        (case node of
           Map kvs \<Rightarrow> concat (map (\<lambda>(k, n). ListAllMember (child_name prefix k) n) kvs)
         | _ \<Rightarrow> []))"

declare ListAllMember.simps [simp del]

text \<open>The text a node is converted from.\<close>

fun node_text :: "yaml_cpp \<Rightarrow> Node \<Rightarrow> string" where
  "node_text Y (Scalar s) = s"
| "node_text Y node = yaml_emit Y node"

fun load_members ::
  "yaml_cpp \<Rightarrow> (string \<times> Node) list \<Rightarrow> ('v, 's) Config \<Rightarrow> 's \<Rightarrow> fault option \<times> ('v, 's) Config \<times> 's" where
  "load_members Y [] cfg s = (None, cfg, s)"
| "load_members Y ((name, node) # ms) cfg s =
     (if name = [] then load_members Y ms cfg s
      else
        (case LookupBase (ToLower name) cfg of
           None \<Rightarrow> load_members Y ms cfg s
         | Some var \<Rightarrow>
             (case fromString (node_text Y node) var s of
                (Inl e, var', s') \<Rightarrow> (Some e, store_var (ToLower name) var' cfg, s')
              | (Inr _, var', s') \<Rightarrow> load_members Y ms (store_var (ToLower name) var' cfg) s')))"

definition LoadFromYaml ::
  "yaml_cpp \<Rightarrow> Node \<Rightarrow> ('v, 's) Config \<Rightarrow> 's \<Rightarrow> fault option \<times> ('v, 's) Config \<times> 's" where
  "LoadFromYaml Y root cfg s = load_members Y (ListAllMember [] root) cfg s"

text \<open>
  The loop of \<^verbatim>\<open>LoadFromConfDir\<close>. \<open>mtime\<close> is \<^verbatim>\<open>st_mtime\<close> of a file as \<^verbatim>\<open>lstat\<close> reports it (\<open>None\<close> when
  it fails and leaves the buffer uninitialised), \<open>LoadFile\<close> the document in the file; every exception is caught.
\<close>

fun load_files ::
  "yaml_cpp \<Rightarrow> (string \<Rightarrow> u64 option) \<Rightarrow> (string \<Rightarrow> Node result) \<Rightarrow> bool \<Rightarrow> string list \<Rightarrow>
   ('v, 's) Config \<Rightarrow> 's \<Rightarrow> fault option \<times> ('v, 's) Config \<times> 's" where
  "load_files Y mtime LoadFile force [] cfg s = (None, cfg, s)"
| "load_files Y mtime LoadFile force (file # files) cfg s =
     (case mtime file of
        None \<Rightarrow> (Some (UndefinedBehaviour ''st is uninitialised''), cfg, s)
      | Some t \<Rightarrow>
          if \<not> force \<and> s_file2modifytime cfg file = t then load_files Y mtime LoadFile force files cfg s
          else
            (let cfg1 = cfg\<lparr>s_file2modifytime := (s_file2modifytime cfg)(file := t)\<rparr>
             in case LoadFile file of
                  Inl (Exception e) \<Rightarrow> load_files Y mtime LoadFile force files cfg1 s
                | Inl e \<Rightarrow> (Some e, cfg1, s)
                | Inr root \<Rightarrow>
                    (case LoadFromYaml Y root cfg1 s of
                       (Some (Exception e), cfg2, s2) \<Rightarrow> load_files Y mtime LoadFile force files cfg2 s2
                     | (Some e, cfg2, s2) \<Rightarrow> (Some e, cfg2, s2)
                     | (None, cfg2, s2) \<Rightarrow> load_files Y mtime LoadFile force files cfg2 s2)))"

definition LoadFromConfDir ::
  "yaml_cpp \<Rightarrow> 'f fsys \<Rightarrow> 'f \<Rightarrow> nat \<Rightarrow> (string \<Rightarrow> u64 option) \<Rightarrow> (string \<Rightarrow> Node result) \<Rightarrow> Env \<Rightarrow> string \<Rightarrow> bool \<Rightarrow>
   ('v, 's) Config \<Rightarrow> 's \<Rightarrow> (fault option \<times> ('v, 's) Config \<times> 's) option" where
  "LoadFromConfDir Y F f fuel mtime LoadFile env path force cfg s =
     (case ListAllFile F f ''.yml'' fuel [] (getAbsolutePath path env) of
        None \<Rightarrow> None
      | Some files \<Rightarrow> Some (load_files Y mtime LoadFile force files cfg s))"

text \<open>\<^verbatim>\<open>Visit\<close>: the callback sees every variable.\<close>

definition Visit :: "(('v, 's) ConfigVar \<Rightarrow> 's \<Rightarrow> 's) \<Rightarrow> ('v, 's) Config \<Rightarrow> 's \<Rightarrow> 's" where
  "Visit cb cfg s = foldl (\<lambda>s (k, var). cb var s) s (s_datas cfg)"

section \<open>Specification\<close>

text \<open>The nodes below a document's root with the keys that lead to them, and the dotted name of a path.\<close>

inductive path_node :: "Node \<Rightarrow> string list \<Rightarrow> Node \<Rightarrow> bool" where
  here: "path_node n [] n"
| below: "(k, n) \<in> set kvs \<Longrightarrow> path_node n ks m \<Longrightarrow> path_node (Map kvs) (k # ks) m"

inductive_simps path_node_leaf [simp]:
  "path_node Null ks m"
  "path_node (Scalar s) ks m"
  "path_node (Sequence ns) ks m"

definition dot_join :: "string \<Rightarrow> string list \<Rightarrow> string" where
  "dot_join prefix ks = foldl child_name prefix ks"

text \<open>The texts a document has for a variable, in document order, and the value they leave.\<close>

definition texts :: "yaml_cpp \<Rightarrow> (string \<times> Node) list \<Rightarrow> string \<Rightarrow> string list" where
  "texts Y ms name = map (\<lambda>m. node_text Y (snd m)) (filter (\<lambda>m. fst m = name \<and> name \<noteq> []) ms)"

definition load_value :: "(string \<Rightarrow> 'v result) \<Rightarrow> 'v \<Rightarrow> string \<Rightarrow> 'v" where
  "load_value from v text = (case from text of Inl e \<Rightarrow> v | Inr w \<Rightarrow> w)"

text \<open>
  The registry's invariant: keys are distinct, valid and the names of their variables. A well-behaved
  registry has conversions that fail only with standard exceptions and listeners that return.
\<close>

definition registry_ok :: "('v, 's) Config \<Rightarrow> bool" where
  "registry_ok cfg \<longleftrightarrow> distinct (map fst (s_datas cfg)) \<and>
     (\<forall>(k, var)\<in>set (s_datas cfg). valid_name k \<and> var_name var = k)"

definition var_behaves :: "('v, 's) ConfigVar \<Rightarrow> bool" where
  "var_behaves var \<longleftrightarrow> (\<forall>text e. FromStr var text = Inl e \<longrightarrow> (\<exists>m. e = Exception m)) \<and>
     (\<forall>(k, cb)\<in>set (m_cbs var). \<forall>old new s. fst (cb old new s) = None)"

definition registry_behaves :: "('v, 's) Config \<Rightarrow> bool" where
  "registry_behaves cfg \<longleftrightarrow> (\<forall>(k, var)\<in>set (s_datas cfg). var_behaves var)"

section \<open>Lemmas\<close>

subsection \<open>Names\<close>

lemma valid_name_simps [simp]:
  "valid_name []"
  "valid_name (a @ b) \<longleftrightarrow> valid_name a \<and> valid_name b"
  by (auto simp: valid_name_def)

lemma valid_name_dot [simp]: "valid_name (CHR ''.'' # k) \<longleftrightarrow> valid_name k"
  by (simp add: valid_name_def name_chars_def)

lemma tolower_name_chars: "c \<in> set name_chars \<Longrightarrow> tolower c = c"
  by (auto simp: name_chars_def tolower_def code_def)

lemma ToLower_valid: "valid_name name \<Longrightarrow> ToLower name = name"
  by (auto simp: valid_name_def ToLower_def list_all_iff tolower_name_chars intro: map_idI)

subsection \<open>Members of a document\<close>

lemma valid_dot_join: "valid_name (dot_join p ks) \<longleftrightarrow> valid_name p \<and> list_all valid_name ks"
proof (induction ks arbitrary: p)
  case (Cons k ks)
  then show ?case by (auto simp: dot_join_def child_name_def)
qed (simp add: dot_join_def)

lemma ListAllMember_path:
  "(name, m) \<in> set (ListAllMember prefix node) \<longleftrightarrow>
   (\<exists>ks. path_node node ks m \<and> name = dot_join prefix ks \<and> valid_name prefix \<and> list_all valid_name ks)"
proof (induction prefix node arbitrary: name m rule: ListAllMember.induct)
  case (1 prefix node)
  show ?case
  proof (cases "valid_name prefix")
    case False
    then show ?thesis by (simp add: ListAllMember.simps)
  next
    case valid: True
    then have next_valid: "valid_name (child_name prefix k) \<longleftrightarrow> valid_name k" for k by (simp add: child_name_def)
    show ?thesis
    proof (cases node)
      case (Map kvs)
      have IH: "(name, m) \<in> set (ListAllMember (child_name prefix k) n) \<longleftrightarrow>
          (\<exists>ks. path_node n ks m \<and> name = dot_join (child_name prefix k) ks \<and> valid_name k \<and> list_all valid_name ks)"
        if "(k, n) \<in> set kvs" for k n
        using "1" [of kvs "(k, n)" k n name m] valid Map that next_valid by simp
      have "(name, m) \<in> set (ListAllMember prefix node) \<longleftrightarrow>
          name = prefix \<and> m = node \<or> (\<exists>(k, n)\<in>set kvs. (name, m) \<in> set (ListAllMember (child_name prefix k) n))"
        using valid by (subst ListAllMember.simps) (auto simp: Map)
      also have "\<dots> \<longleftrightarrow> name = prefix \<and> m = node \<or> (\<exists>(k, n)\<in>set kvs. \<exists>ks. path_node n ks m \<and>
          name = dot_join (child_name prefix k) ks \<and> valid_name k \<and> list_all valid_name ks)"
        using IH by blast
      also have "\<dots> \<longleftrightarrow> (\<exists>ks. path_node node ks m \<and> name = dot_join prefix ks \<and> list_all valid_name ks)"
      proof (intro iffI; elim exE conjE disjE)
        assume "name = prefix" "m = node"
        then show "\<exists>ks. path_node node ks m \<and> name = dot_join prefix ks \<and> list_all valid_name ks"
          by (intro exI [of _ "[]"]) (simp add: dot_join_def path_node.here)
      next
        assume "\<exists>(k, n)\<in>set kvs. \<exists>ks. path_node n ks m \<and>
          name = dot_join (child_name prefix k) ks \<and> valid_name k \<and> list_all valid_name ks"
        then obtain k n ks where "(k, n) \<in> set kvs" "path_node n ks m"
          "name = dot_join (child_name prefix k) ks" "valid_name k" "list_all valid_name ks" by blast
        then show "\<exists>ks. path_node node ks m \<and> name = dot_join prefix ks \<and> list_all valid_name ks"
          by (intro exI [of _ "k # ks"]) (auto simp: Map dot_join_def intro: path_node.below)
      next
        fix ks
        assume "path_node node ks m" "name = dot_join prefix ks" "list_all valid_name ks"
        then show "name = prefix \<and> m = node \<or> (\<exists>(k, n)\<in>set kvs. \<exists>ks. path_node n ks m \<and>
          name = dot_join (child_name prefix k) ks \<and> valid_name k \<and> list_all valid_name ks)"
          by cases (fastforce simp: Map dot_join_def)+
      qed
      finally show ?thesis using valid by simp
    qed (auto simp: ListAllMember.simps [of prefix] valid dot_join_def)
  qed
qed

lemma ListAllMember_valid: "m \<in> set (ListAllMember [] node) \<Longrightarrow> valid_name (fst m)"
  using ListAllMember_path [of "fst m" "snd m" "[]" node] by (auto simp: valid_dot_join)

subsection \<open>Variables\<close>

lemma var_behaves_upd [simp]: "var_behaves (var\<lparr>m_val := v\<rparr>) = var_behaves var"
  by (simp add: var_behaves_def)

lemma run_cbs_behave: "\<forall>(k, cb)\<in>set cbs. \<forall>old new s. fst (cb old new s) = None \<Longrightarrow> fst (run_cbs cbs old new s) = None"
proof (induction cbs arbitrary: s)
  case (Cons c cbs)
  obtain k cb where c: "c = (k, cb)" by force
  with Cons.prems have "fst (cb old new s) = None" by simp
  with Cons c show ?case by (cases "cb old new s") simp
qed simp

lemma setValue_behaves:
  assumes "var_behaves var"
  shows "\<exists>s'. setValue v var s = (None, var\<lparr>m_val := v\<rparr>, s')"
  using run_cbs_behave [of "m_cbs var" "m_val var" v s] assms
  by (cases "run_cbs (m_cbs var) (m_val var) v s") (auto simp: setValue_def var_behaves_def)

lemma fromString_behaves:
  assumes "var_behaves var"
  shows "\<exists>s'. fromString text var s = (Inr False, var\<lparr>m_val := load_value (FromStr var) (m_val var) text\<rparr>, s')"
proof (cases "FromStr var text")
  case (Inl e)
  with assms obtain m where "e = Exception m" by (auto simp: var_behaves_def)
  with Inl show ?thesis by (simp add: fromString_def load_value_def)
next
  case (Inr v)
  with setValue_behaves [OF assms, of v s] show ?thesis by (auto simp: fromString_def load_value_def)
qed

text \<open>Whatever the listeners do, loading a variable changes at most its value.\<close>

lemma fromString_frame: "fst (snd (fromString text var s)) = var\<lparr>m_val := m_val (fst (snd (fromString text var s)))\<rparr>"
  by (auto simp: fromString_def setValue_def split: sum.split fault.split prod.split option.split)

subsection \<open>The registry\<close>

lemma map_of_store: "map_of (s_datas (store_var name var cfg)) k =
    (if k = name then map_option (\<lambda>_. var) (map_of (s_datas cfg) k) else map_of (s_datas cfg) k)"
proof -
  have "map_of (map (\<lambda>(k, w). if k = name then (k, var) else (k, w)) xs) k =
      (if k = name then map_option (\<lambda>_. var) (map_of xs k) else map_of xs k)" for xs
    by (induction xs) auto
  then show ?thesis by (simp add: store_var_def)
qed

lemma keys_store [simp]: "map fst (s_datas (store_var name var cfg)) = map fst (s_datas cfg)"
  by (auto simp: store_var_def)

lemma in_store: "(k, w) \<in> set (s_datas (store_var name var cfg)) \<Longrightarrow>
    if k = name then w = var else (k, w) \<in> set (s_datas cfg)"
  by (auto simp: store_var_def split: if_splits)

lemma mtime_store [simp]: "s_file2modifytime (store_var name var cfg) = s_file2modifytime cfg"
  by (simp add: store_var_def)

lemma registry_ok_store:
  assumes "registry_ok cfg" "LookupBase name cfg = Some var" "var_name var' = var_name var"
  shows "registry_ok (store_var name var' cfg)"
proof -
  have "(name, var) \<in> set (s_datas cfg)" using assms(2) by (simp add: LookupBase_def map_of_SomeD)
  then have "valid_name name \<and> var_name var' = name" using assms(1,3) by (auto simp: registry_ok_def)
  then show ?thesis using assms(1) by (auto simp: registry_ok_def dest!: in_store split: if_splits)
qed

lemma load_members_ok: "registry_ok cfg \<Longrightarrow> registry_ok (fst (snd (load_members Y ms cfg s)))"
proof (induction Y ms cfg s rule: load_members.induct)
  case (2 Y name node ms cfg s)
  show ?case
  proof (cases "LookupBase (ToLower name) cfg")
    case (Some var)
    obtain r var' s' where f: "fromString (node_text Y node) var s = (r, var', s')" by (metis prod_cases3)
    have "var_name var' = var_name var"
      using fromString_frame [of "node_text Y node" var s]
      by (simp add: f) (metis ConfigVar.simps(1) ConfigVar.surjective ConfigVar.update_convs(6))
    then have "registry_ok (store_var (ToLower name) var' cfg)" using registry_ok_store "2.prems" Some by blast
    with 2 Some f show ?thesis by (cases r) auto
  qed (use 2 in auto)
qed simp

text \<open>No variable is removed, and of each only the value changes.\<close>

definition keeps_variables :: "('v, 's) Config \<Rightarrow> ('v, 's) Config \<Rightarrow> bool" where
  "keeps_variables cfg cfg' \<longleftrightarrow>
     (\<forall>name var. LookupBase name cfg = Some var \<longrightarrow> (\<exists>v. LookupBase name cfg' = Some (var\<lparr>m_val := v\<rparr>)))"

lemma same_value: "\<exists>v. (var :: ('v, 's) ConfigVar) = var\<lparr>m_val := v\<rparr>"
  by (metis ConfigVar.surjective ConfigVar.update_convs(6))

lemma keeps_variables_refl [simp]: "keeps_variables cfg cfg"
  by (simp add: keeps_variables_def same_value)

lemma keeps_variables_trans [trans]:
  assumes "keeps_variables a b" "keeps_variables b c"
  shows "keeps_variables a c"
  using assms unfolding keeps_variables_def by (metis ConfigVar.update_convs(6) ConfigVar.surjective ConfigVar.select_convs)

lemma store_keeps_variables:
  assumes "LookupBase name cfg = Some var" "var' = var\<lparr>m_val := v\<rparr>"
  shows "keeps_variables cfg (store_var name var' cfg)"
  using assms by (auto simp: keeps_variables_def LookupBase_def map_of_store same_value)

lemma load_members_keeps: "keeps_variables cfg (fst (snd (load_members Y ms cfg s)))"
proof (induction Y ms cfg s rule: load_members.induct)
  case (2 Y name node ms cfg s)
  show ?case
  proof (cases "LookupBase (ToLower name) cfg")
    case (Some var)
    obtain r var' s' where f: "fromString (node_text Y node) var s = (r, var', s')" by (metis prod_cases3)
    have "keeps_variables cfg (store_var (ToLower name) var' cfg)"
      using fromString_frame [of "node_text Y node" var s] by (intro store_keeps_variables [OF Some]) (simp add: f)
    with 2 Some f show ?thesis by (cases r) (auto intro: keeps_variables_trans)
  qed (use 2 in auto)
qed simp

lemma load_members_mtime: "s_file2modifytime (fst (snd (load_members Y ms cfg s))) = s_file2modifytime cfg"
  by (induction Y ms cfg s rule: load_members.induct) (auto split: option.split prod.split sum.split)

text \<open>The members of a name act on its variable alone, in document order.\<close>

text \<open>
  What a registry and its state need for loading to go through: some \<open>I\<close> that every member that is \<open>ok\<close>
  keeps, its variable taking over the value.
\<close>

locale loading =
  fixes Y :: yaml_cpp
    and I :: "('v, 's) Config \<Rightarrow> 's \<Rightarrow> bool"
    and ok :: "string \<times> Node \<Rightarrow> bool"
  assumes load_step: "I cfg s \<Longrightarrow> ok (name, node) \<Longrightarrow> ToLower name = name \<Longrightarrow> LookupBase name cfg = Some var \<Longrightarrow>
    v = load_value (FromStr var) (m_val var) (node_text Y node) \<Longrightarrow>
    \<exists>s'. fromString (node_text Y node) var s = (Inr False, var\<lparr>m_val := v\<rparr>, s') \<and>
      I (store_var name (var\<lparr>m_val := v\<rparr>) cfg) s'"
begin

lemma members_values:
  assumes "I cfg s" "list_all ok ms" "list_all (\<lambda>m. valid_name (fst m)) ms"
  shows "\<exists>cfg' s'. load_members Y ms cfg s = (None, cfg', s') \<and> I cfg' s' \<and>
    (\<forall>name. map_of (s_datas cfg') name =
       map_option (\<lambda>var. var\<lparr>m_val := foldl (load_value (FromStr var)) (m_val var) (texts Y ms name)\<rparr>)
         (map_of (s_datas cfg) name))"
  using assms
proof (induction ms arbitrary: cfg s)
  case Nil
  then show ?case by (auto simp: texts_def option.map_ident)
next
  case (Cons m ms)
  obtain name node where m: "m = (name, node)" by force
  have low: "ToLower name = name" using Cons.prems m by (simp add: ToLower_valid)
  show ?case
  proof (cases "name = [] \<or> LookupBase name cfg = None")
    case True
    obtain cfg' s' where IH: "load_members Y ms cfg s = (None, cfg', s')" "I cfg' s'"
      "\<forall>name. map_of (s_datas cfg') name =
       map_option (\<lambda>var. var\<lparr>m_val := foldl (load_value (FromStr var)) (m_val var) (texts Y ms name)\<rparr>)
         (map_of (s_datas cfg) name)"
      using Cons.IH [of cfg s] Cons.prems by auto
    moreover have "load_members Y (m # ms) cfg s = load_members Y ms cfg s" using True m low by auto
    moreover have "texts Y (m # ms) k = texts Y ms k" if "map_of (s_datas cfg) k \<noteq> None" for k
      using True m that by (auto simp: texts_def LookupBase_def)
    ultimately show ?thesis by (auto simp: map_option_case split: option.split)
  next
    case False
    then obtain var where var: "LookupBase name cfg = Some var" "name \<noteq> []" by auto
    let ?var = "var\<lparr>m_val := load_value (FromStr var) (m_val var) (node_text Y node)\<rparr>"
    obtain s1 where f: "fromString (node_text Y node) var s = (Inr False, ?var, s1)" "I (store_var name ?var cfg) s1"
      using load_step [OF Cons.prems(1) _ low var(1) refl] Cons.prems(2) m by auto
    then obtain cfg' s' where IH: "load_members Y ms (store_var name ?var cfg) s1 = (None, cfg', s')" "I cfg' s'"
      "\<forall>k. map_of (s_datas cfg') k =
       map_option (\<lambda>var. var\<lparr>m_val := foldl (load_value (FromStr var)) (m_val var) (texts Y ms k)\<rparr>)
         (map_of (s_datas (store_var name ?var cfg)) k)"
      using Cons.IH [of "store_var name ?var cfg" s1] Cons.prems by auto
    have "map_of (s_datas cfg') k =
       map_option (\<lambda>var. var\<lparr>m_val := foldl (load_value (FromStr var)) (m_val var) (texts Y (m # ms) k)\<rparr>)
         (map_of (s_datas cfg) k)" for k
      using IH(3) var m by (cases "k = name") (auto simp: map_of_store texts_def LookupBase_def)
    moreover have "load_members Y (m # ms) cfg s = (None, cfg', s')" using m low var f(1) IH(1) by simp
    ultimately show ?thesis using IH(2) by blast
  qed
qed

end

lemma registry_behaves_step:
  assumes "registry_behaves cfg" "LookupBase name cfg = Some var" "v = load_value (FromStr var) (m_val var) (node_text Y node)"
  shows "\<exists>s'. fromString (node_text Y node) var s = (Inr False, var\<lparr>m_val := v\<rparr>, s') \<and>
    registry_behaves (store_var name (var\<lparr>m_val := v\<rparr>) cfg)"
proof -
  have "(name, var) \<in> set (s_datas cfg)" using assms(2) by (simp add: LookupBase_def map_of_SomeD)
  with assms(1) have vb: "var_behaves var" by (auto simp: registry_behaves_def)
  moreover have "registry_behaves (store_var name (var\<lparr>m_val := v\<rparr>) cfg)"
    using assms(1) vb by (auto simp: registry_behaves_def dest!: in_store split: if_splits)
  ultimately show ?thesis using fromString_behaves [OF vb] assms(3) by blast
qed

interpretation behaving: loading Y "\<lambda>cfg s. registry_behaves cfg" "\<lambda>m. True" for Y
  by unfold_locales (rule registry_behaves_step)

subsection \<open>Configuration files\<close>

lemma load_files_step:
  assumes "load_files Y mtime LoadFile force (fl # files) cfg s = (None, cfg', s')"
  obtains t cfg2 s2 where "mtime fl = Some t" "load_files Y mtime LoadFile force files cfg2 s2 = (None, cfg', s')"
    "s_file2modifytime cfg2 = (s_file2modifytime cfg)(fl := t)"
proof -
  obtain t where t: "mtime fl = Some t" using assms by (auto split: option.splits)
  let ?cfg1 = "cfg\<lparr>s_file2modifytime := (s_file2modifytime cfg)(fl := t)\<rparr>"
  show thesis
  proof (cases "\<not> force \<and> s_file2modifytime cfg fl = t")
    case True
    then show thesis using that [of t cfg s] assms t by (auto simp: fun_upd_idem)
  next
    case False
    note run = assms [simplified t load_files.simps option.case False if_False Let_def]
    show thesis
    proof (cases "LoadFile fl")
      case (Inl e)
      then show thesis using that [of t ?cfg1 s] run t by (cases e) auto
    next
      case (Inr root)
      obtain e cfg2 s2 where y: "LoadFromYaml Y root ?cfg1 s = (e, cfg2, s2)" by (metis prod_cases3)
      have "s_file2modifytime cfg2 = s_file2modifytime ?cfg1"
        using load_members_mtime [of Y "ListAllMember [] root" ?cfg1 s] y by (simp add: LoadFromYaml_def)
      then show thesis using that [of t cfg2 s2] run t Inr y by (auto split: option.splits fault.splits)
    qed
  qed
qed

lemma load_files_mtimes:
  assumes "load_files Y mtime LoadFile force files cfg s = (None, cfg', s')"
  shows "(\<forall>fl\<in>set files. mtime fl = Some (s_file2modifytime cfg' fl)) \<and>
    (\<forall>fl. s_file2modifytime cfg' fl = s_file2modifytime cfg fl \<or> mtime fl = Some (s_file2modifytime cfg' fl))"
  using assms
proof (induction files arbitrary: cfg s)
  case (Cons fl files)
  from Cons.prems obtain t cfg2 s2 where step: "mtime fl = Some t"
    "load_files Y mtime LoadFile force files cfg2 s2 = (None, cfg', s')"
    "s_file2modifytime cfg2 = (s_file2modifytime cfg)(fl := t)" by (rule load_files_step)
  with Cons.IH [OF step(2)] show ?case by (auto split: if_splits)
qed simp

lemma load_files_unchanged:
  assumes "\<forall>fl\<in>set files. mtime fl = Some (s_file2modifytime cfg fl)"
  shows "load_files Y mtime LoadFile False files cfg s = (None, cfg, s)"
  using assms by (induction files) auto

subsection \<open>Conversions\<close>

text \<open>A node that stands for a value: what printing the value loads to, and what converts back to it.\<close>

definition stands_for :: "yaml_cpp \<Rightarrow> ('a \<Rightarrow> string result) \<Rightarrow> (string \<Rightarrow> 'a result) \<Rightarrow> 'a \<Rightarrow> Node \<Rightarrow> bool" where
  "stands_for Y to from x n \<longleftrightarrow> rbind (to x) (yaml_Load Y) = Inr n \<and> from (yaml_emit Y n) = Inr x"

lemma seq_nodes_stand: "list_all2 (stands_for Y to from) xs ns \<Longrightarrow> seq_nodes Y to xs = Inr ns"
  by (induction rule: list_all2_induct) (auto simp: stands_for_def rbind_eq_Inr)

lemma seq_elems_stand:
  assumes "list_all2 (stands_for Y to from) xs ns" "\<And>i. i < length ns \<Longrightarrow> yaml_index Y node (k + i) = Inr (ns ! i)"
  shows "seq_elems Y from node [k..<k + length ns] = Inr xs"
  using assms
proof (induction xs ns arbitrary: k rule: list_all2_induct)
  case (Cons x xs n ns)
  have "yaml_index Y node k = Inr n" using Cons.prems [of 0] by simp
  moreover have "seq_elems Y from node [Suc k..<Suc k + length ns] = Inr xs"
    using Cons.IH [of "Suc k"] Cons.prems [of "Suc _"] by simp
  ultimately show ?case using Cons.hyps(1) by (simp add: upt_conv_Cons stands_for_def del: upt_Suc)
qed simp

lemma map_nodes_stand:
  assumes "list_all2 (stands_for Y to from) (map snd kxs) ns" "distinct (map fst kvs @ map fst kxs)"
  shows "map_nodes Y to kxs kvs = Inr (kvs @ zip (map fst kxs) ns)"
  using assms
proof (induction kxs arbitrary: kvs ns)
  case (Cons kx kxs)
  obtain k x where kx: "kx = (k, x)" by force
  with Cons.prems(1) obtain n ns' where ns: "ns = n # ns'" "stands_for Y to from x n"
    "list_all2 (stands_for Y to from) (map snd kxs) ns'" by (auto simp: list_all2_Cons1)
  have "node_assign k n kvs = kvs @ [(k, n)]" if "k \<notin> fst ` set kvs" for kvs using that by (induction kvs) auto
  with Cons.prems(2) kx have "node_assign k n kvs = kvs @ [(k, n)]" by auto
  then show ?case using Cons.IH [OF ns(3), of "kvs @ [(k, n)]"] Cons.prems(2) ns kx by (auto simp: stands_for_def rbind_eq_Inr)
qed simp

lemma map_elems_stand:
  assumes "list_all2 (stands_for Y to from) (map snd kxs) ns" "distinct (map fst kxs)" "dom m \<inter> fst ` set kxs = {}"
  shows "map_elems Y from (zip (map fst kxs) ns) m = Inr (m ++ map_of kxs)"
  using assms
proof (induction kxs arbitrary: ns m)
  case (Cons kx kxs)
  obtain k x where kx: "kx = (k, x)" by force
  with Cons.prems(1) obtain n ns' where ns: "ns = n # ns'" "stands_for Y to from x n"
    "list_all2 (stands_for Y to from) (map snd kxs) ns'" by (auto simp: list_all2_Cons1)
  have "map_elems Y from (zip (map fst kxs) ns') (m(k \<mapsto> x)) = Inr (m(k \<mapsto> x) ++ map_of kxs)"
    using Cons.IH [OF ns(3)] Cons.prems(2,3) kx by auto
  moreover have "m(k \<mapsto> x) ++ map_of kxs = m ++ map_of ((k, x) # kxs)"
    using Cons.prems(2) kx by (simp add: map_add_upd_left dom_map_of_conv_image_fst)
  moreover have "m k = None" using Cons.prems(3) kx by auto
  ultimately show ?case using ns kx by (simp add: stands_for_def del: map_of.simps)
qed simp

lemma set_insert_sorted:
  assumes "strict_weak_order lt" "sorted_wrt lt (ys @ xs)"
  shows "foldl (\<lambda>s x. fst (set_insert lt x s)) ys xs = ys @ xs"
  using assms(2)
proof (induction xs arbitrary: ys)
  case (Cons x xs)
  have all: "\<forall>y\<in>set ys. lt y x" using Cons.prems by (simp add: sorted_wrt_append)
  then have "set_lower_bound lt x ys = length ys" by (induction ys) auto
  then have "fst (set_insert lt x ys) = ys @ [x]" by (simp add: set_insert_def)
  then show ?case using Cons.IH [of "ys @ [x]"] Cons.prems by simp
qed simp

section \<open>Properties\<close>

text \<open>
  C19. Loading a document into a registry whose conversions and listeners behave returns, and leaves in
  every variable the value of the last text under its name that converts, or its old value; nothing else
  of a variable changes, and the texts are those of the nodes reached by valid keys whose dotted path is
  the name.
\<close>

theorem LoadFromYaml_values:
  assumes "registry_behaves cfg"
  shows "(\<exists>cfg' s'. LoadFromYaml Y root cfg s = (None, cfg', s') \<and>
    (\<forall>name. map_of (s_datas cfg') name =
       map_option (\<lambda>var. var\<lparr>m_val := foldl (load_value (FromStr var)) (m_val var) (texts Y (ListAllMember [] root) name)\<rparr>)
         (map_of (s_datas cfg) name))) \<and>
    (\<forall>name n. (name, n) \<in> set (ListAllMember [] root) \<longleftrightarrow>
       (\<exists>ks. path_node root ks n \<and> list_all valid_name ks \<and> name = dot_join [] ks))"
proof -
  have "list_all (\<lambda>m. valid_name (fst m)) (ListAllMember [] root)"
    using ListAllMember_valid [of _ root] by (simp add: list_all_iff)
  from behaving.members_values [of cfg "ListAllMember [] root" Y s] assms this show ?thesis
    by (auto simp: LoadFromYaml_def ListAllMember_path list_all_iff)
qed

definition tcp_config :: "(string, unit) Config" where
  "tcp_config = \<lparr>s_datas = [(''tcp.port'', ConfigVar_new ''tcp.port'' ''80'' [] ''string'' Inr Inr)],
     s_file2modifytime = (\<lambda>_. 0)\<rparr>"

definition tcp_document :: Node where
  "tcp_document = Map [(''tcp'', Map [(''port'', Scalar ''81'')])]"

definition flow_yaml :: yaml_cpp where
  "flow_yaml = \<lparr>yaml_Load = (\<lambda>s. if s = ''[1, 2]'' then Inr (Sequence [Scalar ''1'', Scalar ''2''])
        else if s = ''{a: 1, b: 2}'' then Inr (Map [(''a'', Scalar ''1''), (''b'', Scalar ''2'')])
        else Inr (Scalar s)),
      yaml_emit = (\<lambda>n. case n of Scalar s \<Rightarrow> s | Map kvs \<Rightarrow> ''{a: 1, b: 2}'' | _ \<Rightarrow> ''[1, 2]''),
      yaml_index = (\<lambda>n i. case n of Sequence ns \<Rightarrow> if i < length ns then Inr (ns ! i) else Inl (Exception ''InvalidNode'')
        | _ \<Rightarrow> Inl (Exception ''InvalidNode'')),
      yaml_key = (\<lambda>n k. case n of Map kvs \<Rightarrow> Inr (map_of kvs k) | _ \<Rightarrow> Inl (Exception ''BadSubscript'')),
      yaml_as_string = (\<lambda>n. case n of Scalar s \<Rightarrow> Inr s | _ \<Rightarrow> Inl (Exception ''BadConversion''))\<rparr>"

theorem LoadFromYaml_values_witness:
  "(\<exists>cfg' s'. LoadFromYaml flow_yaml tcp_document tcp_config () = (None, cfg', s') \<and>
     map_option m_val (map_of (s_datas cfg') ''tcp.port'') = Some ''81'') \<and>
   (\<forall>name n. (name, n) \<in> set (ListAllMember [] tcp_document) \<longleftrightarrow>
       (\<exists>ks. path_node tcp_document ks n \<and> list_all valid_name ks \<and> name = dot_join [] ks))"
proof -
  have "registry_behaves tcp_config"
    by (simp add: registry_behaves_def tcp_config_def ConfigVar_new_def var_behaves_def)
  from LoadFromYaml_values [OF this, of flow_yaml tcp_document "()"]
  show ?thesis
    by (auto simp: tcp_document_def tcp_config_def ConfigVar_new_def texts_def ListAllMember.simps valid_name_def
      name_chars_def child_name_def load_value_def)
qed

text \<open>
  Looking up and loading keep the registry's invariant: keys are distinct, valid and the names of their
  variables. A successful lookup with a default makes the variable visible to the lookup of its type and
  changes no variable that was there.
\<close>

theorem registry_invariant:
  assumes "registry_ok cfg"
  shows "registry_ok (fst (snd (LoadFromYaml Y root cfg s))) \<and>
    (case Lookup_default name dv desc tname from to cfg of
       Inl e \<Rightarrow> e = Exception name \<and> \<not> valid_name name \<and> LookupBase name cfg = None
     | Inr (p, cfg') \<Rightarrow> registry_ok cfg' \<and> Lookup tname name cfg' = p \<and>
         (\<forall>k var. LookupBase k cfg = Some var \<longrightarrow> LookupBase k cfg' = Some var) \<and>
         (p = None \<longrightarrow> cfg' = cfg \<and> (\<exists>var. LookupBase name cfg = Some var \<and> var_type var \<noteq> tname)))"
proof (cases "map_of (s_datas cfg) name")
  case None
  then have "name \<notin> fst ` set (s_datas cfg)" by (simp add: map_of_eq_None_iff)
  then show ?thesis
    using assms None load_members_ok [OF assms]
    by (auto simp: Lookup_default_def Lookup_def LookupBase_def LoadFromYaml_def registry_ok_def ConfigVar_new_def ToLower_valid)
next
  case (Some var)
  then show ?thesis
    using assms load_members_ok [OF assms] by (auto simp: Lookup_default_def Lookup_def LookupBase_def LoadFromYaml_def)
qed

theorem registry_invariant_witness:
  "registry_ok (fst (snd (LoadFromYaml flow_yaml tcp_document tcp_config ()))) \<and>
   (case Lookup_default ''tcp.ip'' ''0'' [] ''string'' Inr Inr tcp_config of
       Inl e \<Rightarrow> e = Exception ''tcp.ip'' \<and> \<not> valid_name ''tcp.ip'' \<and> LookupBase ''tcp.ip'' tcp_config = None
     | Inr (p, cfg') \<Rightarrow> registry_ok cfg' \<and> Lookup ''string'' ''tcp.ip'' cfg' = p \<and>
         (\<forall>k var. LookupBase k tcp_config = Some var \<longrightarrow> LookupBase k cfg' = Some var) \<and>
         (p = None \<longrightarrow> cfg' = tcp_config \<and> (\<exists>var. LookupBase ''tcp.ip'' tcp_config = Some var \<and> var_type var \<noteq> ''string'')))"
proof -
  have "valid_name ''tcp.port''" by (simp add: valid_name_def name_chars_def)
  then have "registry_ok tcp_config"
    by (simp add: registry_ok_def tcp_config_def ConfigVar_new_def ToLower_valid)
  from registry_invariant [OF this] show ?thesis .
qed

text \<open>
  C29. A directory that was loaded is not loaded again while its files keep their modification times: the
  next unforced call changes nothing, whatever the first call found in the files.
\<close>

theorem LoadFromConfDir_idempotent:
  assumes "LoadFromConfDir Y F f fuel mtime LoadFile env path force cfg s = Some (None, cfg', s')"
  shows "LoadFromConfDir Y F f fuel mtime LoadFile env path False cfg' t = Some (None, cfg', t)"
proof -
  from assms obtain files where files: "ListAllFile F f ''.yml'' fuel [] (getAbsolutePath path env) = Some files"
    "load_files Y mtime LoadFile force files cfg s = (None, cfg', s')"
    by (auto simp: LoadFromConfDir_def split: option.splits)
  then show ?thesis using load_files_mtimes [OF files(2)] load_files_unchanged [of files mtime cfg' Y LoadFile t]
    by (simp add: LoadFromConfDir_def)
qed

theorem LoadFromConfDir_idempotent_witness:
  "\<exists>cfg'. LoadFromConfDir flow_yaml conf_fs () 2 (\<lambda>_. Some 7) (\<lambda>_. Inr tcp_document) Env_new ''c'' True tcp_config () =
       Some (None, cfg', ()) \<and>
     LoadFromConfDir flow_yaml conf_fs () 2 (\<lambda>_. Some 7) (\<lambda>_. Inr tcp_document) Env_new ''c'' False cfg' () =
       Some (None, cfg', ())"
proof -
  have "ListAllFile conf_fs () ''.yml'' 2 [] (getAbsolutePath ''c'' Env_new) = Some [''c/a.yml'', ''c/d/e.yml'']"
    by (simp add: conf_fs_def is_dots_def has_subfix_def getAbsolutePath_def Env_new_def numeral_2_eq_2)
  moreover have "\<exists>cfg'. load_files flow_yaml (\<lambda>_. Some 7) (\<lambda>_. Inr tcp_document) True [''c/a.yml'', ''c/d/e.yml'']
      tcp_config () = (None, cfg', ())"
    by (simp add: LoadFromYaml_def tcp_document_def tcp_config_def ConfigVar_new_def ListAllMember.simps valid_name_def
      name_chars_def child_name_def LookupBase_def ToLower_def tolower_def code_def fromString_def setValue_def store_var_def)
  ultimately obtain cfg' where "LoadFromConfDir flow_yaml conf_fs () 2 (\<lambda>_. Some 7) (\<lambda>_. Inr tcp_document) Env_new ''c'' True
      tcp_config () = Some (None, cfg', ())" by (auto simp: LoadFromConfDir_def)
  with LoadFromConfDir_idempotent [OF this] show ?thesis by blast
qed

text \<open>
  Containers survive printing and reading. If every element is printed to a text that loads to a node
  that reads back as the element, and the document made of these nodes loads to what was printed, then vectors,
  lists and sorted sets are read back unchanged, and maps with the same entries.
\<close>

theorem container_roundtrip:
  assumes "list_all2 (stands_for Y to from) (map snd kxs) ns"
    and "\<forall>i<length ns. yaml_index Y (Sequence ns) i = Inr (ns ! i)"
    and "yaml_Load Y (yaml_emit Y (Sequence ns)) = Inr (Sequence ns)"
    and "yaml_Load Y (yaml_emit Y (Map (zip (map fst kxs) ns))) = Inr (Map (zip (map fst kxs) ns))"
    and "distinct (map fst kxs)" "strict_weak_order lt" "sorted_wrt lt (map snd kxs)"
  shows "rbind (vector_to_string Y to (map snd kxs)) (string_to_vector Y from) = Inr (map snd kxs) \<and>
    rbind (list_to_string Y to (map snd kxs)) (string_to_list Y from) = Inr (map snd kxs) \<and>
    rbind (set_to_string Y to (map snd kxs)) (string_to_set Y lt from) = Inr (map snd kxs) \<and>
    rbind (unordered_set_to_string Y to (map snd kxs)) (string_to_unordered_set Y from) = Inr (set (map snd kxs)) \<and>
    rbind (map_to_string Y to kxs) (string_to_map Y from) = Inr (map_of kxs) \<and>
    rbind (unordered_map_to_string Y to kxs) (string_to_unordered_map Y from) = Inr (map_of kxs)"
proof -
  have "seq_elems Y from (Sequence ns) [0..<length ns] = Inr (map snd kxs)"
    using seq_elems_stand [OF assms(1), of "Sequence ns" 0] assms(2) by simp
  moreover have "map_elems Y from (zip (map fst kxs) ns) Map.empty = Inr (map_of kxs)"
    using map_elems_stand [OF assms(1,5), of Map.empty] by simp
  ultimately show ?thesis
    using seq_nodes_stand [OF assms(1)] map_nodes_stand [OF assms(1), of "[]"] set_insert_sorted [OF assms(6), of "[]"] assms
    by (simp add: vector_to_string_def string_to_vector_def list_to_string_def string_to_list_def set_to_string_def
      string_to_set_def unordered_set_to_string_def string_to_unordered_set_def map_to_string_def string_to_map_def
      unordered_map_to_string_def string_to_unordered_map_def)
qed

theorem container_roundtrip_witness:
  "rbind (vector_to_string flow_yaml Inr [''1'', ''2'']) (string_to_vector flow_yaml Inr) = Inr [''1'', ''2''] \<and>
   rbind (map_to_string flow_yaml Inr [(''a'', ''1''), (''b'', ''2'')]) (string_to_map flow_yaml Inr) =
     Inr (map_of [(''a'', ''1''), (''b'', ''2'')])"
proof -
  have "strict_weak_order (\<lambda>a b. digits_value a < digits_value b)"
    by unfold_locales auto
  then show ?thesis
    using container_roundtrip [of flow_yaml Inr Inr "[(''a'', ''1''), (''b'', ''2'')]" "[Scalar ''1'', Scalar ''2'']"
      "\<lambda>a b. digits_value a < digits_value b"]
    by (simp add: stands_for_def flow_yaml_def less_Suc_eq_0_disj digits_value_def code_def)
qed

end
