(* ===== verification/LogFormat.thy ===== *)
theory LogFormat
  imports Util
begin

text \<open>
  The levels, events and the pattern formatter of \<^verbatim>\<open>sylar/log.cpp\<close> and \<^verbatim>\<open>sylar/log.h\<close>. The parser of
  \<^verbatim>\<open>LogFormatter::init\<close> is translated with its index into the pattern; what the C library makes of a date
  format is a parameter.
\<close>

section \<open>Levels\<close>

datatype Level = FATAL | ALERT | CRIT | ERROR | WARN | NOTICE | INFO | DEBUG | NOTSET

fun level_value :: "Level \<Rightarrow> nat" where
  "level_value FATAL = 0"
| "level_value ALERT = 100"
| "level_value CRIT = 200"
| "level_value ERROR = 300"
| "level_value WARN = 400"
| "level_value NOTICE = 500"
| "level_value INFO = 600"
| "level_value DEBUG = 700"
| "level_value NOTSET = 800"

fun ToString :: "Level \<Rightarrow> string" where
  "ToString FATAL = ''FATAL''"
| "ToString ALERT = ''ALERT''"
| "ToString CRIT = ''CRIT''"
| "ToString ERROR = ''ERROR''"
| "ToString WARN = ''WARN''"
| "ToString NOTICE = ''NOTICE''"
| "ToString INFO = ''INFO''"
| "ToString DEBUG = ''DEBUG''"
| "ToString NOTSET = ''NOTSET''"

definition FromString :: "string \<Rightarrow> Level" where
  "FromString str =
     (if str = ''fatal'' then FATAL
      else if str = ''alert'' then ALERT
      else if str = ''crit'' then CRIT
      else if str = ''error'' then ERROR
      else if str = ''warn'' then WARN
      else if str = ''notice'' then NOTICE
      else if str = ''info'' then INFO
      else if str = ''debug'' then DEBUG
      else if str = ''FATAL'' then FATAL
      else if str = ''ALERT'' then ALERT
      else if str = ''CRIT'' then CRIT
      else if str = ''ERROR'' then ERROR
      else if str = ''WARN'' then WARN
      else if str = ''NOTICE'' then NOTICE
      else if str = ''INFO'' then INFO
      else if str = ''DEBUG'' then DEBUG
      else NOTSET)"

text \<open>Levels compare by their values: a smaller level is more severe.\<close>

instantiation Level :: linorder
begin

definition less_eq_Level :: "Level \<Rightarrow> Level \<Rightarrow> bool" where
  "less_eq_Level a b \<longleftrightarrow> level_value a \<le> level_value b"

definition less_Level :: "Level \<Rightarrow> Level \<Rightarrow> bool" where
  "less_Level a b \<longleftrightarrow> level_value a < level_value b"

instance
proof
  fix a b :: Level
  assume "a \<le> b" "b \<le> a"
  then have "level_value a = level_value b" by (simp add: less_eq_Level_def)
  then show "a = b" by (cases a; cases b) simp_all
qed (auto simp: less_eq_Level_def less_Level_def)

end

section \<open>Events\<close>

text \<open>Signed members are words read with \<^const>\<open>sint\<close>.\<close>

record LogEvent =
  m_level :: Level
  m_ss :: string
  m_file :: string
  m_line :: u32
  m_elapse :: u64
  m_threadId :: u32
  m_fiberId :: u64
  m_time :: u64
  m_threadName :: string
  m_loggerName :: string

definition LogEvent_new ::
  "string \<Rightarrow> Level \<Rightarrow> string \<Rightarrow> u32 \<Rightarrow> u64 \<Rightarrow> u32 \<Rightarrow> u64 \<Rightarrow> u64 \<Rightarrow> string \<Rightarrow> LogEvent" where
  "LogEvent_new logger_name level file line elapse thread_id fiber_id time thread_name =
     \<lparr>m_level = level, m_ss = [], m_file = file, m_line = line, m_elapse = elapse,
      m_threadId = thread_id, m_fiberId = fiber_id, m_time = time,
      m_threadName = thread_name, m_loggerName = logger_name\<rparr>"

text \<open>\<open>out\<close> is what \<^verbatim>\<open>vasprintf\<close> produced, \<open>None\<close> for the result -1.\<close>

definition vprintf :: "string option \<Rightarrow> LogEvent \<Rightarrow> LogEvent" where
  "vprintf out event = (case out of None \<Rightarrow> event | Some s \<Rightarrow> event\<lparr>m_ss := m_ss event @ s\<rparr>)"

section \<open>Format items\<close>

datatype FormatItem =
    MessageFormatItem
  | LevelFormatItem
  | ElapseFormatItem
  | LoggerNameFormatItem
  | ThreadIdFormatItem
  | FiberIdFormatItem
  | ThreadNameFormatItem
  | DateTimeFormatItem string
  | FileNameFormatItem
  | LineFormatItem
  | NewLineFormatItem
  | StringFormatItem string
  | TabFormatItem
  | PercentSignFormatItem

definition default_date :: string where
  "default_date = ''%Y-%m-%d %H:%M:%S''"

definition DateTimeFormatItem_new :: "string \<Rightarrow> FormatItem" where
  "DateTimeFormatItem_new str = DateTimeFormatItem (if str = [] then default_date else str)"

text \<open>
  \<open>strftime\<close> gives the full text of a format at a time. The item formats into 64 bytes; what does not fit
  leaves the buffer unspecified, and the item prints it.
\<close>

fun item_format :: "(string \<Rightarrow> u64 \<Rightarrow> string) \<Rightarrow> FormatItem \<Rightarrow> LogEvent \<Rightarrow> string result" where
  "item_format strftime MessageFormatItem event = Inr (m_ss event)"
| "item_format strftime LevelFormatItem event = Inr (ToString (m_level event))"
| "item_format strftime ElapseFormatItem event = Inr (show_int (sint (m_elapse event)))"
| "item_format strftime LoggerNameFormatItem event = Inr (m_loggerName event)"
| "item_format strftime ThreadIdFormatItem event = Inr (decimal (unat (m_threadId event)))"
| "item_format strftime FiberIdFormatItem event = Inr (decimal (unat (m_fiberId event)))"
| "item_format strftime ThreadNameFormatItem event = Inr (m_threadName event)"
| "item_format strftime (DateTimeFormatItem m_format) event =
     (let text = strftime (c_str m_format) (m_time event)
      in if length text < 64 then Inr text else Inl (UndefinedBehaviour ''strftime did not fit''))"
| "item_format strftime FileNameFormatItem event = Inr (m_file event)"
| "item_format strftime LineFormatItem event = Inr (show_int (sint (m_line event)))"
| "item_format strftime NewLineFormatItem event = Inr [CHR 0x0A]"
| "item_format strftime (StringFormatItem m_string) event = Inr m_string"
| "item_format strftime TabFormatItem event = Inr [CHR 0x09]"
| "item_format strftime PercentSignFormatItem event = Inr ''%''"

section \<open>The formatter\<close>

record LogFormatter =
  m_pattern :: string
  m_items :: "FormatItem list"
  m_error :: bool

text \<open>The inner loop of \<^verbatim>\<open>init\<close>: read a date format up to the closing brace.\<close>

function date_loop :: "string \<Rightarrow> nat \<Rightarrow> string \<Rightarrow> nat \<times> string" where
  "date_loop pattern i dateFormat =
     (if i < length pattern \<and> pattern ! i \<noteq> CHR ''}''
      then date_loop pattern (i + 1) (dateFormat @ [pattern ! i])
      else (i, dateFormat))"
  by pat_completeness auto
termination
  by (relation "measure (\<lambda>(pattern, i, _). length pattern - i)") auto

declare date_loop.simps [simp del]

lemma date_loop_ge: "date_loop pattern i d = (i', d') \<Longrightarrow> i \<le> i'"
proof (induction pattern i d rule: date_loop.induct)
  case (1 pattern i d)
  show ?case
  proof (cases "i < length pattern \<and> pattern ! i \<noteq> CHR ''}''")
    case True
    with 1 show ?thesis by (simp add: date_loop.simps [of pattern i])
  next
    case False
    with 1 show ?thesis by (auto simp: date_loop.simps [of pattern i])
  qed
qed

text \<open>
  The outer loop of \<^verbatim>\<open>init\<close>. It ends with the error flag, the patterns (0 for text, 1 for a conversion), the
  pending text and the date format; reading behind the terminator of the pattern is undefined.
\<close>

type_synonym parse_state = "bool \<times> (nat \<times> string) list \<times> string \<times> string"

function init_loop ::
  "string \<Rightarrow> nat \<Rightarrow> bool \<Rightarrow> string \<Rightarrow> string \<Rightarrow> (nat \<times> string) list \<Rightarrow> parse_state result" where
  "init_loop pattern i parsing_string tmp dateFormat patterns =
     (if i < length pattern then
        (if pattern ! i = CHR ''%'' then
           if parsing_string then
             init_loop pattern (i + 1) False [] dateFormat (if tmp \<noteq> [] then patterns @ [(0, tmp)] else patterns)
           else
             init_loop pattern (i + 1) True tmp dateFormat (patterns @ [(1, [pattern ! i])])
         else if parsing_string then
           init_loop pattern (i + 1) True (tmp @ [pattern ! i]) dateFormat patterns
         else if pattern ! i \<noteq> CHR ''d'' then
           init_loop pattern (i + 1) True tmp dateFormat (patterns @ [(1, [pattern ! i])])
         else if i + 1 < length pattern \<and> pattern ! (i + 1) \<noteq> CHR ''{'' then
           init_loop pattern (i + 1) True tmp dateFormat (patterns @ [(1, [pattern ! i])])
         else
           (case date_loop pattern (i + 2) dateFormat of
              (j, date) \<Rightarrow>
                if length pattern < j then Inl (UndefinedBehaviour ''m_pattern[i] out of range'')
                else if j = length pattern \<or> pattern ! j \<noteq> CHR ''}'' then
                  Inr (True, patterns @ [(1, [pattern ! i])], tmp, date)
                else
                  init_loop pattern (j + 1) True tmp date (patterns @ [(1, [pattern ! i])])))
      else Inr (False, patterns, tmp, dateFormat))"
  by pat_completeness auto
termination
  by (relation "measure (\<lambda>(pattern, i, _). length pattern - i)") (auto dest!: date_loop_ge [OF sym])

declare init_loop.simps [simp del]

text \<open>\<^verbatim>\<open>s_format_items\<close>: the item a conversion letter makes.\<close>

definition format_items :: "string \<Rightarrow> (string \<Rightarrow> FormatItem) option" where
  "format_items = map_of
     [(''m'', \<lambda>fmt. MessageFormatItem),
      (''p'', \<lambda>fmt. LevelFormatItem),
      (''c'', \<lambda>fmt. LoggerNameFormatItem),
      (''d'', \<lambda>fmt. DateTimeFormatItem_new fmt),
      (''r'', \<lambda>fmt. ElapseFormatItem),
      (''f'', \<lambda>fmt. FileNameFormatItem),
      (''l'', \<lambda>fmt. LineFormatItem),
      (''t'', \<lambda>fmt. ThreadIdFormatItem),
      (''F'', \<lambda>fmt. FiberIdFormatItem),
      (''N'', \<lambda>fmt. ThreadNameFormatItem),
      (''%'', \<lambda>fmt. PercentSignFormatItem),
      (''T'', \<lambda>fmt. TabFormatItem),
      (''n'', \<lambda>fmt. NewLineFormatItem)]"

text \<open>The loop that fills \<^verbatim>\<open>m_items\<close>: the items and the error flag.\<close>

fun make_items :: "string \<Rightarrow> (nat \<times> string) list \<Rightarrow> FormatItem list \<Rightarrow> FormatItem list \<times> bool" where
  "make_items dateFormat [] items = (items, False)"
| "make_items dateFormat ((patternType, patternStr) # ps) items =
     (if patternType = 0 then make_items dateFormat ps (items @ [StringFormatItem patternStr])
      else if patternStr = ''d'' then make_items dateFormat ps (items @ [DateTimeFormatItem_new dateFormat])
      else
        (case format_items patternStr of
           Some factory \<Rightarrow> make_items dateFormat ps (items @ [factory patternStr])
         | None \<Rightarrow> (items, True)))"

definition LogFormatter_init :: "LogFormatter \<Rightarrow> LogFormatter result" where
  "LogFormatter_init f =
     rbind (init_loop (m_pattern f) 0 True [] [] []) (\<lambda>(error, patterns, tmp, dateFormat).
       if error then Inr (f\<lparr>m_error := True\<rparr>)
       else
         (case make_items dateFormat (if tmp \<noteq> [] then patterns @ [(0, tmp)] else patterns) (m_items f) of
            (items, error) \<Rightarrow> Inr (f\<lparr>m_items := items, m_error := m_error f \<or> error\<rparr>)))"

definition LogFormatter_new :: "string \<Rightarrow> LogFormatter result" where
  "LogFormatter_new pattern = LogFormatter_init \<lparr>m_pattern = pattern, m_items = [], m_error = False\<rparr>"

definition default_pattern :: string where
  "default_pattern = ''%d{%Y-%m-%d %H:%M:%S} [%rms]%T%t%T%N%T%F%T[%p]%T[%c]%T%f:%l%T%m%n''"

text \<open>\<^verbatim>\<open>LogFormatter::format\<close>: the items in order.\<close>

fun format_items_loop :: "(string \<Rightarrow> u64 \<Rightarrow> string) \<Rightarrow> FormatItem list \<Rightarrow> LogEvent \<Rightarrow> string \<Rightarrow> string result" where
  "format_items_loop strftime [] event ss = Inr ss"
| "format_items_loop strftime (it # its) event ss =
     rbind (item_format strftime it event) (\<lambda>text. format_items_loop strftime its event (ss @ text))"

definition LogFormatter_format :: "(string \<Rightarrow> u64 \<Rightarrow> string) \<Rightarrow> LogFormatter \<Rightarrow> LogEvent \<Rightarrow> string result" where
  "LogFormatter_format strftime f event = format_items_loop strftime (m_items f) event []"

section \<open>Specification of patterns\<close>

text \<open>
  A pattern is a sequence of pieces: text without a percent sign, a conversion letter other than \<^verbatim>\<open>d\<close>, and
  a date with or without a format in braces.
\<close>

datatype piece = Text string | Conv char | Date "string option"

fun render_piece :: "piece \<Rightarrow> string" where
  "render_piece (Text s) = s"
| "render_piece (Conv c) = [CHR ''%'', c]"
| "render_piece (Date None) = ''%d''"
| "render_piece (Date (Some fmt)) = ''%d{'' @ fmt @ ''}''"

definition render_pattern :: "piece list \<Rightarrow> string" where
  "render_pattern ps = concat (map render_piece ps)"

text \<open>
  A date without braces must not be the end of the pattern, and what follows must not start with a brace.
  \<open>rest\<close> is the text behind the pieces.
\<close>

fun pieces_ok :: "piece list \<Rightarrow> string \<Rightarrow> bool" where
  "pieces_ok [] rest \<longleftrightarrow> True"
| "pieces_ok (Text s # ps) rest \<longleftrightarrow> CHR ''%'' \<notin> set s \<and> pieces_ok ps rest"
| "pieces_ok (Conv c # ps) rest \<longleftrightarrow> c \<noteq> CHR ''d'' \<and> pieces_ok ps rest"
| "pieces_ok (Date None # ps) rest \<longleftrightarrow>
     render_pattern ps @ rest \<noteq> [] \<and> hd (render_pattern ps @ rest) \<noteq> CHR ''{'' \<and> pieces_ok ps rest"
| "pieces_ok (Date (Some fmt) # ps) rest \<longleftrightarrow> CHR ''}'' \<notin> set fmt \<and> pieces_ok ps rest"

fun known_piece :: "piece \<Rightarrow> bool" where
  "known_piece (Conv c) \<longleftrightarrow> format_items [c] \<noteq> None"
| "known_piece _ \<longleftrightarrow> True"

text \<open>All dates of a pattern use one format: the formats in braces, one after the other.\<close>

fun piece_date :: "piece \<Rightarrow> string" where
  "piece_date (Date (Some fmt)) = fmt"
| "piece_date _ = []"

definition date_of :: "piece list \<Rightarrow> string" where
  "date_of ps = concat (map piece_date ps)"

text \<open>What one piece prints.\<close>

fun piece_item :: "string \<Rightarrow> piece \<Rightarrow> FormatItem" where
  "piece_item date (Text s) = StringFormatItem s"
| "piece_item date (Conv c) = the (format_items [c]) [c]"
| "piece_item date (Date fmt) = DateTimeFormatItem_new date"

text \<open>The parser's patterns for the pieces, text that is still pending in front.\<close>

definition flush_text :: "string \<Rightarrow> (nat \<times> string) list" where
  "flush_text tmp = (if tmp \<noteq> [] then [(0, tmp)] else [])"

fun tokens :: "string \<Rightarrow> piece list \<Rightarrow> (nat \<times> string) list \<times> string" where
  "tokens tmp [] = ([], tmp)"
| "tokens tmp (Text s # ps) = tokens (tmp @ s) ps"
| "tokens tmp (Conv c # ps) = (case tokens [] ps of (ts, tmp') \<Rightarrow> (flush_text tmp @ (1, [c]) # ts, tmp'))"
| "tokens tmp (Date fmt # ps) = (case tokens [] ps of (ts, tmp') \<Rightarrow> (flush_text tmp @ (1, ''d'') # ts, tmp'))"

section \<open>Lemmas\<close>

lemma ToString_FromString: "FromString (ToString l) = l"
  by (cases l) (simp_all add: FromString_def)

lemma date_loop_read:
  assumes "CHR ''}'' \<notin> set fmt"
  shows "date_loop (pre @ fmt @ rest) (length pre) d = date_loop (pre @ fmt @ rest) (length pre + length fmt) (d @ fmt)"
  using assms
proof (induction fmt arbitrary: pre d)
  case (Cons c fmt)
  then show ?case
    using Cons.IH [of "pre @ [c]" "d @ [c]"] by (auto simp: date_loop.simps [of _ "length pre"])
qed simp

lemma date_loop_stop: "rest = [] \<or> hd rest = CHR ''}'' \<Longrightarrow> date_loop (pre @ rest) (length pre) d = (length pre, d)"
  by (subst date_loop.simps) (cases rest; auto simp: nth_append)

lemma init_loop_text:
  assumes "CHR ''%'' \<notin> set s"
  shows "init_loop (pre @ s @ rest) (length pre) True tmp d ps =
    init_loop (pre @ s @ rest) (length pre + length s) True (tmp @ s) d ps"
  using assms
proof (induction s arbitrary: pre tmp)
  case (Cons c s)
  then show ?case
    using Cons.IH [of "pre @ [c]" "tmp @ [c]"] by (auto simp: init_loop.simps [of _ "length pre"])
qed simp

lemma init_loop_percent:
  "init_loop (pre @ CHR ''%'' # rest) (length pre) True tmp d ps =
   init_loop (pre @ CHR ''%'' # rest) (Suc (length pre)) False [] d (ps @ flush_text tmp)"
  by (subst init_loop.simps) (simp add: flush_text_def)

lemma init_loop_conv:
  assumes "c \<noteq> CHR ''d''"
  shows "init_loop (pre @ c # rest) (length pre) False tmp d ps =
    init_loop (pre @ c # rest) (Suc (length pre)) True tmp d (ps @ [(1, [c])])"
  using assms by (subst init_loop.simps) simp

lemma init_loop_date_plain:
  assumes "rest \<noteq> []" "hd rest \<noteq> CHR ''{''"
  shows "init_loop (pre @ CHR ''d'' # rest) (length pre) False tmp d ps =
    init_loop (pre @ CHR ''d'' # rest) (Suc (length pre)) True tmp d (ps @ [(1, ''d'')])"
  using assms by (subst init_loop.simps) (cases rest; simp add: nth_append)

lemma init_loop_date_format:
  assumes "CHR ''}'' \<notin> set fmt"
  shows "init_loop (pre @ CHR ''d'' # CHR ''{'' # fmt @ CHR ''}'' # rest) (length pre) False tmp d ps =
    init_loop (pre @ CHR ''d'' # CHR ''{'' # fmt @ CHR ''}'' # rest) (length pre + length fmt + 3) True tmp (d @ fmt)
      (ps @ [(1, ''d'')])"
proof -
  let ?p = "pre @ CHR ''d'' # CHR ''{'' # fmt @ CHR ''}'' # rest"
  have "date_loop ?p (length pre + 2) d = (length pre + 2 + length fmt, d @ fmt)"
    using date_loop_read [OF assms, of "pre @ ''d{''" "CHR ''}'' # rest" d]
      date_loop_stop [of "CHR ''}'' # rest" "pre @ ''d{'' @ fmt" "d @ fmt"] by simp
  moreover have "?p ! (length pre + 2 + length fmt) = CHR ''}''"
    using nth_append_length [of "pre @ ''d{'' @ fmt" "CHR ''}''" rest] by simp
  ultimately show ?thesis
    by (subst init_loop.simps) (simp add: nth_append ac_simps numeral_3_eq_3)
qed

lemma init_loop_date_unclosed:
  assumes "CHR ''}'' \<notin> set fmt"
  shows "init_loop (pre @ CHR ''d'' # CHR ''{'' # fmt) (length pre) False tmp d ps =
    Inr (True, ps @ [(1, ''d'')], tmp, d @ fmt)"
proof -
  let ?p = "pre @ CHR ''d'' # CHR ''{'' # fmt"
  have "date_loop ?p (length pre + 2) d = (length pre + 2 + length fmt, d @ fmt)"
    using date_loop_read [OF assms, of "pre @ ''d{''" "[]" d]
      date_loop_stop [of "[]" "pre @ ''d{'' @ fmt" "d @ fmt"] by simp
  then show ?thesis by (subst init_loop.simps) (simp add: nth_append ac_simps)
qed

lemma init_loop_date_end:
  "init_loop (pre @ ''d'') (length pre) False tmp d ps = Inl (UndefinedBehaviour ''m_pattern[i] out of range'')"
proof -
  have "date_loop (pre @ ''d'') (length pre + 2) d = (length pre + 2, d)" by (subst date_loop.simps) simp
  then show ?thesis by (subst init_loop.simps) simp
qed

text \<open>The pieces in front of \<open>rest\<close> are read one by one.\<close>

lemma init_loop_pieces:
  assumes "pieces_ok qs rest"
  shows "init_loop (pre @ render_pattern qs @ rest) (length pre) True tmp d ps =
    init_loop (pre @ render_pattern qs @ rest) (length pre + length (render_pattern qs)) True
      (snd (tokens tmp qs)) (d @ date_of qs) (ps @ fst (tokens tmp qs))"
  using assms
proof (induction qs rest arbitrary: pre tmp d ps rule: pieces_ok.induct)
  case (1 rest)
  then show ?case by (simp add: render_pattern_def date_of_def)
next
  case (2 s qs rest)
  then show ?case
    using init_loop_text [of s pre "render_pattern qs @ rest" tmp d ps] "2.IH" [of "pre @ s" "tmp @ s" d ps]
    by (simp add: render_pattern_def date_of_def ac_simps)
next
  case (3 c qs rest)
  then show ?case
    using init_loop_percent [of pre "c # render_pattern qs @ rest" tmp d ps]
      init_loop_conv [of c "pre @ ''%''" "render_pattern qs @ rest" "[]" d "ps @ flush_text tmp"]
      "3.IH" [of "pre @ [CHR ''%'', c]" "[]" d "ps @ flush_text tmp @ [(1, [c])]"]
    by (simp add: render_pattern_def date_of_def split: prod.split)
next
  case (4 qs rest)
  then show ?case
    using init_loop_percent [of pre "CHR ''d'' # render_pattern qs @ rest" tmp d ps]
      init_loop_date_plain [of "render_pattern qs @ rest" "pre @ ''%''" "[]" d "ps @ flush_text tmp"]
      "4.IH" [of "pre @ ''%d''" "[]" d "ps @ flush_text tmp @ [(1, ''d'')]"]
    by (simp add: render_pattern_def date_of_def split: prod.split)
next
  case (5 fmt qs rest)
  then show ?case
    using init_loop_percent [of pre "''d{'' @ fmt @ CHR ''}'' # render_pattern qs @ rest" tmp d ps]
      init_loop_date_format [of fmt "pre @ ''%''" "render_pattern qs @ rest" "[]" d "ps @ flush_text tmp"]
      "5.IH" [of "pre @ ''%d{'' @ fmt @ ''}''" "[]" "d @ fmt" "ps @ flush_text tmp @ [(1, ''d'')]"]
    by (simp add: render_pattern_def date_of_def ac_simps numeral_3_eq_3 split: prod.split)
qed

text \<open>The item of a pattern, and that known patterns become their items.\<close>

definition token_item :: "string \<Rightarrow> nat \<times> string \<Rightarrow> FormatItem" where
  "token_item date t =
     (if fst t = 0 then StringFormatItem (snd t)
      else if snd t = ''d'' then DateTimeFormatItem_new date
      else the (format_items (snd t)) (snd t))"

definition known_token :: "nat \<times> string \<Rightarrow> bool" where
  "known_token t \<longleftrightarrow> fst t = 0 \<or> snd t = ''d'' \<or> format_items (snd t) \<noteq> None"

lemma make_items_known:
  "list_all known_token ts \<Longrightarrow> make_items date (ts @ us) items = make_items date us (items @ map (token_item date) ts)"
  by (induction ts arbitrary: items) (auto simp: known_token_def token_item_def)

lemma make_items_unknown: "\<not> known_token t \<Longrightarrow> make_items date (t # us) items = (items, True)"
  by (cases t) (auto simp: known_token_def)

lemma tokens_known:
  "list_all known_piece qs \<Longrightarrow> list_all known_token (fst (tokens tmp qs)) \<and> known_token (0, snd (tokens tmp qs))"
  by (induction tmp qs rule: tokens.induct) (auto simp: known_token_def flush_text_def split: prod.split)

lemma tokens_append:
  "tokens tmp (qs @ rs) =
     (case tokens tmp qs of (ts, tmp') \<Rightarrow> case tokens tmp' rs of (us, tmp'') \<Rightarrow> (ts @ us, tmp''))"
  by (induction tmp qs rule: tokens.induct) (auto split: prod.split)

lemma format_loop_append:
  "format_items_loop strf (xs @ ys) ev ss =
     rbind (format_items_loop strf xs ev ss) (format_items_loop strf ys ev)"
  by (induction xs arbitrary: ss) (auto simp: rbind_def split: sum.split)

lemma format_loop_flush:
  "format_items_loop strf (map (token_item date) (flush_text tmp) @ its) ev ss = format_items_loop strf its ev (ss @ tmp)"
  by (simp add: flush_text_def token_item_def)

lemma token_item_simps [simp]:
  "token_item date (0, tmp) = StringFormatItem tmp"
  "token_item date (Suc 0, ''d'') = DateTimeFormatItem_new date"
  "c \<noteq> CHR ''d'' \<Longrightarrow> token_item date (Suc 0, [c]) = the (format_items [c]) [c]"
  by (simp_all add: token_item_def)

text \<open>Merging adjacent text does not change what is printed.\<close>

lemma format_loop_tokens:
  assumes "pieces_ok qs rest"
  shows "format_items_loop strf (map (token_item date) (fst (tokens tmp qs) @ flush_text (snd (tokens tmp qs)))) ev ss =
    format_items_loop strf (map (piece_item date) qs) ev (ss @ tmp)"
  using assms
proof (induction qs rest arbitrary: tmp ss rule: pieces_ok.induct)
  case (1 rest)
  show ?case using format_loop_flush [of strf date tmp "[]"] by simp
qed (simp_all add: format_loop_flush case_prod_beta rbind_def split: sum.split)

lemma LogFormatter_new_pieces:
  assumes "pieces_ok qs []" "list_all known_piece qs"
  shows "LogFormatter_new (render_pattern qs) = Inr \<lparr>m_pattern = render_pattern qs,
    m_items = map (token_item (date_of qs)) (fst (tokens [] qs) @ flush_text (snd (tokens [] qs))), m_error = False\<rparr>"
proof -
  have "init_loop (render_pattern qs) 0 True [] [] [] = Inr (False, fst (tokens [] qs), snd (tokens [] qs), date_of qs)"
    using init_loop_pieces [OF assms(1), of "[]" "[]" "[]" "[]"] by (simp add: init_loop.simps)
  moreover have "list_all known_token (fst (tokens [] qs) @ flush_text (snd (tokens [] qs)))"
    using tokens_known [OF assms(2), of "[]"] by (simp add: flush_text_def)
  from make_items_known [OF this, of "date_of qs" "[]" "[]"]
  have "make_items (date_of qs) (fst (tokens [] qs) @ flush_text (snd (tokens [] qs))) [] =
      (map (token_item (date_of qs)) (fst (tokens [] qs) @ flush_text (snd (tokens [] qs))), False)"
    by simp
  ultimately show ?thesis
    by (auto simp: LogFormatter_new_def LogFormatter_init_def flush_text_def split: if_splits)
qed

lemma LogFormatter_new_loop:
  assumes "pieces_ok qs rest"
  shows "LogFormatter_new (render_pattern qs @ rest) =
    rbind (init_loop (render_pattern qs @ rest) (length (render_pattern qs)) True (snd (tokens [] qs)) (date_of qs)
        (fst (tokens [] qs)))
      (\<lambda>(error, patterns, tmp, dateFormat).
         if error then Inr \<lparr>m_pattern = render_pattern qs @ rest, m_items = [], m_error = True\<rparr>
         else
           (case make_items dateFormat (patterns @ flush_text tmp) [] of
              (items, error) \<Rightarrow> Inr \<lparr>m_pattern = render_pattern qs @ rest, m_items = items, m_error = error\<rparr>))"
  using init_loop_pieces [OF assms, of "[]" "[]" "[]" "[]"]
  by (auto simp: LogFormatter_new_def LogFormatter_init_def flush_text_def rbind_def split: sum.split prod.split)

lemma LogFormatter_unclosed:
  assumes "pieces_ok qs (''%d{'' @ fmt)" "CHR ''}'' \<notin> set fmt"
  shows "LogFormatter_new (render_pattern qs @ ''%d{'' @ fmt) =
    Inr \<lparr>m_pattern = render_pattern qs @ ''%d{'' @ fmt, m_items = [], m_error = True\<rparr>"
  using LogFormatter_new_loop [OF assms(1)] init_loop_percent [of "render_pattern qs" "''d{'' @ fmt"]
    init_loop_date_unclosed [OF assms(2), of "render_pattern qs @ ''%''"] by simp

lemma LogFormatter_date_end:
  assumes "pieces_ok qs ''%d''"
  shows "LogFormatter_new (render_pattern qs @ ''%d'') = Inl (UndefinedBehaviour ''m_pattern[i] out of range'')"
  using LogFormatter_new_loop [OF assms] init_loop_percent [of "render_pattern qs" "''d''"]
    init_loop_date_end [of "render_pattern qs @ ''%''"] by simp

lemma pieces_ok_rest: "pieces_ok qs [] \<Longrightarrow> hd (rest @ ''x'') \<noteq> CHR ''{'' \<Longrightarrow> pieces_ok qs rest"
  by (induction qs "[] :: string" rule: pieces_ok.induct) (auto simp: hd_append split: if_splits)

lemma LogFormatter_percent_end:
  assumes "list_all known_piece qs" "pieces_ok qs []"
  shows "LogFormatter_new (render_pattern qs @ ''%'') = rbind (LogFormatter_new (render_pattern qs))
    (\<lambda>f. Inr (f\<lparr>m_pattern := render_pattern qs @ ''%''\<rparr>))"
proof -
  have "pieces_ok qs ''%''" using pieces_ok_rest [OF assms(2)] by simp
  moreover have "init_loop (render_pattern qs @ ''%'') (Suc (length (render_pattern qs))) False [] d ps = Inr (False, ps, [], d)"
    for d ps by (simp add: init_loop.simps)
  moreover have "list_all known_token (fst (tokens [] qs) @ flush_text (snd (tokens [] qs)))"
    using tokens_known [OF assms(1), of "[]"] by (simp add: flush_text_def)
  ultimately show ?thesis
    using LogFormatter_new_loop [of qs "''%''"] init_loop_percent [of "render_pattern qs" "[]"]
      make_items_known [of "fst (tokens [] qs) @ flush_text (snd (tokens [] qs))" "date_of qs" "[]" "[]"]
      LogFormatter_new_pieces [OF assms(2,1)] by (simp add: flush_text_def)
qed

lemma LogFormatter_unknown:
  assumes "list_all known_piece qs" "pieces_ok (qs @ Conv c # rs) []" "format_items [c] = None"
  shows "\<exists>f. LogFormatter_new (render_pattern (qs @ Conv c # rs)) = Inr f \<and> m_error f"
proof -
  let ?qs = "qs @ Conv c # rs"
  have "c \<noteq> CHR ''d''" using assms(3) by (auto simp: format_items_def)
  then have unk: "\<not> known_token (1, [c])" using assms(3) by (simp add: known_token_def)
  let ?us = "fst (tokens [] rs)"
  have us: "fst (tokens [] ?qs) = (fst (tokens [] qs) @ flush_text (snd (tokens [] qs))) @ (1, [c]) # ?us"
    by (simp add: tokens_append case_prod_beta)
  have kn: "list_all known_token (fst (tokens [] qs) @ flush_text (snd (tokens [] qs)))"
    using tokens_known [OF assms(1), of "[]"] by (simp add: flush_text_def)
  have err: "snd (make_items date (fst (tokens [] ?qs) @ vs) [])" for date vs
    using make_items_known [OF kn, of date "(1, [c]) # ?us @ vs" "[]"] make_items_unknown [OF unk] by (simp add: us)
  have "init_loop (render_pattern ?qs) (length (render_pattern ?qs)) True tmp d ps = Inr (False, ps, tmp, d)" for tmp d ps
    by (simp add: init_loop.simps)
  then show ?thesis
    using LogFormatter_new_loop [OF assms(2)] err by (simp split: prod.split) (metis snd_conv)
qed

section \<open>Properties\<close>

text \<open>
  C21. A pattern made of text, known conversions and closed dates is accepted, and formatting an event
  prints what its pieces print, in order. All dates of the pattern use one format, the concatenation of
  the formats in its braces.
\<close>

theorem pattern_formats:
  assumes "pieces_ok qs []" "list_all known_piece qs"
  shows "\<exists>f. LogFormatter_new (render_pattern qs) = Inr f \<and> \<not> m_error f \<and> m_pattern f = render_pattern qs \<and>
    (\<forall>strf ev. LogFormatter_format strf f ev =
       format_items_loop strf (map (piece_item (date_of qs)) qs) ev [])"
  using LogFormatter_new_pieces [OF assms] format_loop_tokens [OF assms(1), of _ _ "[]" _ "[]"]
  by (simp add: LogFormatter_format_def)

definition default_pieces :: "piece list" where
  "default_pieces = [Date (Some default_date), Text '' ['', Conv CHR ''r'', Text ''ms]'', Conv CHR ''T'', Conv CHR ''t'',
     Conv CHR ''T'', Conv CHR ''N'', Conv CHR ''T'', Conv CHR ''F'', Conv CHR ''T'', Text ''['', Conv CHR ''p'', Text '']'',
     Conv CHR ''T'', Text ''['', Conv CHR ''c'', Text '']'', Conv CHR ''T'', Conv CHR ''f'', Text '':'', Conv CHR ''l'',
     Conv CHR ''T'', Conv CHR ''m'', Conv CHR ''n'']"

theorem pattern_formats_witness:
  "\<exists>f. LogFormatter_new default_pattern = Inr f \<and> \<not> m_error f \<and> m_pattern f = default_pattern \<and>
    (\<forall>strf ev. LogFormatter_format strf f ev =
       format_items_loop strf (map (piece_item default_date) default_pieces) ev [])"
proof -
  have "render_pattern default_pieces = default_pattern" "date_of default_pieces = default_date"
    by (simp_all add: render_pattern_def default_pieces_def default_pattern_def default_date_def date_of_def)
  moreover have "pieces_ok default_pieces []" "list_all known_piece default_pieces"
    by (simp_all add: default_pieces_def default_date_def format_items_def)
  ultimately show ?thesis using pattern_formats [of default_pieces] by simp
qed

text \<open>
  Behind well-formed pieces: an unclosed brace and an unknown conversion are reported as an error, a lone
  percent sign at the end is ignored, and a date at the very end of the pattern reads behind the
  pattern's terminator.
\<close>

theorem pattern_errors:
  assumes "list_all known_piece qs"
  shows "(pieces_ok qs (''%d{'' @ fmt) \<and> CHR ''}'' \<notin> set fmt \<longrightarrow>
      LogFormatter_new (render_pattern qs @ ''%d{'' @ fmt) =
        Inr \<lparr>m_pattern = render_pattern qs @ ''%d{'' @ fmt, m_items = [], m_error = True\<rparr>) \<and>
    (pieces_ok (qs @ Conv c # rs) [] \<and> format_items [c] = None \<longrightarrow>
      (\<exists>f. LogFormatter_new (render_pattern (qs @ Conv c # rs)) = Inr f \<and> m_error f)) \<and>
    (pieces_ok qs [] \<longrightarrow>
      LogFormatter_new (render_pattern qs @ ''%'') = rbind (LogFormatter_new (render_pattern qs))
        (\<lambda>f. Inr (f\<lparr>m_pattern := render_pattern qs @ ''%''\<rparr>))) \<and>
    (pieces_ok qs ''%d'' \<longrightarrow>
      LogFormatter_new (render_pattern qs @ ''%d'') = Inl (UndefinedBehaviour ''m_pattern[i] out of range''))"
  using LogFormatter_unclosed LogFormatter_unknown [OF assms] LogFormatter_percent_end [OF assms] LogFormatter_date_end
  by blast

theorem pattern_errors_witness:
  "LogFormatter_new ''%d%m %d{%H'' = Inr \<lparr>m_pattern = ''%d%m %d{%H'', m_items = [], m_error = True\<rparr> \<and>
   (\<exists>f. LogFormatter_new ''%d%m %x!'' = Inr f \<and> m_error f) \<and>
   LogFormatter_new ''%d%m %'' =
     rbind (LogFormatter_new ''%d%m '') (\<lambda>f. Inr (f\<lparr>m_pattern := ''%d%m %''\<rparr>)) \<and>
   LogFormatter_new ''%d%m %d'' = Inl (UndefinedBehaviour ''m_pattern[i] out of range'')"
  using pattern_errors [where qs = "[Date None, Conv CHR ''m'', Text '' '']" and fmt = "''%H''" and c = "CHR ''x''"
    and rs = "[Text ''!'']"]
  by (simp add: render_pattern_def format_items_def)

end
