(* ===== verification/Log.thy ===== *)
theory Log
  imports Config LogFormat "HOL-Library.List_Lexorder" "HOL-Library.Char_ord"
begin

text \<open>
  The appenders, loggers, the logger manager and the logging configuration of \<^verbatim>\<open>sylar/log.cpp\<close>. Loggers and
  appenders are shared objects in a store; output goes to the console and to files whose opening and
  writing may fail.
\<close>

section \<open>Streams\<close>

text \<open>
  \<^verbatim>\<open>std::ofstream\<close>: whether a file is open and whether the stream failed. Closing a stream that is not open
  fails; opening clears the failure, but fails when a file is already open.
\<close>

record ofstream =
  is_open :: bool
  failed :: bool

definition stream_close :: "ofstream \<Rightarrow> ofstream" where
  "stream_close st = (if is_open st then st\<lparr>is_open := False\<rparr> else st\<lparr>failed := True\<rparr>)"

definition stream_open :: "bool \<Rightarrow> ofstream \<Rightarrow> ofstream" where
  "stream_open can_open st =
     (if is_open st \<or> \<not> can_open then st\<lparr>failed := True\<rparr> else \<lparr>is_open = True, failed = False\<rparr>)"

text \<open>
  Writing a text: a failed stream ignores it, a write error makes the stream fail. The contents of a file are what its
  stream has taken; the buffer of the \<^verbatim>\<open>ofstream\<close>, which a newline item or closing flushes, is not modelled (a flush that
  fails also loses what was buffered before).
\<close>

definition stream_put :: "bool \<Rightarrow> string \<Rightarrow> ofstream \<times> string \<Rightarrow> ofstream \<times> string" where
  "stream_put ok text out =
     (case out of (st, content) \<Rightarrow>
        if failed st then (st, content)
        else if is_open st \<and> ok then (st, content @ text)
        else (st\<lparr>failed := True\<rparr>, content))"

text \<open>
  What the system does during a call: which files can be opened, which of the writes of an event
  go through, how dates are printed, and what \<^verbatim>\<open>EnvMgr::GetInstance()->has("d")\<close> answers in \<^verbatim>\<open>log.cpp\<close> (that is
  asked of the \<^verbatim>\<open>Env\<close> of this file, see \<open>Singleton\<close>, and not of the one that \<^verbatim>\<open>main\<close> has parsed the options into).
\<close>

record log_env =
  can_open :: "string \<Rightarrow> bool"
  can_write :: "nat \<Rightarrow> bool"
  env_strftime :: "string \<Rightarrow> u64 \<Rightarrow> string"
  has_d :: bool

section \<open>Appenders\<close>

record FileLogAppender =
  m_filename :: string
  m_filestream :: ofstream
  m_lastTime :: u64
  m_reopenError :: bool

datatype appender_class = StdoutLogAppender | FileLogAppender FileLogAppender

record LogAppender =
  m_formatter :: "LogFormatter option"
  m_defaultFormatter :: LogFormatter
  app_class :: appender_class

definition setFormatter :: "LogFormatter \<Rightarrow> LogAppender \<Rightarrow> LogAppender" where
  "setFormatter val ap = ap\<lparr>m_formatter := Some val\<rparr>"

definition getFormatter :: "LogAppender \<Rightarrow> LogFormatter" where
  "getFormatter ap = (case m_formatter ap of Some f \<Rightarrow> f | None \<Rightarrow> m_defaultFormatter ap)"

definition LogAppender_new :: "appender_class \<Rightarrow> LogAppender result" where
  "LogAppender_new c =
     rbind (LogFormatter_new default_pattern) (\<lambda>f. Inr \<lparr>m_formatter = None, m_defaultFormatter = f, app_class = c\<rparr>)"

definition reopen :: "log_env \<Rightarrow> FileLogAppender \<Rightarrow> bool \<times> FileLogAppender" where
  "reopen E fa =
     (let st = m_filestream fa;
          st1 = (if \<not> failed st then stream_close st else st);
          st2 = stream_open (can_open E (m_filename fa)) st1
      in (\<not> failed st2, fa\<lparr>m_filestream := st2, m_reopenError := failed st2\<rparr>))"

definition FileLogAppender_new :: "log_env \<Rightarrow> string \<Rightarrow> LogAppender result" where
  "FileLogAppender_new E file_name =
     LogAppender_new (FileLogAppender (snd (reopen E
       \<lparr>m_filename = file_name, m_filestream = \<lparr>is_open = False, failed = False\<rparr>, m_lastTime = 0, m_reopenError = False\<rparr>)))"

definition StdoutLogAppender_new :: "LogAppender result" where
  "StdoutLogAppender_new = LogAppender_new StdoutLogAppender"

text \<open>\<^verbatim>\<open>LogFormatter::format\<close> into a file stream; \<open>k\<close> counts the writes.\<close>

fun format_to_file ::
  "log_env \<Rightarrow> nat \<Rightarrow> FormatItem list \<Rightarrow> LogEvent \<Rightarrow> ofstream \<times> string \<Rightarrow> (ofstream \<times> string) result" where
  "format_to_file E k [] event out = Inr out"
| "format_to_file E k (it # its) event out =
     rbind (item_format (env_strftime E) it event) (\<lambda>text.
       format_to_file E (Suc k) its event (stream_put (can_write E k) text out))"

definition FileLogAppender_log ::
  "log_env \<Rightarrow> LogFormatter \<Rightarrow> LogEvent \<Rightarrow> FileLogAppender \<Rightarrow> (string \<Rightarrow> string) \<Rightarrow>
   (FileLogAppender \<times> (string \<Rightarrow> string)) result" where
  "FileLogAppender_log E formatter event fa files =
     (let now = m_time event;
          fa1 = (if m_lastTime fa + 3 \<le> now then (snd (reopen E fa))\<lparr>m_lastTime := now\<rparr> else fa)
      in if m_reopenError fa1 then Inr (fa1, files)
         else
           rbind (format_to_file E 0 (m_items formatter) event (m_filestream fa1, files (m_filename fa1)))
             (\<lambda>(st, content). Inr (fa1\<lparr>m_filestream := st\<rparr>, files(m_filename fa1 := content))))"

section \<open>Loggers\<close>

record Logger =
  lg_name :: string
  lg_level :: Level
  lg_appenders :: "addr list"
  lg_createTime :: u64

text \<open>The store of the shared objects, the manager, and the output.\<close>

record Log =
  appenders :: "addr \<rightharpoonup> LogAppender"
  loggers :: "addr \<rightharpoonup> Logger"
  next_addr :: addr
  m_loggers :: "string \<rightharpoonup> addr"
  m_root :: addr
  cout :: string
  disk :: "string \<Rightarrow> string"

definition Logger_new :: "string \<Rightarrow> u64 \<Rightarrow> Logger" where
  "Logger_new name now = \<lparr>lg_name = name, lg_level = INFO, lg_appenders = [], lg_createTime = now\<rparr>"

text \<open>Dereferencing a pointer to a logger or an appender.\<close>

definition with_logger :: "addr \<Rightarrow> Log \<Rightarrow> (Logger \<Rightarrow> 'a result) \<Rightarrow> 'a result" where
  "with_logger a L k = (case loggers L a of None \<Rightarrow> Inl (UndefinedBehaviour ''null logger'') | Some lg \<Rightarrow> k lg)"

definition upd_logger :: "addr \<Rightarrow> (Logger \<Rightarrow> Logger) \<Rightarrow> Log \<Rightarrow> Log result" where
  "upd_logger a f L = with_logger a L (\<lambda>lg. Inr (L\<lparr>loggers := (loggers L)(a \<mapsto> f lg)\<rparr>))"

definition setLevel :: "addr \<Rightarrow> Level \<Rightarrow> Log \<Rightarrow> Log result" where
  "setLevel a level = upd_logger a (\<lambda>lg. lg\<lparr>lg_level := level\<rparr>)"

definition addAppender :: "addr \<Rightarrow> addr \<Rightarrow> Log \<Rightarrow> Log result" where
  "addAppender a ap = upd_logger a (\<lambda>lg. lg\<lparr>lg_appenders := lg_appenders lg @ [ap]\<rparr>)"

text \<open>Only the first occurrence is erased.\<close>

definition delAppender :: "addr \<Rightarrow> addr \<Rightarrow> Log \<Rightarrow> Log result" where
  "delAppender a ap = upd_logger a (\<lambda>lg. lg\<lparr>lg_appenders := remove1 ap (lg_appenders lg)\<rparr>)"

definition clearAppenders :: "addr \<Rightarrow> Log \<Rightarrow> Log result" where
  "clearAppenders a = upd_logger a (\<lambda>lg. lg\<lparr>lg_appenders := []\<rparr>)"

definition appender_log :: "log_env \<Rightarrow> LogEvent \<Rightarrow> addr \<Rightarrow> Log \<Rightarrow> Log result" where
  "appender_log E event p L =
     (case appenders L p of
        None \<Rightarrow> Inl (UndefinedBehaviour ''null appender'')
      | Some ap \<Rightarrow>
          (case app_class ap of
             StdoutLogAppender \<Rightarrow>
               rbind (LogFormatter_format (env_strftime E) (getFormatter ap) event) (\<lambda>text.
                 Inr (L\<lparr>cout := cout L @ text\<rparr>))
           | FileLogAppender fa \<Rightarrow>
               rbind (FileLogAppender_log E (getFormatter ap) event fa (disk L)) (\<lambda>(fa', files).
                 Inr (L\<lparr>appenders := (appenders L)(p \<mapsto> ap\<lparr>app_class := FileLogAppender fa'\<rparr>), disk := files\<rparr>))))"

fun appenders_log :: "log_env \<Rightarrow> LogEvent \<Rightarrow> addr list \<Rightarrow> Log \<Rightarrow> Log result" where
  "appenders_log E event [] L = Inr L"
| "appenders_log E event (p # ps) L = rbind (appender_log E event p L) (appenders_log E event ps)"

definition Logger_log :: "log_env \<Rightarrow> addr \<Rightarrow> LogEvent \<Rightarrow> Log \<Rightarrow> Log result" where
  "Logger_log E a event L =
     with_logger a L (\<lambda>lg.
       if m_level event \<le> lg_level lg then appenders_log E event (lg_appenders lg) L else Inr L)"

text \<open>
  The statement \<^verbatim>\<open>SYLAR_LOG_LEVEL(logger, level) << text\<close>: the event is made when the level is enabled, and
  logged by the destructor of \<^verbatim>\<open>LogEventWrap\<close>. \<open>where\<close> holds what the macro reads of its surroundings.
\<close>

record log_site =
  site_file :: string
  site_line :: u32
  site_now :: u64
  site_thread :: u32
  site_fiber :: u64
  site_time :: u64
  site_threadName :: string

definition SYLAR_LOG_LEVEL :: "log_env \<Rightarrow> log_site \<Rightarrow> addr \<Rightarrow> Level \<Rightarrow> string \<Rightarrow> Log \<Rightarrow> Log result" where
  "SYLAR_LOG_LEVEL E w a level text L =
     with_logger a L (\<lambda>lg.
       if level \<le> lg_level lg then
         Logger_log E a (vprintf (Some text)
           (LogEvent_new (lg_name lg) level (site_file w) (site_line w) (site_now w - lg_createTime lg)
             (site_thread w) (site_fiber w) (site_time w) (site_threadName w))) L
       else Inr L)"

section \<open>The logger manager\<close>

definition alloc_appender :: "LogAppender \<Rightarrow> Log \<Rightarrow> addr \<times> Log" where
  "alloc_appender ap L =
     (next_addr L, L\<lparr>appenders := (appenders L)(next_addr L \<mapsto> ap), next_addr := next_addr L + 1\<rparr>)"

definition getLogger :: "u64 \<Rightarrow> string \<Rightarrow> Log \<Rightarrow> addr \<times> Log" where
  "getLogger now name L =
     (case m_loggers L name of
        Some a \<Rightarrow> (a, L)
      | None \<Rightarrow>
          (next_addr L, L\<lparr>loggers := (loggers L)(next_addr L \<mapsto> Logger_new name now),
             m_loggers := (m_loggers L)(name \<mapsto> next_addr L), next_addr := next_addr L + 1\<rparr>))"

definition LoggerManager_new :: "u64 \<Rightarrow> (string \<Rightarrow> string) \<Rightarrow> Log result" where
  "LoggerManager_new now files =
     (let L = \<lparr>appenders = Map.empty, loggers = [1 \<mapsto> Logger_new ''root'' now], next_addr = 2,
               m_loggers = Map.empty, m_root = 1, cout = [], disk = files\<rparr>
      in rbind StdoutLogAppender_new (\<lambda>ap.
         case alloc_appender ap L of (p, L1) \<Rightarrow>
           rbind (addAppender 1 p L1) (\<lambda>L2. Inr (L2\<lparr>m_loggers := (m_loggers L2)(''root'' \<mapsto> 1)\<rparr>))))"

section \<open>Printing the configuration\<close>

fun appender_node :: "LogAppender \<Rightarrow> Node" where
  "appender_node ap =
     (case app_class ap of
        StdoutLogAppender \<Rightarrow>
          Map [(''type'', Scalar ''StdoutLogAppender''), (''pattern'', Scalar (m_pattern (getFormatter ap)))]
      | FileLogAppender fa \<Rightarrow>
          Map [(''type'', Scalar ''FileLogAppender''), (''file'', Scalar (m_filename fa)),
               (''pattern'', Scalar (m_pattern (getFormatter ap)))])"

definition appender_toYamlString :: "yaml_cpp \<Rightarrow> LogAppender \<Rightarrow> string" where
  "appender_toYamlString Y ap = yaml_emit Y (appender_node ap)"

fun load_appenders :: "yaml_cpp \<Rightarrow> Log \<Rightarrow> addr list \<Rightarrow> Node list result" where
  "load_appenders Y L [] = Inr []"
| "load_appenders Y L (p # ps) =
     (case appenders L p of
        None \<Rightarrow> Inl (UndefinedBehaviour ''null appender'')
      | Some ap \<Rightarrow>
          rbind (yaml_Load Y (appender_toYamlString Y ap)) (\<lambda>n.
          rbind (load_appenders Y L ps) (\<lambda>ns. Inr (n # ns))))"

definition Logger_toYamlString :: "yaml_cpp \<Rightarrow> addr \<Rightarrow> Log \<Rightarrow> string result" where
  "Logger_toYamlString Y a L =
     with_logger a L (\<lambda>lg.
       rbind (load_appenders Y L (lg_appenders lg)) (\<lambda>ns.
         Inr (yaml_emit Y (Map ([(''name'', Scalar (lg_name lg)), (''level'', Scalar (ToString (lg_level lg)))] @
           (if ns = [] then [] else [(''appenders'', Sequence ns)]))))))"

text \<open>\<open>names\<close> are the keys of the manager's map in its order.\<close>

fun load_loggers :: "yaml_cpp \<Rightarrow> Log \<Rightarrow> string list \<Rightarrow> Node list result" where
  "load_loggers Y L [] = Inr []"
| "load_loggers Y L (name # names) =
     (case m_loggers L name of
        None \<Rightarrow> Inl (UndefinedBehaviour ''no such logger'')
      | Some a \<Rightarrow>
          rbind (Logger_toYamlString Y a L) (\<lambda>s.
          rbind (yaml_Load Y s) (\<lambda>n.
          rbind (load_loggers Y L names) (\<lambda>ns. Inr (n # ns)))))"

definition LoggerManager_toYamlString :: "yaml_cpp \<Rightarrow> string list \<Rightarrow> Log \<Rightarrow> string result" where
  "LoggerManager_toYamlString Y names L =
     rbind (load_loggers Y L names) (\<lambda>ns. Inr (yaml_emit Y (if ns = [] then Null else Sequence ns)))"

section \<open>Logging configuration\<close>

record LogAppenderDefine =
  ad_type :: int
  ad_pattern :: string
  ad_file :: string

record LogDefine =
  ld_name :: string
  ld_level :: Level
  ld_appenders :: "LogAppenderDefine list"

definition LogDefine_less :: "LogDefine \<Rightarrow> LogDefine \<Rightarrow> bool" where
  "LogDefine_less a b \<longleftrightarrow> ld_name a < ld_name b"

definition isValid :: "LogDefine \<Rightarrow> bool" where
  "isValid d \<longleftrightarrow> ld_name d \<noteq> []"

text \<open>\<^verbatim>\<open>node[key].as<std::string>()\<close> if the node is defined.\<close>

definition opt_string :: "yaml_cpp \<Rightarrow> Node \<Rightarrow> string \<Rightarrow> string option result" where
  "opt_string Y node key =
     rbind (yaml_key Y node key) (\<lambda>n. case n of
       None \<Rightarrow> Inr None
     | Some n \<Rightarrow> rbind (yaml_as_string Y n) (\<lambda>s. Inr (Some s)))"

text \<open>
  One entry of \<^verbatim>\<open>appenders\<close>: \<open>None\<close> when it is skipped. A missing type is only reported; converting the
  undefined node then throws.
\<close>

definition read_appender :: "yaml_cpp \<Rightarrow> Node \<Rightarrow> LogAppenderDefine option result" where
  "read_appender Y node =
     rbind (opt_string Y node ''type'') (\<lambda>ty. case ty of
       None \<Rightarrow> Inl (Exception ''InvalidNode'')
     | Some ty \<Rightarrow>
         if ty = ''FileLogAppender'' then
           rbind (opt_string Y node ''file'') (\<lambda>file_name. case file_name of
             None \<Rightarrow> Inr None
           | Some file_name \<Rightarrow>
               rbind (opt_string Y node ''pattern'') (\<lambda>pattern.
                 Inr (Some \<lparr>ad_type = 1, ad_pattern = (case pattern of None \<Rightarrow> [] | Some s \<Rightarrow> s), ad_file = file_name\<rparr>)))
         else if ty = ''StdoutLogAppender'' then
           rbind (opt_string Y node ''pattern'') (\<lambda>pattern.
             Inr (Some \<lparr>ad_type = 2, ad_pattern = (case pattern of None \<Rightarrow> [] | Some s \<Rightarrow> s), ad_file = []\<rparr>))
         else Inr None)"

fun read_appenders :: "yaml_cpp \<Rightarrow> Node \<Rightarrow> nat list \<Rightarrow> LogAppenderDefine list result" where
  "read_appenders Y node [] = Inr []"
| "read_appenders Y node (i # is) =
     rbind (yaml_index Y node i) (\<lambda>n.
     rbind (read_appender Y n) (\<lambda>ad.
     rbind (read_appenders Y node is) (\<lambda>ads.
       Inr (case ad of None \<Rightarrow> ads | Some ad \<Rightarrow> ad # ads))))"

definition LogDefine_of_string :: "yaml_cpp \<Rightarrow> string \<Rightarrow> LogDefine result" where
  "LogDefine_of_string Y val =
     rbind (yaml_Load Y val) (\<lambda>node.
     rbind (opt_string Y node ''name'') (\<lambda>name. case name of
       None \<Rightarrow> Inl (Exception ''log config name is null'')
     | Some name \<Rightarrow>
         rbind (opt_string Y node ''level'') (\<lambda>level.
         rbind (yaml_key Y node ''appenders'') (\<lambda>as.
         rbind (case as of None \<Rightarrow> Inr [] | Some as \<Rightarrow> read_appenders Y as [0..<node_size as]) (\<lambda>ads.
           Inr \<lparr>ld_name = name, ld_level = FromString (case level of None \<Rightarrow> [] | Some s \<Rightarrow> s), ld_appenders = ads\<rparr>)))))"

definition appender_define_node :: "LogAppenderDefine \<Rightarrow> Node" where
  "appender_define_node ad =
     (let kvs = (if ad_type ad = 1 then [(''type'', Scalar ''FileLogAppender''), (''file'', Scalar (ad_file ad))]
                 else if ad_type ad = 2 then [(''type'', Scalar ''StdoutLogAppender'')] else []) @
                (if ad_pattern ad \<noteq> [] then [(''pattern'', Scalar (ad_pattern ad))] else [])
      in if kvs = [] then Null else Map kvs)"

definition LogDefine_node :: "LogDefine \<Rightarrow> Node" where
  "LogDefine_node d =
     Map ([(''name'', Scalar (ld_name d)), (''level'', Scalar (ToString (ld_level d)))] @
       (if ld_appenders d = [] then [] else [(''appenders'', Sequence (map appender_define_node (ld_appenders d)))]))"

definition LogDefine_to_string :: "yaml_cpp \<Rightarrow> LogDefine \<Rightarrow> string result" where
  "LogDefine_to_string Y d = Inr (yaml_emit Y (LogDefine_node d))"

section \<open>The listener\<close>

text \<open>One appender of a definition; \<open>None\<close> when it is skipped, a null pointer for the type 0.\<close>

definition make_appender :: "log_env \<Rightarrow> LogAppenderDefine \<Rightarrow> LogAppender option result" where
  "make_appender E ad =
     (let pattern = (if ad_pattern ad \<noteq> [] then ad_pattern ad else default_pattern);
          formatted = (\<lambda>new. rbind new (\<lambda>ap. rbind (LogFormatter_new pattern) (\<lambda>f. Inr (Some (setFormatter f ap)))))
      in if ad_type ad = 1 then formatted (FileLogAppender_new E (ad_file ad))
         else if ad_type ad \<noteq> 0 then
           if \<not> has_d E then formatted StdoutLogAppender_new else Inr None
         else rbind (LogFormatter_new pattern) (\<lambda>f. Inl (UndefinedBehaviour ''pAppender is null'')))"

fun make_appenders :: "log_env \<Rightarrow> addr \<Rightarrow> LogAppenderDefine list \<Rightarrow> Log \<Rightarrow> Log result" where
  "make_appenders E a [] L = Inr L"
| "make_appenders E a (ad # ads) L =
     rbind (make_appender E ad) (\<lambda>ap. case ap of
       None \<Rightarrow> make_appenders E a ads L
     | Some ap \<Rightarrow>
         (case alloc_appender ap L of (p, L1) \<Rightarrow> rbind (addAppender a p L1) (make_appenders E a ads)))"

definition configure_logger :: "log_env \<Rightarrow> u64 \<Rightarrow> LogDefine \<Rightarrow> Log \<Rightarrow> Log result" where
  "configure_logger E now d L =
     (case getLogger now (ld_name d) L of
        (a, L1) \<Rightarrow>
          rbind (setLevel a (ld_level d) L1) (\<lambda>L2.
          rbind (clearAppenders a L2) (make_appenders E a (ld_appenders d))))"

fun configure_new :: "log_env \<Rightarrow> u64 \<Rightarrow> LogDefine list \<Rightarrow> LogDefine list \<Rightarrow> Log \<Rightarrow> Log result" where
  "configure_new E now old [] L = Inr L"
| "configure_new E now old (d # ds) L =
     (let i = set_find LogDefine_less d old
      in if i < length old \<and> d = old ! i then configure_new E now old ds L
         else rbind (configure_logger E now d L) (configure_new E now old ds))"

fun configure_old :: "u64 \<Rightarrow> LogDefine list \<Rightarrow> LogDefine list \<Rightarrow> Log \<Rightarrow> Log result" where
  "configure_old now new [] L = Inr L"
| "configure_old now new (d # ds) L =
     (if set_find LogDefine_less d new = length new then
        (case getLogger now (ld_name d) L of
           (a, L1) \<Rightarrow>
             rbind (setLevel a NOTSET L1) (\<lambda>L2.
             rbind (clearAppenders a L2) (configure_old now new ds)))
      else configure_old now new ds L)"

definition on_log_change :: "log_env \<Rightarrow> log_site \<Rightarrow> LogDefine list \<Rightarrow> LogDefine list \<Rightarrow> Log \<Rightarrow> Log result" where
  "on_log_change E w old_value new_value L =
     rbind (SYLAR_LOG_LEVEL E w (m_root L) INFO ''on log config changed'' L) (\<lambda>L1.
     rbind (configure_new E (site_now w) old_value new_value L1) (configure_old (site_now w) new_value old_value))"

text \<open>\<^verbatim>\<open>g_log_defines\<close> with the listener that \<^verbatim>\<open>LogIniter\<close> adds.\<close>

definition log_listener :: "log_env \<Rightarrow> log_site \<Rightarrow> (LogDefine list, Log) on_change_cb" where
  "log_listener E w old_value new_value L =
     (case on_log_change E w old_value new_value L of Inl e \<Rightarrow> (Some e, L) | Inr L' \<Rightarrow> (None, L'))"

definition g_log_defines :: "yaml_cpp \<Rightarrow> log_env \<Rightarrow> log_site \<Rightarrow> (LogDefine list, Log) ConfigVar" where
  "g_log_defines Y E w =
     snd (addListener (log_listener E w) 0
       (ConfigVar_new ''logs'' [] ''logs config'' ''std::set<LogDefine>''
          (string_to_set Y LogDefine_less (LogDefine_of_string Y)) (set_to_string Y (LogDefine_to_string Y))))"

section \<open>Specification\<close>

text \<open>
  What a logger does, apart from the state of its streams: its level, and for each appender the file (none for
  the console) and the pattern.
\<close>

type_synonym logger_view = "Level \<times> (string option \<times> string) option list"

definition appender_view :: "LogAppender \<Rightarrow> string option \<times> string" where
  "appender_view ap =
     (case app_class ap of StdoutLogAppender \<Rightarrow> None | FileLogAppender fa \<Rightarrow> Some (m_filename fa), m_pattern (getFormatter ap))"

definition logger_state :: "Log \<Rightarrow> Logger \<Rightarrow> logger_view" where
  "logger_state L lg = (lg_level lg, map (\<lambda>p. map_option appender_view (appenders L p)) (lg_appenders lg))"

definition logger_view :: "Log \<Rightarrow> string \<Rightarrow> logger_view option" where
  "logger_view L name = (case m_loggers L name of None \<Rightarrow> None | Some a \<Rightarrow> map_option (logger_state L) (loggers L a))"

definition define_appender_view :: "LogAppenderDefine \<Rightarrow> string option \<times> string" where
  "define_appender_view ad =
     (if ad_type ad = 1 then Some (ad_file ad) else None, if ad_pattern ad = [] then default_pattern else ad_pattern ad)"

definition appenders_view :: "log_env \<Rightarrow> LogAppenderDefine list \<Rightarrow> (string option \<times> string) option list" where
  "appenders_view E ads = map (Some \<circ> define_appender_view) (filter (\<lambda>ad. ad_type ad = 1 \<or> \<not> has_d E) ads)"

definition define_view :: "log_env \<Rightarrow> LogDefine \<Rightarrow> logger_view" where
  "define_view E d = (ld_level d, appenders_view E (ld_appenders d))"

text \<open>The definitions the listener can act on: no null appender, and patterns that can be read.\<close>

definition appender_define_ok :: "LogAppenderDefine \<Rightarrow> bool" where
  "appender_define_ok ad \<longleftrightarrow> ad_type ad \<noteq> 0 \<and> returns (LogFormatter_new (ad_pattern ad))"

definition define_ok :: "LogDefine \<Rightarrow> bool" where
  "define_ok d \<longleftrightarrow> list_all appender_define_ok (ld_appenders d)"

text \<open>The loggers after a change of the configuration.\<close>

definition changed_view :: "log_env \<Rightarrow> LogDefine list \<Rightarrow> LogDefine list \<Rightarrow> (string \<Rightarrow> logger_view option) \<Rightarrow>
    string \<Rightarrow> logger_view option" where
  "changed_view E old new V name =
     (case find (\<lambda>d. ld_name d = name) new of
        Some d \<Rightarrow> if d \<in> set old then V name else Some (define_view E d)
      | None \<Rightarrow> if name \<in> ld_name ` set old then Some (NOTSET, []) else V name)"

text \<open>The invariant of the store: every name has its own logger, and pointers lead to objects.\<close>

definition log_ok :: "Log \<Rightarrow> bool" where
  "log_ok L \<longleftrightarrow>
     (\<forall>n a. m_loggers L n = Some a \<longrightarrow> a \<in> dom (loggers L)) \<and>
     (\<forall>n n' a. m_loggers L n = Some a \<longrightarrow> m_loggers L n' = Some a \<longrightarrow> n = n') \<and>
     (\<forall>a\<in>dom (loggers L). a < next_addr L) \<and> (\<forall>p\<in>dom (appenders L). p < next_addr L) \<and>
     (\<forall>a lg. loggers L a = Some lg \<longrightarrow> set (lg_appenders lg) \<subseteq> dom (appenders L))"

interpretation log_defines: strict_weak_order LogDefine_less
  by unfold_locales (auto simp: LogDefine_less_def)

section \<open>Lemmas\<close>

subsection \<open>Formatters\<close>

lemma LogFormatter_init_pattern: "LogFormatter_init g = Inr f \<Longrightarrow> m_pattern f = m_pattern g"
  unfolding LogFormatter_init_def rbind_eq_Inr by (auto simp: Let_def case_prod_beta split: if_splits)

lemma LogFormatter_new_pattern: "LogFormatter_new p = Inr f \<Longrightarrow> m_pattern f = p"
  using LogFormatter_init_pattern unfolding LogFormatter_new_def by fastforce

lemma default_pattern_returns: "\<exists>f. LogFormatter_new default_pattern = Inr f"
proof -
  have "render_pattern default_pieces = default_pattern"
    by (simp add: render_pattern_def default_pieces_def default_pattern_def default_date_def)
  moreover have "pieces_ok default_pieces []" "list_all known_piece default_pieces"
    by (simp_all add: default_pieces_def default_date_def format_items_def)
  ultimately show ?thesis using LogFormatter_new_pieces [of default_pieces] by auto
qed

subsection \<open>The store\<close>

lemma logger_state_upd [simp]:
  "logger_state (L\<lparr>loggers := x\<rparr>) = logger_state L"
  "logger_state (L\<lparr>m_loggers := y\<rparr>) = logger_state L"
  "logger_state (L\<lparr>next_addr := z\<rparr>) = logger_state L"
  by (rule ext, simp add: logger_state_def)+

lemma logger_view_cong:
  assumes "m_loggers L' = m_loggers L" "loggers L' = loggers L"
    and "\<And>q. map_option appender_view (appenders L' q) = map_option appender_view (appenders L q)"
  shows "logger_view L' = logger_view L"
proof -
  have "logger_state L' = logger_state L" using assms(3) by (auto simp: logger_state_def)
  then show ?thesis using assms(1,2) by (intro ext) (simp add: logger_view_def split: option.split)
qed

lemma upd_logger_view:
  assumes "log_ok L" "m_loggers L name = Some a" "loggers L a = Some lg"
    and "set (lg_appenders (f lg)) \<subseteq> dom (appenders L)"
  shows "\<exists>L'. upd_logger a f L = Inr L' \<and> L' = L\<lparr>loggers := (loggers L)(a \<mapsto> f lg)\<rparr> \<and> log_ok L' \<and>
    logger_view L' = (logger_view L)(name \<mapsto> logger_state L (f lg))"
proof -
  let ?L = "L\<lparr>loggers := (loggers L)(a \<mapsto> f lg)\<rparr>"
  have "logger_view ?L n = ((logger_view L)(name \<mapsto> logger_state L (f lg))) n" for n
  proof (cases "n = name")
    case True
    then show ?thesis using assms(2) by (simp add: logger_view_def)
  next
    case False
    then have "m_loggers L n \<noteq> Some a" using assms(1,2) by (auto simp: log_ok_def)
    then show ?thesis using False by (auto simp: logger_view_def split: option.split)
  qed
  moreover have "log_ok ?L" using assms by (auto simp: log_ok_def)
  ultimately show ?thesis using assms(3) by (auto simp: upd_logger_def with_logger_def)
qed

lemma alloc_appender_view:
  assumes "log_ok L"
  shows "logger_view (snd (alloc_appender ap L)) = logger_view L \<and> log_ok (snd (alloc_appender ap L))"
proof -
  let ?L = "snd (alloc_appender ap L)"
  have fresh: "next_addr L \<notin> dom (appenders L)" using assms unfolding log_ok_def by blast
  have "logger_state ?L lg = logger_state L lg" if "loggers L a = Some lg" for a lg
  proof -
    have "set (lg_appenders lg) \<subseteq> dom (appenders L)" using assms that unfolding log_ok_def by blast
    with fresh have "next_addr L \<notin> set (lg_appenders lg)" by blast
    then show ?thesis by (auto simp: logger_state_def alloc_appender_def)
  qed
  then have "logger_view ?L n = logger_view L n" for n
    by (auto simp: logger_view_def alloc_appender_def split: option.split intro: option.map_cong0)
  moreover have "log_ok ?L"
    using assms unfolding log_ok_def alloc_appender_def by (auto intro: less_SucI; blast)
  ultimately show ?thesis by blast
qed

lemma getLogger_view:
  assumes "log_ok L" "getLogger now name L = (a, L')"
  shows "log_ok L' \<and> m_loggers L' name = Some a \<and> (\<exists>lg. loggers L' a = Some lg) \<and>
    (\<forall>n. n \<noteq> name \<longrightarrow> logger_view L' n = logger_view L n)"
proof (cases "m_loggers L name")
  case (Some b)
  then have "a = b" "L' = L" using assms(2) by (simp_all add: getLogger_def)
  then show ?thesis using assms(1) Some unfolding log_ok_def by blast
next
  case None
  then have L': "a = next_addr L" "L' = L\<lparr>loggers := (loggers L)(next_addr L \<mapsto> Logger_new name now),
             m_loggers := (m_loggers L)(name \<mapsto> next_addr L), next_addr := next_addr L + 1\<rparr>"
    using assms(2) by (auto simp: getLogger_def)
  have fresh: "m_loggers L n \<noteq> Some (next_addr L)" for n
    using assms(1) unfolding log_ok_def by blast
  have "log_ok L'"
    unfolding log_ok_def
  proof (intro conjI)
    show "\<forall>n a. m_loggers L' n = Some a \<longrightarrow> a \<in> dom (loggers L')"
      using assms(1) unfolding log_ok_def L' by auto
    show "\<forall>n n' a. m_loggers L' n = Some a \<longrightarrow> m_loggers L' n' = Some a \<longrightarrow> n = n'"
      using assms(1) fresh unfolding log_ok_def L' by (auto split: if_splits)
    show "\<forall>a\<in>dom (loggers L'). a < next_addr L'" "\<forall>p\<in>dom (appenders L'). p < next_addr L'"
      using assms(1) unfolding log_ok_def L' by (auto intro: less_SucI)
    show "\<forall>a lg. loggers L' a = Some lg \<longrightarrow> set (lg_appenders lg) \<subseteq> dom (appenders L')"
      using assms(1) unfolding log_ok_def L' by (auto simp: Logger_new_def split: if_splits)
  qed
  moreover have "logger_view L' n = logger_view L n" if "n \<noteq> name" for n
    using fresh [of n] that by (auto simp: L' logger_view_def split: option.split)
  ultimately show ?thesis by (simp add: L')
qed

subsection \<open>Logging changes no configuration\<close>

lemma reopen_filename [simp]: "m_filename (snd (reopen E fa)) = m_filename fa"
  by (simp add: reopen_def Let_def)

lemma FileLogAppender_log_filename:
  "FileLogAppender_log E f ev fa files = Inr (fa', files') \<Longrightarrow> m_filename fa' = m_filename fa"
  by (auto simp: FileLogAppender_log_def Let_def rbind_eq_Inr split: if_splits)

lemma appender_log_view:
  assumes "log_ok L" "appender_log E ev p L = Inr L'"
  shows "log_ok L' \<and> logger_view L' = logger_view L"
proof -
  from assms(2) obtain ap where ap: "appenders L p = Some ap" by (auto simp: appender_log_def split: option.splits)
  show ?thesis
  proof (cases "app_class ap")
    case StdoutLogAppender
    with assms(2) ap obtain t where "L' = L\<lparr>cout := t\<rparr>" by (auto simp: appender_log_def rbind_eq_Inr)
    then show ?thesis using assms(1) logger_view_cong [of L' L] by (simp add: log_ok_def)
  next
    case (FileLogAppender fa)
    with assms(2) ap obtain fa' files where f: "FileLogAppender_log E (getFormatter ap) ev fa (disk L) = Inr (fa', files)"
      and L': "L' = L\<lparr>appenders := (appenders L)(p \<mapsto> ap\<lparr>app_class := FileLogAppender fa'\<rparr>), disk := files\<rparr>"
      by (auto simp: appender_log_def rbind_eq_Inr)
    have "appender_view (ap\<lparr>app_class := appender_class.FileLogAppender fa'\<rparr>) = appender_view ap"
      using FileLogAppender_log_filename [OF f] FileLogAppender by (simp add: appender_view_def getFormatter_def split: option.split)
    then have "map_option appender_view (appenders L' q) = map_option appender_view (appenders L q)" for q
      using ap by (simp add: L')
    then have "logger_view L' = logger_view L" using logger_view_cong [of L' L] by (simp add: L')
    moreover have "dom (appenders L') = dom (appenders L)" using ap by (auto simp: L')
    then have "log_ok L'" using assms(1) by (simp add: log_ok_def L')
    ultimately show ?thesis by blast
  qed
qed

lemma appenders_log_view:
  "log_ok L \<Longrightarrow> appenders_log E ev ps L = Inr L' \<Longrightarrow> log_ok L' \<and> logger_view L' = logger_view L"
proof (induction ps arbitrary: L)
  case (Cons p ps)
  then obtain L1 where "appender_log E ev p L = Inr L1" "appenders_log E ev ps L1 = Inr L'" by (auto simp: rbind_eq_Inr)
  with Cons.IH [of L1] appender_log_view [OF Cons.prems(1)] show ?case by auto
qed simp

lemma SYLAR_LOG_LEVEL_view:
  "log_ok L \<Longrightarrow> SYLAR_LOG_LEVEL E w a level text L = Inr L' \<Longrightarrow> log_ok L' \<and> logger_view L' = logger_view L"
  by (auto simp: SYLAR_LOG_LEVEL_def Logger_log_def with_logger_def dest: appenders_log_view
      split: option.splits if_splits)

subsection \<open>The listener\<close>

lemma make_appender_view:
  assumes "appender_define_ok ad"
  shows "\<exists>ap. make_appender E ad = Inr ap \<and>
    map_option appender_view ap = (if ad_type ad = 1 \<or> \<not> has_d E then Some (define_appender_view ad) else None)"
proof -
  obtain g where g: "LogFormatter_new default_pattern = Inr g" using default_pattern_returns by blast
  obtain f where f: "LogFormatter_new (if ad_pattern ad \<noteq> [] then ad_pattern ad else default_pattern) = Inr f"
    using assms g by (cases "ad_pattern ad = []") (auto simp: appender_define_ok_def returns_def)
  then have "m_pattern f = snd (define_appender_view ad)"
    using LogFormatter_new_pattern [OF f] by (simp add: define_appender_view_def)
  then show ?thesis
    using assms f g
    by (auto simp: make_appender_def FileLogAppender_new_def StdoutLogAppender_new_def LogAppender_new_def appender_view_def
      setFormatter_def getFormatter_def define_appender_view_def appender_define_ok_def Let_def)
qed

lemma make_appenders_view:
  assumes "log_ok L" "m_loggers L name = Some a" "logger_view L name = Some (lv, vs)" "list_all appender_define_ok ads"
  shows "\<exists>L'. make_appenders E a ads L = Inr L' \<and> log_ok L' \<and>
    logger_view L' = (logger_view L)(name \<mapsto> (lv, vs @ appenders_view E ads))"
  using assms
proof (induction ads arbitrary: L vs)
  case Nil
  then show ?case by (auto simp: appenders_view_def)
next
  case (Cons ad ads)
  obtain ap where ap: "make_appender E ad = Inr ap"
    "map_option appender_view ap = (if ad_type ad = 1 \<or> \<not> has_d E then Some (define_appender_view ad) else None)"
    using make_appender_view Cons.prems(4) by auto
  have rest: "list_all appender_define_ok ads" using Cons.prems(4) by simp
  show ?case
  proof (cases ap)
    case None
    then show ?thesis using Cons.IH [OF Cons.prems(1-3)] Cons.prems(4) ap by (auto simp: appenders_view_def split: if_splits)
  next
    case (Some x)
    obtain p L1 where L1: "alloc_appender x L = (p, L1)" by fastforce
    then have p: "p \<in> dom (appenders L1)" "appenders L1 p = Some x" "m_loggers L1 = m_loggers L"
      by (auto simp: alloc_appender_def)
    have ok1: "log_ok L1" "logger_view L1 = logger_view L" using alloc_appender_view [OF Cons.prems(1), of x] L1 by auto
    obtain lg where lg: "loggers L1 a = Some lg" "logger_state L1 lg = (lv, vs)"
      using Cons.prems(2,3) ok1(2) p(3) by (metis logger_view_def map_option_eq_Some option.simps(5))
    have sub: "set (lg_appenders lg) \<subseteq> dom (appenders L1)" using ok1(1) lg(1) unfolding log_ok_def by blast
    let ?f = "\<lambda>lg. lg\<lparr>lg_appenders := lg_appenders lg @ [p]\<rparr>"
    obtain L2 where L2: "addAppender a p L1 = Inr L2" "L2 = L1\<lparr>loggers := (loggers L1)(a \<mapsto> ?f lg)\<rparr>" "log_ok L2"
      "logger_view L2 = (logger_view L1)(name \<mapsto> logger_state L1 (?f lg))"
      using upd_logger_view [OF ok1(1), of name a lg ?f] Cons.prems(2) p lg sub by (auto simp: addAppender_def)
    have "logger_state L1 (?f lg) = (lv, vs @ [Some (define_appender_view ad)])"
      using lg(2) p(2) ap(2) Some by (auto simp: logger_state_def split: if_splits)
    then have "logger_view L2 = (logger_view L)(name \<mapsto> (lv, vs @ [Some (define_appender_view ad)]))"
      using L2(4) ok1(2) by simp
    moreover from this have v2: "logger_view L2 name = Some (lv, vs @ [Some (define_appender_view ad)])" by simp
    moreover have ml2: "m_loggers L2 name = Some a" using Cons.prems(2) L2(2) p(3) by simp
    moreover have "appenders_view E (ad # ads) = Some (define_appender_view ad) # appenders_view E ads"
      using ap(2) Some by (auto simp: appenders_view_def split: if_splits)
    moreover obtain L' where "make_appenders E a ads L2 = Inr L'" "log_ok L'"
      "logger_view L' = (logger_view L2)(name \<mapsto> (lv, (vs @ [Some (define_appender_view ad)]) @ appenders_view E ads))"
      using Cons.IH [OF L2(3) ml2 v2 rest] by blast
    ultimately show ?thesis using L2(1) L1 ap(1) Some by (simp add: fun_eq_iff)
  qed
qed

lemma configure_logger_view:
  assumes "log_ok L" "define_ok d"
  shows "\<exists>L'. configure_logger E now d L = Inr L' \<and> log_ok L' \<and>
    logger_view L' = (logger_view L)(ld_name d \<mapsto> define_view E d)"
proof -
  obtain a L1 where L1: "getLogger now (ld_name d) L = (a, L1)" by fastforce
  note g = getLogger_view [OF assms(1) L1]
  then obtain lg where lg: "loggers L1 a = Some lg" by blast
  have sub: "set (lg_appenders lg) \<subseteq> dom (appenders L1)" using g lg unfolding log_ok_def by blast
  let ?f = "\<lambda>lg. lg\<lparr>lg_level := ld_level d\<rparr>" and ?h = "\<lambda>lg. lg\<lparr>lg_appenders := []\<rparr>"
  obtain L2 where L2: "setLevel a (ld_level d) L1 = Inr L2" "L2 = L1\<lparr>loggers := (loggers L1)(a \<mapsto> ?f lg)\<rparr>" "log_ok L2"
    "logger_view L2 = (logger_view L1)(ld_name d \<mapsto> logger_state L1 (?f lg))"
    using upd_logger_view [of L1 "ld_name d" a lg ?f] g lg sub by (auto simp: setLevel_def)
  obtain L3 where L3: "clearAppenders a L2 = Inr L3" "L3 = L2\<lparr>loggers := (loggers L2)(a \<mapsto> ?h (?f lg))\<rparr>" "log_ok L3"
    "logger_view L3 = (logger_view L2)(ld_name d \<mapsto> logger_state L2 (?h (?f lg)))"
    using upd_logger_view [of L2 "ld_name d" a "?f lg" ?h] g L2(2,3) by (auto simp: clearAppenders_def)
  have v: "logger_view L3 n = (if n = ld_name d then Some (ld_level d, []) else logger_view L n)" for n
    using L3(4) L2(4) g by (simp add: logger_state_def)
  moreover obtain L4 where "make_appenders E a (ld_appenders d) L3 = Inr L4" "log_ok L4"
    "logger_view L4 = (logger_view L3)(ld_name d \<mapsto> (ld_level d, [] @ appenders_view E (ld_appenders d)))"
    using make_appenders_view [OF L3(3), of "ld_name d" a "ld_level d" "[]" "ld_appenders d" E] v assms(2) g L2(2) L3(2)
    by (auto simp: define_ok_def)
  moreover from this v have "logger_view L4 = (logger_view L)(ld_name d \<mapsto> define_view E d)"
    by (auto simp: define_view_def)
  ultimately show ?thesis using L1 L2(1) L3(1) by (simp add: configure_logger_def)
qed

lemma less_name_cases: "\<not> LogDefine_less a b \<Longrightarrow> \<not> LogDefine_less b a \<Longrightarrow> ld_name a = ld_name b"
  by (auto simp: LogDefine_less_def)

lemma sorted_same_name:
  "sorted_wrt LogDefine_less ds \<Longrightarrow> d \<in> set ds \<Longrightarrow> d' \<in> set ds \<Longrightarrow> ld_name d = ld_name d' \<Longrightarrow> d = d'"
  by (induction ds) (auto simp: LogDefine_less_def)

lemma find_unchanged:
  assumes "sorted_wrt LogDefine_less old"
  shows "set_find LogDefine_less d old < length old \<and> d = old ! set_find LogDefine_less d old \<longleftrightarrow> d \<in> set old"
proof
  assume d: "d \<in> set old"
  then have "set_find LogDefine_less d old \<noteq> length old"
    using log_defines.set_find_end_iff [OF assms, of d] by (auto simp: LogDefine_less_def)
  then have lt: "set_find LogDefine_less d old < length old" by (auto simp: set_find_def Let_def split: if_splits)
  then have "ld_name (old ! set_find LogDefine_less d old) = ld_name d"
    using log_defines.set_find_at [OF lt] less_name_cases by blast
  then show "set_find LogDefine_less d old < length old \<and> d = old ! set_find LogDefine_less d old"
    using lt d sorted_same_name [OF assms] nth_mem [OF lt] by metis
next
  assume "set_find LogDefine_less d old < length old \<and> d = old ! set_find LogDefine_less d old"
  then show "d \<in> set old" by (metis nth_mem)
qed

lemma find_removed:
  assumes "sorted_wrt LogDefine_less new"
  shows "set_find LogDefine_less d new = length new \<longleftrightarrow> ld_name d \<notin> ld_name ` set new"
  using log_defines.set_find_end_iff [OF assms, of d] by (auto simp: LogDefine_less_def image_iff)

lemma configure_new_view:
  assumes "log_ok L" "list_all define_ok ds" "sorted_wrt LogDefine_less old" "sorted_wrt LogDefine_less ds"
  shows "\<exists>L'. configure_new E now old ds L = Inr L' \<and> log_ok L' \<and>
    (\<forall>n. logger_view L' n = (case find (\<lambda>d. ld_name d = n) ds of
       Some d \<Rightarrow> if d \<in> set old then logger_view L n else Some (define_view E d) | None \<Rightarrow> logger_view L n))"
  using assms(1,2,4)
proof (induction ds arbitrary: L)
  case (Cons d ds)
  have later: "find (\<lambda>x. ld_name x = ld_name d) ds = None"
    using Cons.prems(3) by (auto simp: find_None_iff LogDefine_less_def)
  have rest: "list_all define_ok ds" "sorted_wrt LogDefine_less ds" using Cons.prems by simp_all
  show ?case
  proof (cases "d \<in> set old")
    case True
    obtain L' where "configure_new E now old ds L = Inr L'" "log_ok L'"
      "\<forall>n. logger_view L' n = (case find (\<lambda>d. ld_name d = n) ds of
       Some d \<Rightarrow> if d \<in> set old then logger_view L n else Some (define_view E d) | None \<Rightarrow> logger_view L n)"
      using Cons.IH [OF Cons.prems(1) rest] by blast
    then show ?thesis using True later find_unchanged [OF assms(3), of d] by (auto simp: Let_def)
  next
    case False
    obtain L1 where L1: "configure_logger E now d L = Inr L1" "log_ok L1"
      "logger_view L1 = (logger_view L)(ld_name d \<mapsto> define_view E d)"
      using configure_logger_view [OF Cons.prems(1), of d] Cons.prems(2) by fastforce
    then obtain L' where "configure_new E now old ds L1 = Inr L'" "log_ok L'"
      "\<forall>n. logger_view L' n = (case find (\<lambda>d. ld_name d = n) ds of
       Some d \<Rightarrow> if d \<in> set old then logger_view L1 n else Some (define_view E d) | None \<Rightarrow> logger_view L1 n)"
      using Cons.IH [OF L1(2) rest] by blast
    moreover have "\<not> (set_find LogDefine_less d old < length old \<and> d = old ! set_find LogDefine_less d old)"
      using False find_unchanged [OF assms(3), of d] by blast
    ultimately show ?thesis using L1 later False by (auto simp: Let_def split: option.split)
  qed
qed simp

lemma configure_old_view:
  fixes E :: log_env
  assumes "log_ok L" "sorted_wrt LogDefine_less new"
  shows "\<exists>L'. configure_old now new ds L = Inr L' \<and> log_ok L' \<and>
    (\<forall>n. logger_view L' n =
       (if n \<in> ld_name ` set ds \<and> n \<notin> ld_name ` set new then Some (NOTSET, []) else logger_view L n))"
  using assms(1)
proof (induction ds arbitrary: L)
  case (Cons d ds)
  show ?case
  proof (cases "ld_name d \<in> ld_name ` set new")
    case True
    obtain L' where "configure_old now new ds L = Inr L'" "log_ok L'"
      "\<forall>n. logger_view L' n =
       (if n \<in> ld_name ` set ds \<and> n \<notin> ld_name ` set new then Some (NOTSET, []) else logger_view L n)"
      using Cons by blast
    then show ?thesis using True find_removed [OF assms(2), of d] by auto
  next
    case False
    let ?d = "\<lparr>ld_name = ld_name d, ld_level = NOTSET, ld_appenders = []\<rparr>"
    have "define_ok ?d" "define_view E ?d = (NOTSET, [])" for E
      by (simp_all add: define_ok_def define_view_def appenders_view_def)
    then obtain L1 where L1: "configure_logger E now ?d L = Inr L1"
      "log_ok L1" "logger_view L1 = (logger_view L)(ld_name d \<mapsto> (NOTSET, []))"
      using configure_logger_view [OF Cons.prems, of ?d E now] by auto
    obtain L' where "configure_old now new ds L1 = Inr L'" "log_ok L'"
      "\<forall>n. logger_view L' n =
       (if n \<in> ld_name ` set ds \<and> n \<notin> ld_name ` set new then Some (NOTSET, []) else logger_view L1 n)"
      using Cons.IH L1(2) by blast
    then show ?thesis
      using False L1 find_removed [OF assms(2), of d]
      by (auto simp: configure_logger_def rbind_eq_Inr split: prod.splits)
  qed
qed simp

text \<open>
  A change of the configuration takes effect exactly where it should.
\<close>

lemma log_change_applies:
  assumes "log_ok L" "list_all define_ok new_value"
    and "sorted_wrt LogDefine_less old_value" "sorted_wrt LogDefine_less new_value"
    and "returns (SYLAR_LOG_LEVEL E w (m_root L) INFO ''on log config changed'' L)"
  shows "\<exists>L'. on_log_change E w old_value new_value L = Inr L' \<and> log_ok L' \<and>
    logger_view L' = changed_view E old_value new_value (logger_view L)"
proof -
  obtain L1 where L1: "SYLAR_LOG_LEVEL E w (m_root L) INFO ''on log config changed'' L = Inr L1"
    using assms(5) by (auto simp: returns_def)
  then have v1: "log_ok L1" "logger_view L1 = logger_view L" using SYLAR_LOG_LEVEL_view [OF assms(1)] by auto
  obtain L2 where L2: "configure_new E (site_now w) old_value new_value L1 = Inr L2" "log_ok L2"
    "\<forall>n. logger_view L2 n = (case find (\<lambda>d. ld_name d = n) new_value of
       Some d \<Rightarrow> if d \<in> set old_value then logger_view L n else Some (define_view E d) | None \<Rightarrow> logger_view L n)"
    using configure_new_view [OF v1(1) assms(2-4), of E "site_now w"] unfolding v1(2) by blast
  obtain L3 where L3: "configure_old (site_now w) new_value old_value L2 = Inr L3" "log_ok L3"
    "\<forall>n. logger_view L3 n = (if n \<in> ld_name ` set old_value \<and> n \<notin> ld_name ` set new_value
       then Some (NOTSET, []) else logger_view L2 n)"
    using configure_old_view [OF L2(2) assms(4)] by blast
  have "n \<in> ld_name ` set new_value \<longleftrightarrow> find (\<lambda>d. ld_name d = n) new_value \<noteq> None" for n
    by (auto simp: find_None_iff)
  then have "logger_view L3 n = changed_view E old_value new_value (logger_view L) n" for n
    using L2(3) L3(3) by (cases "find (\<lambda>d. ld_name d = n) new_value") (simp_all add: changed_view_def)
  then show ?thesis using L1 L2(1) L3 by (auto simp: on_log_change_def)
qed


lemma string_to_set_sorted:
  assumes "string_to_set Y LogDefine_less f text = Inr ds"
  shows "sorted_wrt LogDefine_less ds"
proof -
  have "sorted_wrt LogDefine_less (foldl (\<lambda>s x. fst (set_insert LogDefine_less x s)) s xs)"
    if "sorted_wrt LogDefine_less s" for s xs
    using that by (induction xs arbitrary: s) (auto intro: log_defines.sorted_insert)
  then show ?thesis using assms by (auto simp: string_to_set_def rbind_eq_Inr)
qed

lemma changed_view_same: "sorted_wrt LogDefine_less ds \<Longrightarrow> changed_view E ds ds V = V"
proof (intro ext)
  fix n
  show "changed_view E ds ds V n = V n"
  proof (cases "find (\<lambda>d. ld_name d = n) ds")
    case None
    then have "n \<notin> ld_name ` set ds" by (auto simp: find_None_iff)
    with None show ?thesis by (simp add: changed_view_def)
  next
    case (Some d)
    then have "d \<in> set ds" by (auto simp: find_Some_iff)
    with Some show ?thesis by (simp add: changed_view_def)
  qed
qed

subsection \<open>File appenders\<close>

text \<open>The streams of a file appender between calls, and a stream that failed while its file is open.\<close>

definition file_ok :: "FileLogAppender \<Rightarrow> bool" where
  "file_ok fa \<longleftrightarrow> (if m_reopenError fa then \<not> is_open (m_filestream fa) \<and> failed (m_filestream fa)
     else is_open (m_filestream fa) \<and> \<not> failed (m_filestream fa))"

definition broken :: "FileLogAppender \<Rightarrow> bool" where
  "broken fa \<longleftrightarrow> is_open (m_filestream fa) \<and> failed (m_filestream fa)"

lemma reopen_ok: "file_ok fa \<Longrightarrow> file_ok (snd (reopen E fa)) \<and> m_reopenError (snd (reopen E fa)) = (\<not> can_open E (m_filename fa))"
  by (auto simp: file_ok_def reopen_def stream_close_def stream_open_def Let_def split: if_splits)

lemma reopen_broken: "broken fa \<Longrightarrow> broken (snd (reopen E fa)) \<and> m_reopenError (snd (reopen E fa))"
  by (auto simp: broken_def reopen_def stream_open_def Let_def)

lemma format_to_file_ok:
  assumes "\<forall>k. can_write E k" "is_open st \<and> \<not> failed st"
  shows "format_to_file E k its ev (st, content @ ss) =
    rbind (format_items_loop (env_strftime E) its ev ss) (\<lambda>text. Inr (st, content @ text))"
  using assms(2)
proof (induction its arbitrary: k ss)
  case (Cons it its)
  then show ?case using assms(1) by (cases "item_format (env_strftime E) it ev") (auto simp: stream_put_def)
qed simp

lemma format_to_file_failed:
  "format_to_file E k its ev (st, content) = Inr out \<Longrightarrow> failed st \<Longrightarrow> out = (st, content)"
  by (induction its arbitrary: k) (auto simp: stream_put_def rbind_eq_Inr)

lemma FileLogAppender_log_broken:
  assumes "broken fa" "FileLogAppender_log E f ev fa files = Inr (fa', files')"
  shows "broken fa' \<and> files' = files"
proof -
  let ?fa = "if m_lastTime fa + 3 \<le> m_time ev then (snd (reopen E fa))\<lparr>m_lastTime := m_time ev\<rparr> else fa"
  have b: "broken ?fa" using assms(1) reopen_broken [OF assms(1), of E] by (simp add: broken_def)
  show ?thesis
  proof (cases "m_reopenError ?fa")
    case True
    then show ?thesis using assms(2) b by (auto simp: FileLogAppender_log_def Let_def split: if_splits)
  next
    case False
    then obtain st content where r: "format_to_file E 0 (m_items f) ev (m_filestream ?fa, files (m_filename ?fa)) = Inr (st, content)"
      "fa' = ?fa\<lparr>m_filestream := st\<rparr>" "files' = files(m_filename ?fa := content)"
      using assms(2) by (auto simp: FileLogAppender_log_def Let_def rbind_eq_Inr split: if_splits)
    then show ?thesis using format_to_file_failed [OF r(1)] b by (auto simp: broken_def)
  qed
qed

lemma FileLogAppender_log_ok:
  assumes "file_ok fa" "can_open E (m_filename fa)" "\<forall>k. can_write E k"
    and "m_reopenError fa \<longrightarrow> m_lastTime fa + 3 \<le> m_time ev" "LogFormatter_format (env_strftime E) f ev = Inr text"
  shows "\<exists>fa'. FileLogAppender_log E f ev fa files =
    Inr (fa', files(m_filename fa := files (m_filename fa) @ text)) \<and> \<not> m_reopenError fa'"
proof -
  let ?fa = "if m_lastTime fa + 3 \<le> m_time ev then (snd (reopen E fa))\<lparr>m_lastTime := m_time ev\<rparr> else fa"
  have fa: "\<not> m_reopenError ?fa" "file_ok ?fa" "m_filename ?fa = m_filename fa"
    using assms(1,2,4) reopen_ok [OF assms(1), of E] by (auto simp: file_ok_def)
  then have st: "is_open (m_filestream ?fa) \<and> \<not> failed (m_filestream ?fa)" by (simp add: file_ok_def)
  have "format_to_file E 0 (m_items f) ev (m_filestream ?fa, files (m_filename ?fa)) =
      Inr (m_filestream ?fa, files (m_filename ?fa) @ text)"
    using format_to_file_ok [OF assms(3) st, of 0 "m_items f" ev "files (m_filename ?fa)" "[]"] assms(5)
    by (simp add: LogFormatter_format_def)
  then have "FileLogAppender_log E f ev fa files =
      Inr (?fa\<lparr>m_filestream := m_filestream ?fa\<rparr>, files(m_filename ?fa := files (m_filename ?fa) @ text))"
    using fa(1) unfolding FileLogAppender_log_def Let_def by (simp del: if_split)
  then show ?thesis using fa by simp
qed

text \<open>The first write that fails makes the stream fail; the texts of the items before it were written.\<close>

lemma format_to_file_fails:
  assumes "n < length its" "\<forall>j<n. can_write E (i + j)" "\<not> can_write E (i + n)" "is_open st" "\<not> failed st"
    and "format_to_file E i its ev (st, content @ ss) = Inr out"
  shows "\<exists>text. format_items_loop (env_strftime E) (take n its) ev ss = Inr text \<and> out = (st\<lparr>failed := True\<rparr>, content @ text)"
  using assms
proof (induction its arbitrary: i n ss)
  case (Cons it its)
  then obtain t where t: "item_format (env_strftime E) it ev = Inr t" by (auto simp: rbind_eq_Inr)
  show ?case
  proof (cases n)
    case 0
    with Cons.prems t show ?thesis by (auto simp: stream_put_def dest: format_to_file_failed)
  next
    case (Suc m)
    have "can_write E i" using Cons.prems(2) Suc by (metis add.right_neutral zero_less_Suc)
    then have "format_to_file E (Suc i) its ev (st, content @ (ss @ t)) = Inr out"
      using Cons.prems(4-6) t by (simp add: stream_put_def)
    moreover have "\<forall>j<m. can_write E (Suc i + j)" using Cons.prems(2) Suc by (metis add_Suc_right add_Suc_shift Suc_less_eq)
    ultimately show ?thesis using Cons.IH [of m "Suc i" "ss @ t"] Cons.prems Suc t by simp
  qed
qed simp

lemma FileLogAppender_log_fails:
  assumes "file_ok fa" "can_open E (m_filename fa)" "m_reopenError fa \<longrightarrow> m_lastTime fa + 3 \<le> m_time ev"
    and "n < length (m_items f)" "\<forall>j<n. can_write E j" "\<not> can_write E n"
    and run: "FileLogAppender_log E f ev fa files = Inr (fa', files')"
  shows "broken fa' \<and> (\<exists>text. format_items_loop (env_strftime E) (take n (m_items f)) ev [] = Inr text \<and>
    files' = files(m_filename fa := files (m_filename fa) @ text))"
proof -
  let ?fa = "if m_lastTime fa + 3 \<le> m_time ev then (snd (reopen E fa))\<lparr>m_lastTime := m_time ev\<rparr> else fa"
  have fa: "\<not> m_reopenError ?fa" "file_ok ?fa" "m_filename ?fa = m_filename fa"
    using assms(1-3) reopen_ok [OF assms(1), of E] by (auto simp: file_ok_def reopen_def Let_def)
  then have st: "is_open (m_filestream ?fa)" "\<not> failed (m_filestream ?fa)" by (simp_all add: file_ok_def)
  from run fa(1) obtain st content where
    r: "format_to_file E 0 (m_items f) ev (m_filestream ?fa, files (m_filename ?fa)) = Inr (st, content)"
      "fa' = ?fa\<lparr>m_filestream := st\<rparr>" "files' = files(m_filename ?fa := content)"
    unfolding FileLogAppender_log_def Let_def by (auto simp: rbind_eq_Inr simp del: if_split)
  from format_to_file_fails [OF assms(4) _ _ st, of E 0 ev "files (m_filename ?fa)" "[]"] r(1) assms(5,6)
  obtain w where "format_items_loop (env_strftime E) (take n (m_items f)) ev [] = Inr w"
    "(st, content) = ((m_filestream ?fa)\<lparr>failed := True\<rparr>, files (m_filename ?fa) @ w)" by auto
  with r(2,3) st(1) fa(3) show ?thesis by (simp add: broken_def)
qed

text \<open>Between events an appender is in order or broken.\<close>

lemma FileLogAppender_log_ok_or_broken:
  assumes "file_ok fa" "FileLogAppender_log E f ev fa files = Inr (fa', files')"
  shows "file_ok fa' \<or> broken fa'"
proof -
  let ?fa = "if m_lastTime fa + 3 \<le> m_time ev then (snd (reopen E fa))\<lparr>m_lastTime := m_time ev\<rparr> else fa"
  have ok: "file_ok ?fa" using assms(1) reopen_ok [OF assms(1), of E] by (simp add: file_ok_def)
  show ?thesis
  proof (cases "m_reopenError ?fa")
    case True
    with assms(2) ok show ?thesis unfolding FileLogAppender_log_def Let_def by (simp del: if_split)
  next
    case False
    with assms(2) obtain out where r: "format_to_file E 0 (m_items f) ev (m_filestream ?fa, files (m_filename ?fa)) = Inr out"
      "fa' = ?fa\<lparr>m_filestream := fst out\<rparr>"
      unfolding FileLogAppender_log_def Let_def by (auto simp: rbind_eq_Inr simp del: if_split)
    have "is_open (fst o2) = is_open (fst o1)" if "format_to_file E k its ev o1 = Inr o2" for k its and o1 o2 :: "ofstream \<times> string"
      using that by (induction its arbitrary: k o1) (fastforce simp: stream_put_def rbind_eq_Inr split: prod.splits if_splits)+
    from this [OF r(1)] False ok r(2) show ?thesis by (auto simp: file_ok_def broken_def simp del: if_split)
  qed
qed

text \<open>A sequence of events logged by one appender, each in its own environment.\<close>

fun file_logs :: "(log_env \<times> LogFormatter \<times> LogEvent) list \<Rightarrow> FileLogAppender \<Rightarrow> (string \<Rightarrow> string) \<Rightarrow>
    (FileLogAppender \<times> (string \<Rightarrow> string)) result" where
  "file_logs [] fa files = Inr (fa, files)"
| "file_logs ((E, f, ev) # evs) fa files = rbind (FileLogAppender_log E f ev fa files) (\<lambda>(fa', files'). file_logs evs fa' files')"

lemma file_logs_broken:
  "broken fa \<Longrightarrow> file_logs evs fa files = Inr (fa', files') \<Longrightarrow> broken fa' \<and> files' = files"
proof (induction evs fa files rule: file_logs.induct)
  case (2 E f ev evs fa files)
  then obtain fa1 files1 where "FileLogAppender_log E f ev fa files = Inr (fa1, files1)"
    "file_logs evs fa1 files1 = Inr (fa', files')" by (auto simp: rbind_eq_Inr)
  with 2 FileLogAppender_log_broken [OF "2.prems"(1)] show ?case by blast
qed simp

subsection \<open>Definitions as documents\<close>

text \<open>What yaml-cpp documents for well-formed access.\<close>

definition yaml_access :: "yaml_cpp \<Rightarrow> bool" where
  "yaml_access Y \<longleftrightarrow> (\<forall>kvs k. yaml_key Y (Map kvs) k = Inr (map_of kvs k)) \<and>
     (\<forall>s. yaml_as_string Y (Scalar s) = Inr s) \<and>
     (\<forall>ns i. i < length ns \<longrightarrow> yaml_index Y (Sequence ns) i = Inr (ns ! i))"

text \<open>The definitions that a text can express: a console appender has no file.\<close>

definition appender_define_proper :: "LogAppenderDefine \<Rightarrow> bool" where
  "appender_define_proper ad \<longleftrightarrow> ad_type ad = 1 \<or> ad_type ad = 2 \<and> ad_file ad = []"

lemma read_appender_define:
  assumes "yaml_access Y" "appender_define_proper ad"
  shows "read_appender Y (appender_define_node ad) = Inr (Some ad)"
  using assms by (cases ad) (auto simp: yaml_access_def appender_define_proper_def appender_define_node_def read_appender_def
      opt_string_def Let_def)

lemma read_appenders_define:
  assumes "yaml_access Y" "list_all appender_define_proper ads"
    and "\<And>i. i < length ads \<Longrightarrow> yaml_index Y node (k + i) = Inr (appender_define_node (ads ! i))"
  shows "read_appenders Y node [k..<k + length ads] = Inr ads"
  using assms(2,3)
proof (induction ads arbitrary: k)
  case (Cons ad ads)
  have "read_appenders Y node [Suc k..<Suc k + length ads] = Inr ads"
    using Cons.IH [of "Suc k"] Cons.prems(1) Cons.prems(2) [of "Suc _"] by simp
  moreover have "yaml_index Y node k = Inr (appender_define_node ad)" using Cons.prems(2) [of 0] by simp
  ultimately show ?case
    using read_appender_define [OF assms(1), of ad] Cons.prems(1) by (simp add: upt_conv_Cons del: upt_Suc)
qed simp

lemma LogDefine_of_node:
  assumes "yaml_access Y" "list_all appender_define_proper (ld_appenders d)"
    and "yaml_Load Y s = Inr (LogDefine_node d)"
  shows "LogDefine_of_string Y s = Inr d"
proof -
  let ?as = "Sequence (map appender_define_node (ld_appenders d))"
  have "read_appenders Y ?as [0..<length (ld_appenders d)] = Inr (ld_appenders d)"
    using read_appenders_define [OF assms(1,2), of ?as 0] assms(1) by (simp add: yaml_access_def)
  then show ?thesis
    using assms(1,3) by (cases d) (auto simp: LogDefine_of_string_def LogDefine_node_def opt_string_def yaml_access_def ToString_FromString)
qed

lemma LogDefines_of_nodes:
  assumes "yaml_access Y" "list_all (\<lambda>d. list_all appender_define_proper (ld_appenders d)) ds" "sorted_wrt LogDefine_less ds"
    and "list_all (\<lambda>d. yaml_Load Y (yaml_emit Y (LogDefine_node d)) = Inr (LogDefine_node d)) ds"
    and "yaml_Load Y s = Inr (Sequence (map LogDefine_node ds))"
  shows "string_to_set Y LogDefine_less (LogDefine_of_string Y) s = Inr ds"
    and "set_to_string Y (LogDefine_to_string Y) ds = Inr (yaml_emit Y (Sequence (map LogDefine_node ds)))"
proof -
  have st: "list_all2 (stands_for Y (LogDefine_to_string Y) (LogDefine_of_string Y)) ds (map LogDefine_node ds)"
    using assms(2,4) LogDefine_of_node [OF assms(1)]
    by (auto simp: list_all2_conv_all_nth list_all_length stands_for_def LogDefine_to_string_def)
  have "seq_elems Y (LogDefine_of_string Y) (Sequence (map LogDefine_node ds)) [0..<length ds] = Inr ds"
    using seq_elems_stand [OF st, of "Sequence (map LogDefine_node ds)" 0] assms(1) by (simp add: yaml_access_def)
  then show "string_to_set Y LogDefine_less (LogDefine_of_string Y) s = Inr ds"
    using assms(5) set_insert_sorted [OF log_defines.strict_weak_order_axioms, of "[]" ds] assms(3)
    by (simp add: string_to_set_def)
  show "set_to_string Y (LogDefine_to_string Y) ds = Inr (yaml_emit Y (Sequence (map LogDefine_node ds)))"
    using seq_nodes_stand [OF st] by (simp add: set_to_string_def)
qed

section \<open>Properties\<close>

text \<open>
  Setting the variable \<^verbatim>\<open>logs\<close> from a text that converts to usable definitions reconfigures the loggers: those
  whose definition is new or different get the level and the appenders of the definition (a daemon gets no
  console appenders), those whose definition was removed lose their appenders, and all others are kept.
\<close>

theorem log_config_loaded:
  assumes "log_ok L" "sorted_wrt LogDefine_less old"
    and "string_to_set Y LogDefine_less (LogDefine_of_string Y) text = Inr new" "list_all define_ok new"
    and "returns (SYLAR_LOG_LEVEL E w (m_root L) INFO ''on log config changed'' L)"
  shows "\<exists>L'. fromString text ((g_log_defines Y E w)\<lparr>m_val := old\<rparr>) L =
      (Inr False, (g_log_defines Y E w)\<lparr>m_val := new\<rparr>, L') \<and> log_ok L' \<and>
    logger_view L' = changed_view E old new (logger_view L)"
proof (cases "old = new")
  case True
  then show ?thesis
    using assms changed_view_same [OF assms(2), of E "logger_view L"]
    by (simp add: fromString_def setValue_def g_log_defines_def addListener_def ConfigVar_new_def)
next
  case False
  from log_change_applies [OF assms(1,4,2) string_to_set_sorted [OF assms(3)] assms(5)]
  obtain L' where "on_log_change E w old new L = Inr L'" "log_ok L'"
    "logger_view L' = changed_view E old new (logger_view L)" by blast
  then show ?thesis
    using assms(3) False
    by (simp add: fromString_def setValue_def g_log_defines_def addListener_def ConfigVar_new_def log_listener_def)
qed

lemma file_logs_ok_or_broken:
  "file_ok fa \<or> broken fa \<Longrightarrow> file_logs evs fa files = Inr (fa', files') \<Longrightarrow> file_ok fa' \<or> broken fa'"
proof (induction evs fa files rule: file_logs.induct)
  case (2 E f ev evs fa files)
  then obtain fa1 files1 where "FileLogAppender_log E f ev fa files = Inr (fa1, files1)"
    "file_logs evs fa1 files1 = Inr (fa', files')" by (auto simp: rbind_eq_Inr)
  with 2 FileLogAppender_log_ok_or_broken FileLogAppender_log_broken show ?case by blast
qed simp

lemma FileLogAppender_new_ok:
  "FileLogAppender_new E file = Inr ap \<Longrightarrow> app_class ap = FileLogAppender fa \<Longrightarrow> file_ok fa"
  by (auto simp: FileLogAppender_new_def LogAppender_new_def rbind_eq_Inr file_ok_def reopen_def stream_open_def
      stream_close_def Let_def split: if_splits)

text \<open>
  C40. A file appender that has logged any events since it was made and had no failed write, its stream not being broken, and that
  now gets another event. If the file can be opened and written, it appends exactly what the formatter prints;
  after it could not open the file before, this holds for the first event 3 seconds or more after the last attempt,
  and until then nothing is written. If a write fails, the texts of the items before it are written, and from then on the
  appender is silent for ever: the failed stream is not closed before it is opened again, so opening fails, and no
  later event is written, whatever the file system does. (Written is what the stream has taken, its buffer apart.)
\<close>

theorem file_appender_log:
  fixes ev :: LogEvent
  assumes "FileLogAppender_new E0 file = Inr ap" "app_class ap = FileLogAppender fa0"
    and "file_logs evs0 fa0 files0 = Inr (fa, files)" "\<not> (is_open (m_filestream fa) \<and> failed (m_filestream fa))"
  defines "tries \<equiv> \<not> m_reopenError fa \<or> m_lastTime fa + 3 \<le> m_time ev"
  shows "(\<not> tries \<longrightarrow> FileLogAppender_log E f ev fa files = Inr (fa, files)) \<and>
    (tries \<and> can_open E (m_filename fa) \<and> (\<forall>k. can_write E k) \<and> LogFormatter_format (env_strftime E) f ev = Inr out \<longrightarrow>
      (\<exists>fa'. FileLogAppender_log E f ev fa files =
         Inr (fa', files(m_filename fa := files (m_filename fa) @ out)) \<and> \<not> m_reopenError fa')) \<and>
    (tries \<and> can_open E (m_filename fa) \<and> n < length (m_items f) \<and> (\<forall>j<n. can_write E j) \<and> \<not> can_write E n \<and>
      FileLogAppender_log E f ev fa files = Inr (fb, files1) \<and> file_logs evs fb files1 = Inr (fb', files') \<longrightarrow>
      (\<exists>text. format_items_loop (env_strftime E) (take n (m_items f)) ev [] = Inr text \<and>
         files1 = files(m_filename fa := files (m_filename fa) @ text)) \<and> files' = files1)"
proof -
  have "file_ok fa \<or> broken fa"
    using file_logs_ok_or_broken [OF _ assms(3)] FileLogAppender_new_ok [OF assms(1,2)] by blast
  then have ok: "file_ok fa" using assms(4) by (simp add: broken_def)
  have "FileLogAppender_log E f ev fa files = Inr (fa, files)" if "\<not> tries"
    using that by (simp add: tries_def FileLogAppender_log_def)
  moreover have "\<exists>fa'. FileLogAppender_log E f ev fa files =
      Inr (fa', files(m_filename fa := files (m_filename fa) @ out)) \<and> \<not> m_reopenError fa'"
    if "tries" "can_open E (m_filename fa)" "\<forall>k. can_write E k" "LogFormatter_format (env_strftime E) f ev = Inr out"
    using FileLogAppender_log_ok [OF ok that(2,3) _ that(4)] that(1) unfolding tries_def by blast
  moreover have "(\<exists>text. format_items_loop (env_strftime E) (take n (m_items f)) ev [] = Inr text \<and>
      files1 = files(m_filename fa := files (m_filename fa) @ text)) \<and> files' = files1"
    if "tries" "can_open E (m_filename fa)" "n < length (m_items f)" "\<forall>j<n. can_write E j" "\<not> can_write E n"
      "FileLogAppender_log E f ev fa files = Inr (fb, files1)" "file_logs evs fb files1 = Inr (fb', files')"
    using FileLogAppender_log_fails [OF ok that(2) _ that(3-6)] file_logs_broken [OF _ that(7)] that(1) unfolding tries_def by blast
  ultimately show ?thesis by blast
qed

definition good_env :: log_env where
  "good_env = \<lparr>can_open = (\<lambda>_. True), can_write = (\<lambda>_. True), env_strftime = (\<lambda>_ _. ''now''), has_d = False\<rparr>"

definition hello_event :: LogEvent where
  "hello_event = vprintf (Some ''hello'') (LogEvent_new ''root'' INFO ''main.cc'' 1 0 1 1 100 ''main'')"

definition message_formatter :: LogFormatter where
  "message_formatter = \<lparr>m_pattern = ''%m'', m_items = [MessageFormatItem], m_error = False\<rparr>"

text \<open>
  A new appender: it logs an event; or its first write fails, and the same event is not written when writing works again.
\<close>

theorem file_appender_log_witness:
  "\<exists>ap fa. FileLogAppender_new good_env ''a.log'' = Inr ap \<and> app_class ap = FileLogAppender fa \<and>
     (\<exists>fa'. FileLogAppender_log good_env message_formatter hello_event fa (\<lambda>_. []) = Inr (fa', (\<lambda>_. [])(''a.log'' := ''hello''))) \<and>
     (\<exists>fb files1 fb'. FileLogAppender_log (good_env\<lparr>can_write := \<lambda>_. False\<rparr>) message_formatter hello_event fa (\<lambda>_. []) = Inr (fb, files1) \<and>
        file_logs [(good_env, message_formatter, hello_event)] fb files1 = Inr (fb', \<lambda>_. []))"
proof -
  let ?bad = "good_env\<lparr>can_write := \<lambda>_. False\<rparr>"
  let ?fa = "\<lparr>m_filename = ''a.log'', m_filestream = \<lparr>is_open = True, failed = False\<rparr>, m_lastTime = 0, m_reopenError = False\<rparr>"
  obtain ap where ap: "FileLogAppender_new good_env ''a.log'' = Inr ap" "app_class ap = FileLogAppender ?fa"
    using default_pattern_returns
    by (auto simp: FileLogAppender_new_def LogAppender_new_def reopen_def stream_open_def stream_close_def Let_def good_env_def)
  note defs = good_env_def message_formatter_def hello_event_def vprintf_def LogEvent_new_def LogFormatter_format_def
  let ?fb = "?fa\<lparr>m_filestream := \<lparr>is_open = True, failed = True\<rparr>, m_lastTime := 100\<rparr>"
  let ?files = "(\<lambda>_. [])(''a.log'' := [])"
  have b: "FileLogAppender_log ?bad message_formatter hello_event ?fa (\<lambda>_. []) = Inr (?fb, ?files)"
    by (simp add: FileLogAppender_log_def defs reopen_def stream_open_def stream_close_def stream_put_def Let_def)
  have c: "file_logs [(good_env, message_formatter, hello_event)] ?fb ?files = Inr (?fb, ?files)"
    by (simp add: FileLogAppender_log_def defs stream_put_def Let_def)
  note log = file_appender_log [OF ap, of "[]" "\<lambda>_. []" ?fa "\<lambda>_. []" hello_event]
  have "LogFormatter_format (env_strftime good_env) message_formatter hello_event = Inr ''hello''" by (simp add: defs)
  then have ok: "\<exists>fa'. FileLogAppender_log good_env message_formatter hello_event ?fa (\<lambda>_. []) = Inr (fa', (\<lambda>_. [])(''a.log'' := ''hello''))"
    using log [where E = good_env and f = message_formatter and out = "''hello''"] by (auto simp: good_env_def)
  have none: "?files = (\<lambda>_. [])"
    using log [of ?bad message_formatter _ 0 ?fb ?files "[(good_env, message_formatter, hello_event)]" ?fb ?files] b c
    by (auto simp: defs)
  show ?thesis using ap b c ok none by (intro exI [of _ ap] exI [of _ ?fa]) auto
qed

text \<open>
  C28. Printing the variable \<^verbatim>\<open>logs\<close> and reading the text back gives the same definitions, with level, appenders,
  files and patterns, if yaml-cpp reads back the documents it printed.
\<close>

theorem logs_roundtrip:
  assumes "yaml_access Y" "list_all (\<lambda>d. list_all appender_define_proper (ld_appenders d)) ds" "sorted_wrt LogDefine_less ds"
    and "list_all (\<lambda>d. yaml_Load Y (yaml_emit Y (LogDefine_node d)) = Inr (LogDefine_node d)) ds"
    and "yaml_Load Y (yaml_emit Y (Sequence (map LogDefine_node ds))) = Inr (Sequence (map LogDefine_node ds))"
  shows "rbind (toString ((g_log_defines Y E w)\<lparr>m_val := ds\<rparr>)) (FromStr (g_log_defines Y E w)) = Inr ds"
  using LogDefines_of_nodes [OF assms]
  by (simp add: toString_def g_log_defines_def addListener_def ConfigVar_new_def)

definition system_define :: LogDefine where
  "system_define = \<lparr>ld_name = ''system'', ld_level = DEBUG,
     ld_appenders = [\<lparr>ad_type = 1, ad_pattern = ''%m%n'', ad_file = ''a.log''\<rparr>, \<lparr>ad_type = 2, ad_pattern = [], ad_file = []\<rparr>]\<rparr>"

definition logs_yaml :: yaml_cpp where
  "logs_yaml = flow_yaml\<lparr>
     yaml_Load := (\<lambda>s. Inr (if s = ''logs'' then Sequence [LogDefine_node system_define] else LogDefine_node system_define)),
     yaml_emit := (\<lambda>n. case n of Sequence ns \<Rightarrow> ''logs'' | _ \<Rightarrow> ''system'')\<rparr>"

definition test_site :: log_site where
  "test_site = \<lparr>site_file = ''main.cc'', site_line = 1, site_now = 0, site_thread = 1, site_fiber = 0, site_time = 100,
     site_threadName = ''main''\<rparr>"

theorem logs_roundtrip_witness:
  "rbind (toString ((g_log_defines logs_yaml good_env test_site)\<lparr>m_val := [system_define]\<rparr>))
     (FromStr (g_log_defines logs_yaml good_env test_site)) = Inr [system_define]"
  by (rule logs_roundtrip)
    (simp_all add: yaml_access_def logs_yaml_def flow_yaml_def system_define_def appender_define_proper_def LogDefine_node_def)

definition quiet_log :: Log where
  "quiet_log = \<lparr>appenders = Map.empty, loggers = [1 \<mapsto> (Logger_new ''root'' 0)\<lparr>lg_level := ERROR\<rparr>], next_addr = 2,
     m_loggers = [''root'' \<mapsto> 1], m_root = 1, cout = [], disk = (\<lambda>_. [])\<rparr>"

lemma system_define_ok: "define_ok system_define"
proof -
  have "LogFormatter_new ''%m%n'' = LogFormatter_new (render_pattern [Conv CHR ''m'', Conv CHR ''n''])"
    "LogFormatter_new [] = LogFormatter_new (render_pattern [])" by (simp_all add: render_pattern_def)
  then show ?thesis
    using LogFormatter_new_pieces [of "[Conv CHR ''m'', Conv CHR ''n'']"] LogFormatter_new_pieces [of "[]"]
    by (simp add: define_ok_def system_define_def appender_define_ok_def format_items_def)
qed

lemma logs_yaml_reads:
  "string_to_set logs_yaml LogDefine_less (LogDefine_of_string logs_yaml) ''logs'' = Inr [system_define]"
  by (rule LogDefines_of_nodes)
    (simp_all add: yaml_access_def logs_yaml_def flow_yaml_def system_define_def appender_define_proper_def LogDefine_node_def)

theorem log_config_loaded_witness:
  "\<exists>L'. fromString ''logs'' ((g_log_defines logs_yaml good_env test_site)\<lparr>m_val := []\<rparr>) quiet_log =
      (Inr False, (g_log_defines logs_yaml good_env test_site)\<lparr>m_val := [system_define]\<rparr>, L') \<and> log_ok L' \<and>
    logger_view L' = changed_view good_env [] [system_define] (logger_view quiet_log)"
proof (rule log_config_loaded)
  show "log_ok quiet_log" by (auto simp: log_ok_def quiet_log_def Logger_new_def split: if_splits)
  show "string_to_set logs_yaml LogDefine_less (LogDefine_of_string logs_yaml) ''logs'' = Inr [system_define]"
    by (rule logs_yaml_reads)
  show "list_all define_ok [system_define]" by (simp add: system_define_ok)
  show "returns (SYLAR_LOG_LEVEL good_env test_site (m_root quiet_log) INFO ''on log config changed'' quiet_log)"
    by (simp add: SYLAR_LOG_LEVEL_def with_logger_def quiet_log_def less_eq_Level_def)
qed simp_all

end
