(* ===== verification/Log_Total.thy ===== *)
theory Log_Total
  imports Log
begin

text \<open>
  Logging and changing the configuration of loggers always return, as long as dates fit the buffer that
  \<^verbatim>\<open>strftime\<close> fills; and neither removes a logger or an appender that exists.
\<close>

section \<open>Logging always returns\<close>

text \<open>The only call that can go wrong while an event is printed is \<^verbatim>\<open>strftime\<close> into its buffer.\<close>

definition short_dates :: "log_env \<Rightarrow> bool" where
  "short_dates E \<longleftrightarrow> (\<forall>f t. length (env_strftime E f t) < 64)"

lemma item_format_returns: "short_dates E \<Longrightarrow> \<exists>text. item_format (env_strftime E) it ev = Inr text"
  by (cases it) (simp_all add: short_dates_def Let_def)

lemma format_items_loop_returns: "short_dates E \<Longrightarrow> \<exists>text. format_items_loop (env_strftime E) its ev ss = Inr text"
proof (induction its arbitrary: ss)
  case (Cons it its)
  from item_format_returns [OF Cons.prems, of it ev] Cons show ?case by auto
qed simp

lemma format_to_file_returns: "short_dates E \<Longrightarrow> \<exists>out'. format_to_file E k its ev out = Inr out'"
proof (induction its arbitrary: k out)
  case (Cons it its)
  obtain t where "item_format (env_strftime E) it ev = Inr t" using item_format_returns [OF Cons.prems] by blast
  with Cons.IH [OF Cons.prems, of "Suc k" "stream_put (can_write E k) t out"] show ?case by simp
qed simp

lemma appender_log_returns:
  assumes "short_dates E" "p \<in> dom (appenders L)"
  shows "\<exists>L'. appender_log E ev p L = Inr L'"
proof -
  obtain ap where ap: "appenders L p = Some ap" using assms(2) by auto
  show ?thesis
  proof (cases "app_class ap")
    case StdoutLogAppender
    then show ?thesis
      using ap format_items_loop_returns [OF assms(1), of "m_items (getFormatter ap)" ev "[]"]
      by (auto simp: appender_log_def LogFormatter_format_def)
  next
    case (FileLogAppender fa)
    have "\<exists>r. FileLogAppender_log E f ev fa files = Inr r" for f files
      using format_to_file_returns [OF assms(1)]
      by (auto simp: FileLogAppender_log_def Let_def rbind_def split: sum.split prod.split) (metis Inr_not_Inl)+
    then obtain r where "FileLogAppender_log E (getFormatter ap) ev fa (disk L) = Inr r" by blast
    then show ?thesis using ap FileLogAppender by (cases r) (simp add: appender_log_def)
  qed
qed

text \<open>Logging and configuring keep the objects that exist.\<close>

definition grows :: "Log \<Rightarrow> Log \<Rightarrow> bool" where
  "grows L L' \<longleftrightarrow> dom (loggers L) \<subseteq> dom (loggers L') \<and> m_root L' = m_root L"

lemma grows_refl [simp]: "grows L L"
  by (simp add: grows_def)

lemma grows_trans: "grows L L1 \<Longrightarrow> grows L1 L2 \<Longrightarrow> grows L L2"
  by (auto simp: grows_def)

lemma appender_log_keeps:
  "appender_log E ev p L = Inr L' \<Longrightarrow> loggers L' = loggers L \<and> m_root L' = m_root L \<and> dom (appenders L') = dom (appenders L)"
  by (auto simp: appender_log_def rbind_eq_Inr split: option.splits appender_class.splits if_splits)

lemma appenders_log_returns:
  assumes "short_dates E" "set ps \<subseteq> dom (appenders L)"
  shows "\<exists>L'. appenders_log E ev ps L = Inr L' \<and> grows L L'"
  using assms(2)
proof (induction ps arbitrary: L)
  case (Cons p ps)
  obtain L1 where L1: "appender_log E ev p L = Inr L1" using appender_log_returns [OF assms(1), of p L ev] Cons.prems by auto
  note k = appender_log_keeps [OF L1]
  with Cons obtain L' where "appenders_log E ev ps L1 = Inr L'" "grows L1 L'" by fastforce
  with L1 k show ?case by (auto simp: grows_def)
qed simp

lemma logging_returns:
  assumes "short_dates E" "log_ok L" "a \<in> dom (loggers L)"
  shows "\<exists>L'. SYLAR_LOG_LEVEL E w a level text L = Inr L' \<and> grows L L' \<and> log_ok L' \<and> logger_view L' = logger_view L"
proof -
  obtain lg where lg: "loggers L a = Some lg" using assms(3) by auto
  have "set (lg_appenders lg) \<subseteq> dom (appenders L)" using assms(2) lg unfolding log_ok_def by blast
  note app = appenders_log_returns [OF assms(1) this]
  have "\<exists>L'. SYLAR_LOG_LEVEL E w a level text L = Inr L' \<and> grows L L'"
  proof (cases "level \<le> lg_level lg")
    case True
    with app lg show ?thesis
      by (simp add: SYLAR_LOG_LEVEL_def with_logger_def Logger_log_def vprintf_def LogEvent_new_def)
  qed (use lg in \<open>simp add: SYLAR_LOG_LEVEL_def with_logger_def\<close>)
  with SYLAR_LOG_LEVEL_view [OF assms(2)] show ?thesis by blast
qed

lemma upd_logger_grows: "upd_logger a f L = Inr L' \<Longrightarrow> grows L L'"
  by (auto simp: upd_logger_def with_logger_def grows_def split: option.splits)

lemma getLogger_grows: "getLogger now name L = (a, L') \<Longrightarrow> grows L L'"
  by (auto simp: getLogger_def grows_def split: option.splits)

lemma alloc_appender_grows: "alloc_appender ap L = (p, L') \<Longrightarrow> grows L L'"
  by (auto simp: alloc_appender_def grows_def)

lemmas logger_updates = setLevel_def addAppender_def clearAppenders_def

lemma make_appenders_grows: "make_appenders E a ads L = Inr L' \<Longrightarrow> grows L L'"
proof (induction ads arbitrary: L)
  case (Cons ad ads)
  obtain ap where ap: "make_appender E ad = Inr ap" using Cons.prems by (auto simp: rbind_eq_Inr)
  show ?case
  proof (cases ap)
    case None
    with Cons ap show ?thesis by simp
  next
    case (Some x)
    obtain p L1 where L1: "alloc_appender x L = (p, L1)" by fastforce
    with Cons.prems ap Some obtain L2 where L2: "addAppender a p L1 = Inr L2" "make_appenders E a ads L2 = Inr L'"
      by (auto simp: rbind_eq_Inr)
    have "grows L1 L2" using L2(1) by (auto simp: logger_updates dest: upd_logger_grows)
    with alloc_appender_grows [OF L1] Cons.IH [OF L2(2)] show ?thesis using grows_trans by blast
  qed
qed simp

lemma configure_logger_grows: "configure_logger E now d L = Inr L' \<Longrightarrow> grows L L'"
  by (auto simp: configure_logger_def logger_updates rbind_eq_Inr split: prod.splits
      dest!: upd_logger_grows getLogger_grows make_appenders_grows intro: grows_trans)

lemma configure_new_grows: "configure_new E now old ds L = Inr L' \<Longrightarrow> grows L L'"
proof (induction ds arbitrary: L)
  case (Cons d ds)
  then show ?case
    by (auto simp: Let_def rbind_eq_Inr split: if_splits dest!: configure_logger_grows intro: grows_trans)
qed simp

lemma configure_old_grows: "configure_old now new ds L = Inr L' \<Longrightarrow> grows L L'"
proof (induction ds arbitrary: L)
  case (Cons d ds)
  show ?case
  proof (cases "set_find LogDefine_less d new = length new")
    case True
    obtain a L1 where L1: "getLogger now (ld_name d) L = (a, L1)" by fastforce
    with Cons.prems True obtain L2 L3 where L2: "setLevel a NOTSET L1 = Inr L2" "clearAppenders a L2 = Inr L3"
      "configure_old now new ds L3 = Inr L'" by (auto simp: rbind_eq_Inr)
    then have "grows L1 L2" "grows L2 L3" by (auto simp: logger_updates dest: upd_logger_grows)
    with getLogger_grows [OF L1] Cons.IH [OF L2(3)] show ?thesis using grows_trans by blast
  qed (use Cons in simp)
qed simp

text \<open>The listener of \<^verbatim>\<open>logs\<close> returns for usable definitions and changes the loggers as specified.\<close>

lemma log_listener_returns:
  assumes E: "short_dates E" and L: "log_ok L" "m_root L \<in> dom (loggers L)"
    and ds: "list_all define_ok new" "sorted_wrt LogDefine_less old" "sorted_wrt LogDefine_less new"
  shows "\<exists>L'. log_listener E w old new L = (None, L') \<and> grows L L' \<and> log_ok L' \<and>
    logger_view L' = changed_view E old new (logger_view L)"
proof -
  have "returns (SYLAR_LOG_LEVEL E w (m_root L) INFO ''on log config changed'' L)"
    using logging_returns [OF E L] unfolding returns_def by blast
  from log_change_applies [OF L(1) ds this] obtain L' where L': "on_log_change E w old new L = Inr L'" "log_ok L'"
    "logger_view L' = changed_view E old new (logger_view L)" by blast
  from L'(1) obtain L1 L2 where steps: "SYLAR_LOG_LEVEL E w (m_root L) INFO ''on log config changed'' L = Inr L1"
    "configure_new E (site_now w) old new L1 = Inr L2" "configure_old (site_now w) new old L2 = Inr L'"
    by (auto simp: on_log_change_def rbind_eq_Inr)
  have "grows L L1" using steps(1) logging_returns [OF E L, of w INFO "''on log config changed''"] by auto
  then have "grows L L'"
    using grows_trans [OF _ grows_trans [OF configure_new_grows [OF steps(2)] configure_old_grows [OF steps(3)]]] by blast
  with L' show ?thesis by (simp add: log_listener_def)
qed

lemma SYLAR_LOG_LEVEL_grows:
  assumes "SYLAR_LOG_LEVEL E w a level text L = Inr L'"
  shows "grows L L'"
proof -
  have "grows L L'" if "appenders_log E ev ps L = Inr L'" for ev ps
    using that
  proof (induction ps arbitrary: L)
    case (Cons p ps)
    then obtain L1 where "appender_log E ev p L = Inr L1" "appenders_log E ev ps L1 = Inr L'" by (auto simp: rbind_eq_Inr)
    moreover have "grows L L1" using appender_log_keeps [OF calculation(1)] by (simp add: grows_def)
    ultimately show ?case using Cons.IH grows_trans by blast
  qed simp
  then show ?thesis using assms
    by (auto simp: SYLAR_LOG_LEVEL_def with_logger_def Logger_log_def split: option.splits if_splits)
qed

lemma getLogger_views:
  assumes "log_ok L" "getLogger now name L = (a, L')" "logger_view L n = Some l"
  shows "logger_view L' n = Some l"
proof (cases "n = name")
  case True
  then have "m_loggers L name \<noteq> None" using assms(3) by (auto simp: logger_view_def split: option.splits)
  then show ?thesis using assms(2,3) by (auto simp: getLogger_def)
qed (use getLogger_view [OF assms(1,2)] assms(3) in auto)

lemma LoggerManager_new_ok:
  "\<exists>L. LoggerManager_new now files = Inr L \<and> log_ok L \<and> m_root L \<in> dom (loggers L)"
proof -
  obtain f where "LogFormatter_new default_pattern = Inr f" using default_pattern_returns by blast
  then show ?thesis
    by (simp add: LoggerManager_new_def StdoutLogAppender_new_def LogAppender_new_def alloc_appender_def addAppender_def
        upd_logger_def with_logger_def log_ok_def Logger_new_def)
qed

text \<open>Neither do they depend on the output so far.\<close>

lemma logger_state_out [simp]: "logger_state (L\<lparr>cout := c, disk := d\<rparr>) = logger_state L"
  by (simp add: logger_state_def fun_eq_iff)

lemma log_out_simps [simp]:
  "log_ok (L\<lparr>cout := c, disk := d\<rparr>) = log_ok L" "logger_view (L\<lparr>cout := c, disk := d\<rparr>) = logger_view L"
  "loggers (L\<lparr>cout := c, disk := d\<rparr>) = loggers L" "m_root (L\<lparr>cout := c, disk := d\<rparr>) = m_root L"
  by (auto simp: log_ok_def logger_view_def logger_state_def fun_eq_iff split: option.split)

end
