(* ===== verification/Singleton.thy ===== *)
theory Singleton
  imports Prelude
begin

text \<open>
  \<^verbatim>\<open>sylar/singleton.h\<close>. The templates stand in an unnamed namespace, so every translation unit that includes
  the header has its own \<^verbatim>\<open>Singleton<T>\<close> with its own static object: \<open>vals\<close> holds the objects that were
  constructed, by the name of the unit. \<open>make\<close> is the default constructor of the class, which may fail;
  then the object stays unconstructed and the next call tries again.
\<close>

definition static_local :: "'a result \<Rightarrow> string \<Rightarrow> (string \<rightharpoonup> 'a) \<Rightarrow> ('a \<times> (string \<rightharpoonup> 'a)) result" where
  "static_local make tu vals =
     (case vals tu of
        Some val \<Rightarrow> Inr (val, vals)
      | None \<Rightarrow> rbind make (\<lambda>val. Inr (val, vals(tu \<mapsto> val))))"

text \<open>The object itself, and for the classes with pointers the address of the object allocated by \<^verbatim>\<open>new\<close>.\<close>

definition GetInstanceX :: "'a result \<Rightarrow> string \<Rightarrow> (string \<rightharpoonup> 'a) \<Rightarrow> ('a \<times> (string \<rightharpoonup> 'a)) result" where
  "GetInstanceX make tu vals = static_local make tu vals"

definition GetInstancePtr :: "addr \<Rightarrow> string \<Rightarrow> (string \<rightharpoonup> addr) \<Rightarrow> (addr \<times> (string \<rightharpoonup> addr)) result" where
  "GetInstancePtr p tu vals = static_local (Inr p) tu vals"

definition Singleton_GetInstance :: "'a result \<Rightarrow> string \<Rightarrow> (string \<rightharpoonup> 'a) \<Rightarrow> ('a \<times> (string \<rightharpoonup> 'a)) result" where
  "Singleton_GetInstance make tu vals = static_local make tu vals"

definition SingletonPtr_GetInstance :: "addr \<Rightarrow> string \<Rightarrow> (string \<rightharpoonup> addr) \<Rightarrow> (addr \<times> (string \<rightharpoonup> addr)) result" where
  "SingletonPtr_GetInstance p tu vals = static_local (Inr p) tu vals"

lemma GetInstance_once:
  "Singleton_GetInstance make tu vals = Inr (val, vals') \<Longrightarrow>
   vals' tu = Some val \<and> Singleton_GetInstance make' tu vals' = Inr (val, vals') \<and> (\<forall>u. u \<noteq> tu \<longrightarrow> vals' u = vals u)"
  by (auto simp: Singleton_GetInstance_def static_local_def rbind_eq_Inr split: option.splits)

lemma GetInstance_known [simp]: "vals tu = Some val \<Longrightarrow> Singleton_GetInstance make tu vals = Inr (val, vals)"
  by (simp add: Singleton_GetInstance_def static_local_def)

end
