(* ===== verification/Program.thy ===== *)
theory Program
  imports Hook Log_Total Singleton
begin

text \<open>
  The configuration variables of the program and what they configure: \<^verbatim>\<open>fiber.stack_size\<close>
  (\<^verbatim>\<open>fiber.cpp\<close>), \<^verbatim>\<open>tcp.connect.timeout\<close> with the listener of \<^verbatim>\<open>_HookIniter\<close> (\<^verbatim>\<open>hook.cpp\<close>) and \<^verbatim>\<open>logs\<close>
  with the listener of \<^verbatim>\<open>LogIniter\<close> (\<^verbatim>\<open>log.cpp\<close>), in one registry; what holds of them whatever documents are
  loaded; and two threads that set a variable at the same time.
\<close>

section \<open>Variables of several types\<close>

text \<open>
  The values that the variables hold, with the names of their types; a variable of another class holds a value
  \<open>OtherVal\<close> with the name of the class. \<^verbatim>\<open>boost::lexical_cast\<close> and \<^verbatim>\<open>dlsym\<close> are a record of functions.
\<close>

datatype 'x val = IntVal int | UintVal u32 | LogsVal "LogDefine list" | OtherVal string 'x

fun val_type :: "'x val \<Rightarrow> string" where
  "val_type (IntVal n) = ''int''"
| "val_type (UintVal n) = ''unsigned int''"
| "val_type (LogsVal ds) = ''std::set<LogDefine>''"
| "val_type (OtherVal tname x) = ''class '' @ tname"

record libraries =
  lexical_int :: "string \<Rightarrow> int result"
  lexical_uint :: "string \<Rightarrow> u32 result"
  int_text :: "int \<Rightarrow> string"
  uint_text :: "u32 \<Rightarrow> string"
  dlsym :: "string \<Rightarrow> addr"

fun int_val :: "'x val \<Rightarrow> int" where
  "int_val (IntVal n) = n"
| "int_val _ = 0"

fun uint_val :: "'x val \<Rightarrow> u32" where
  "uint_val (UintVal n) = n"
| "uint_val _ = 0"

fun logs_val :: "'x val \<Rightarrow> LogDefine list" where
  "logs_val (LogsVal ds) = ds"
| "logs_val _ = []"

definition rmap :: "('a \<Rightarrow> 'b) \<Rightarrow> 'a result \<Rightarrow> 'b result" where
  "rmap f r = rbind r (\<lambda>x. Inr (f x))"

text \<open>\<^verbatim>\<open>LexicalCast\<close> of a plain type and of the definitions of loggers.\<close>

definition int_from :: "libraries \<Rightarrow> string \<Rightarrow> 'x val result" where
  "int_from B text = rmap IntVal (lexical_int B text)"

definition int_to :: "libraries \<Rightarrow> 'x val \<Rightarrow> string result" where
  "int_to B v = Inr (int_text B (int_val v))"

definition uint_from :: "libraries \<Rightarrow> string \<Rightarrow> 'x val result" where
  "uint_from B text = rmap UintVal (lexical_uint B text)"

definition uint_to :: "libraries \<Rightarrow> 'x val \<Rightarrow> string result" where
  "uint_to B v = Inr (uint_text B (uint_val v))"

definition logs_from :: "yaml_cpp \<Rightarrow> string \<Rightarrow> 'x val result" where
  "logs_from Y text = rmap LogsVal (string_to_set Y LogDefine_less (LogDefine_of_string Y) text)"

definition logs_to :: "yaml_cpp \<Rightarrow> 'x val \<Rightarrow> string result" where
  "logs_to Y v = set_to_string Y (LogDefine_to_string Y) (logs_val v)"

section \<open>What the variables configure\<close>

text \<open>
  The logger managers, one for each translation unit that uses \<^verbatim>\<open>LoggerMgr\<close>, with the output they share, and
  \<^verbatim>\<open>s_connect_timeout\<close>, which is \<^verbatim>\<open>-1\<close> before it is first set.
\<close>

record process =
  p_managers :: "string \<rightharpoonup> Log"
  p_cout :: string
  p_disk :: "string \<Rightarrow> string"
  s_connect_timeout :: u64
  p_originals :: originals

definition process_new :: "(string \<Rightarrow> string) \<Rightarrow> process" where
  "process_new files = \<lparr>p_managers = Map.empty, p_cout = [], p_disk = files, s_connect_timeout = - 1, p_originals = originals_start\<rparr>"

text \<open>Code of the unit \<open>tu\<close> that uses its logger manager, which is constructed when it is first used.\<close>

definition in_unit :: "u64 \<Rightarrow> string \<Rightarrow> (Log \<Rightarrow> ('a \<times> Log) result) \<Rightarrow> process \<Rightarrow> ('a \<times> process) result" where
  "in_unit now tu f P =
     rbind (Singleton_GetInstance (LoggerManager_new now (p_disk P)) tu (p_managers P)) (\<lambda>(L, ms).
     rbind (f (L\<lparr>cout := p_cout P, disk := p_disk P\<rparr>)) (\<lambda>(x, L').
       Inr (x, P\<lparr>p_managers := ms(tu \<mapsto> L'), p_cout := cout L', p_disk := disk L'\<rparr>)))"

definition log_in_unit :: "log_env \<Rightarrow> log_site \<Rightarrow> string \<Rightarrow> addr \<Rightarrow> Level \<Rightarrow> string \<Rightarrow> process \<Rightarrow> (unit \<times> process) result" where
  "log_in_unit E w tu a level text P =
     in_unit (site_now w) tu (\<lambda>L. rbind (SYLAR_LOG_LEVEL E w a level text L) (\<lambda>L'. Inr ((), L'))) P"

text \<open>The listener of \<^verbatim>\<open>tcp.connect.timeout\<close>: the \<^verbatim>\<open>int\<close> is converted to \<^verbatim>\<open>uint64_t\<close>.\<close>

definition connect_timeout_changed :: "log_env \<Rightarrow> log_site \<Rightarrow> addr \<Rightarrow> int \<Rightarrow> int \<Rightarrow> process \<Rightarrow> fault option \<times> process" where
  "connect_timeout_changed E w g_logger oldValue newValue P =
     (case log_in_unit E w ''hook.cpp'' g_logger INFO
             (''tcp connect timeout changed from '' @ show_int oldValue @ '' to '' @ show_int newValue) P of
        Inl e \<Rightarrow> (Some e, P)
      | Inr (_, P') \<Rightarrow> (None, P'\<lparr>s_connect_timeout := word_of_int newValue\<rparr>))"

text \<open>
  The listeners as members of variables of any type. What the system does for them, the dates, the files that open, the
  answer to \<^verbatim>\<open>has("d")\<close>, is one \<open>log_env\<close> for all their calls, and the place and time of their log lines one \<open>log_site\<close>; in the
  program these may differ from call to call.
\<close>

definition hook_listener :: "log_env \<Rightarrow> log_site \<Rightarrow> addr \<Rightarrow> ('x val, process) on_change_cb" where
  "hook_listener E w g_logger old new P = connect_timeout_changed E w g_logger (int_val old) (int_val new) P"

definition logs_listener :: "log_env \<Rightarrow> log_site \<Rightarrow> ('x val, process) on_change_cb" where
  "logs_listener E w old new P =
     (case in_unit (site_now w) ''log.cpp'' (\<lambda>L. rbind (on_log_change E w (logs_val old) (logs_val new) L) (\<lambda>L'. Inr ((), L'))) P of
        Inl e \<Rightarrow> (Some e, P)
      | Inr (_, P') \<Rightarrow> (None, P'))"

text \<open>Using the pointer that \<^verbatim>\<open>Lookup\<close> returned.\<close>

definition with_var :: "string option \<Rightarrow> ('v, 's) Config \<Rightarrow> (string \<Rightarrow> ('v, 's) ConfigVar \<Rightarrow> 'a result) \<Rightarrow> 'a result" where
  "with_var p cfg k =
     (case p of
        None \<Rightarrow> Inl (UndefinedBehaviour ''null variable'')
      | Some name \<Rightarrow> (case LookupBase name cfg of
            None \<Rightarrow> Inl (UndefinedBehaviour ''null variable'') | Some var \<Rightarrow> k name var))"

type_synonym 'x registry = "('x val, process) Config"

text \<open>The static objects of \<^verbatim>\<open>hook.cpp\<close>: \<^verbatim>\<open>g_logger\<close>, \<^verbatim>\<open>g_tcp_connect_timeout\<close> and \<^verbatim>\<open>s_hook_initer\<close>.\<close>

definition HookIniter ::
  "libraries \<Rightarrow> log_env \<Rightarrow> log_site \<Rightarrow> addr \<Rightarrow> ('x val, process) ConfigVar \<Rightarrow> process \<Rightarrow> ('x val, process) ConfigVar \<times> process" where
  "HookIniter B E w g_logger var P =
     (let P1 = P\<lparr>p_originals := hook_init (dlsym B) (p_originals P)\<rparr>;
          P2 = P1\<lparr>s_connect_timeout := word_of_int (int_val (getValue var))\<rparr>
      in (snd (addListener (hook_listener E w g_logger) 0 var), P2))"

definition hook_statics ::
  "libraries \<Rightarrow> log_env \<Rightarrow> log_site \<Rightarrow> 'x registry \<times> process \<Rightarrow> (addr \<times> 'x registry \<times> process) result" where
  "hook_statics B E w st =
     (case st of (cfg, P) \<Rightarrow>
        rbind (in_unit (site_now w) ''hook.cpp'' (\<lambda>L. Inr (getLogger (site_now w) ''system'' L)) P) (\<lambda>(g_logger, P1).
        rbind (Lookup_default ''tcp.connect.timeout'' (IntVal 5000) ''tcp connect timeout'' ''int'' (int_from B) (int_to B) cfg)
          (\<lambda>(p, cfg1). with_var p cfg1 (\<lambda>name var.
             case HookIniter B E w g_logger var P1 of (var', P2) \<Rightarrow> Inr (g_logger, store_var name var' cfg1, P2)))))"

text \<open>The static objects of \<^verbatim>\<open>log.cpp\<close>: \<^verbatim>\<open>g_log_defines\<close> and \<^verbatim>\<open>__log_init\<close>.\<close>

definition LogIniter :: "log_env \<Rightarrow> log_site \<Rightarrow> ('x val, process) ConfigVar \<Rightarrow> ('x val, process) ConfigVar" where
  "LogIniter E w var = snd (addListener (logs_listener E w) 0 var)"

definition log_statics ::
  "yaml_cpp \<Rightarrow> log_env \<Rightarrow> log_site \<Rightarrow> 'x registry \<times> process \<Rightarrow> ('x registry \<times> process) result" where
  "log_statics Y E w st =
     (case st of (cfg, P) \<Rightarrow>
        rbind (Lookup_default ''logs'' (LogsVal []) ''logs config'' ''std::set<LogDefine>'' (logs_from Y) (logs_to Y) cfg)
          (\<lambda>(p, cfg1). with_var p cfg1 (\<lambda>name var. Inr (store_var name (LogIniter E w var) cfg1, P))))"

text \<open>The static objects of \<^verbatim>\<open>fiber.cpp\<close>: its logger and \<^verbatim>\<open>g_fiber_stack_size\<close>.\<close>

definition fiber_statics :: "libraries \<Rightarrow> log_site \<Rightarrow> 'x registry \<times> process \<Rightarrow> (addr \<times> 'x registry \<times> process) result" where
  "fiber_statics B w st =
     (case st of (cfg, P) \<Rightarrow>
        rbind (in_unit (site_now w) ''fiber.cpp'' (\<lambda>L. Inr (getLogger (site_now w) ''system'' L)) P) (\<lambda>(g_logger, P1).
        rbind (Lookup_default ''fiber.stack_size'' (UintVal (128 * 1024)) ''fiber stack size'' ''unsigned int''
                 (uint_from B) (uint_to B) cfg) (\<lambda>(p, cfg1). Inr (g_logger, cfg1, P1))))"

text \<open>
  One order of the initialisation of the files; the order between files is not specified, and the
  variables have different names.
\<close>

definition Config_empty :: "('v, 's) Config" where
  "Config_empty = \<lparr>s_datas = [], s_file2modifytime = (\<lambda>_. 0)\<rparr>"

definition program_start ::
  "yaml_cpp \<Rightarrow> libraries \<Rightarrow> log_env \<Rightarrow> log_site \<Rightarrow> (string \<Rightarrow> string) \<Rightarrow> (addr \<times> 'x registry \<times> process) result" where
  "program_start Y B E w files =
     rbind (fiber_statics B w (Config_empty, process_new files)) (\<lambda>(fiber_logger, st1).
     rbind (log_statics Y E w st1) (hook_statics B E w))"

text \<open>\<^verbatim>\<open>connect\<close> with the configured timeout.\<close>

definition hook_connect ::
  "'k kernel \<Rightarrow> 'k epoll \<Rightarrow> int \<Rightarrow> 'k syscall \<Rightarrow> ('k \<Rightarrow> int \<times> int \<times> int) \<Rightarrow> process \<Rightarrow> u64 \<Rightarrow> addr \<Rightarrow> addr \<Rightarrow> addr
   \<Rightarrow> ('u, 'k) hook_env \<Rightarrow> (outcome \<times> ('u, 'k) hook_env) result" where
  "hook_connect K E fd connect_f so_error P now p ti fiber env =
     connect_with_timeout K E fd connect_f so_error (s_connect_timeout P) now p ti fiber env"

section \<open>The logger managers\<close>

definition managers_ok :: "process \<Rightarrow> bool" where
  "managers_ok P \<longleftrightarrow> (\<forall>tu L. p_managers P tu = Some L \<longrightarrow> log_ok L \<and> m_root L \<in> dom (loggers L))"

text \<open>The loggers that code of a unit sees.\<close>

definition unit_view :: "string \<Rightarrow> process \<Rightarrow> string \<Rightarrow> logger_view option" where
  "unit_view tu P = (case p_managers P tu of None \<Rightarrow> Map.empty | Some L \<Rightarrow> logger_view L)"

lemma unit_view_timeout [simp]: "unit_view tu (P\<lparr>s_connect_timeout := t\<rparr>) = unit_view tu P"
  by (simp add: unit_view_def)

lemma unit_view_originals [simp]: "unit_view tu (P\<lparr>p_originals := f\<rparr>) = unit_view tu P"
  by (simp add: unit_view_def)

lemma in_unit_eq:
  assumes "managers_ok P"
  shows "\<exists>L. log_ok L \<and> m_root L \<in> dom (loggers L) \<and>
    (\<forall>L0. p_managers P tu = Some L0 \<longrightarrow> loggers L = loggers L0 \<and> logger_view L = logger_view L0) \<and>
    in_unit now tu f P = rbind (f L) (\<lambda>(x, L').
      Inr (x, P\<lparr>p_managers := (p_managers P)(tu \<mapsto> L'), p_cout := cout L', p_disk := disk L'\<rparr>))"
proof (cases "p_managers P tu")
  case None
  obtain L where "LoggerManager_new now (p_disk P) = Inr L" "log_ok L" "m_root L \<in> dom (loggers L)"
    using LoggerManager_new_ok by blast
  then show ?thesis using None
    by (intro exI [of _ "L\<lparr>cout := p_cout P, disk := p_disk P\<rparr>"])
      (simp add: in_unit_def Singleton_GetInstance_def static_local_def)
next
  case (Some L)
  then have "log_ok L" "m_root L \<in> dom (loggers L)" using assms by (auto simp: managers_ok_def)
  then show ?thesis using Some
    by (intro exI [of _ "L\<lparr>cout := p_cout P, disk := p_disk P\<rparr>"]) (simp add: in_unit_def)
qed

text \<open>What a run in a unit leaves, from what it does with the manager.\<close>

definition unit_step :: "string \<Rightarrow> ((string \<Rightarrow> logger_view option) \<Rightarrow> (string \<Rightarrow> logger_view option) \<Rightarrow> bool) \<Rightarrow>
    process \<Rightarrow> process \<Rightarrow> bool" where
  "unit_step tu R P P' \<longleftrightarrow> managers_ok P' \<and> s_connect_timeout P' = s_connect_timeout P \<and>
     (\<forall>u. u \<noteq> tu \<longrightarrow> p_managers P' u = p_managers P u) \<and>
     (\<forall>u L. p_managers P u = Some L \<longrightarrow> (\<exists>L'. p_managers P' u = Some L' \<and> dom (loggers L) \<subseteq> dom (loggers L'))) \<and>
     (\<exists>V. (p_managers P tu \<noteq> None \<longrightarrow> V = unit_view tu P) \<and> R V (unit_view tu P'))"

lemma unit_stepI:
  assumes "managers_ok P" "log_ok L" "m_root L \<in> dom (loggers L)"
    and "\<forall>L0. p_managers P tu = Some L0 \<longrightarrow> loggers L = loggers L0 \<and> logger_view L = logger_view L0"
    and "log_ok L'" "grows L L'" "R (logger_view L) (logger_view L')"
  shows "unit_step tu R P (P\<lparr>p_managers := (p_managers P)(tu \<mapsto> L'), p_cout := c, p_disk := d\<rparr>)"
  using assms by (auto simp: unit_step_def managers_ok_def grows_def unit_view_def split: if_splits) blast+

lemma in_unit_step:
  assumes "managers_ok P" "in_unit now tu f P = Inr (x, P')"
    and "\<And>L L'. log_ok L \<Longrightarrow> m_root L \<in> dom (loggers L) \<Longrightarrow> f L = Inr (x, L') \<Longrightarrow>
      grows L L' \<and> log_ok L' \<and> R (logger_view L) (logger_view L')"
  shows "unit_step tu R P P'"
proof -
  obtain L where L: "log_ok L" "m_root L \<in> dom (loggers L)"
    "\<forall>L0. p_managers P tu = Some L0 \<longrightarrow> loggers L = loggers L0 \<and> logger_view L = logger_view L0"
    "in_unit now tu f P = rbind (f L) (\<lambda>(x, L').
      Inr (x, P\<lparr>p_managers := (p_managers P)(tu \<mapsto> L'), p_cout := cout L', p_disk := disk L'\<rparr>))"
    using in_unit_eq [OF assms(1), of tu now f] by blast
  with assms(2) obtain L' where L': "f L = Inr (x, L')"
    "P' = P\<lparr>p_managers := (p_managers P)(tu \<mapsto> L'), p_cout := cout L', p_disk := disk L'\<rparr>"
    by (auto simp: rbind_eq_Inr)
  from assms(3) [OF L(1,2) L'(1)] unit_stepI [OF assms(1) L(1-3), of L' R] show ?thesis by (simp add: L'(2))
qed

lemma in_unit_returns:
  assumes "managers_ok P"
    and "\<And>L. log_ok L \<Longrightarrow> m_root L \<in> dom (loggers L) \<Longrightarrow>
      \<forall>L0. p_managers P tu = Some L0 \<longrightarrow> loggers L = loggers L0 \<and> logger_view L = logger_view L0 \<Longrightarrow> \<exists>x L'. f L = Inr (x, L')"
  shows "\<exists>x P'. in_unit now tu f P = Inr (x, P')"
proof -
  obtain L where "log_ok L" "m_root L \<in> dom (loggers L)"
    "\<forall>L0. p_managers P tu = Some L0 \<longrightarrow> loggers L = loggers L0 \<and> logger_view L = logger_view L0"
    "in_unit now tu f P = rbind (f L) (\<lambda>(x, L').
      Inr (x, P\<lparr>p_managers := (p_managers P)(tu \<mapsto> L'), p_cout := cout L', p_disk := disk L'\<rparr>))"
    using in_unit_eq [OF assms(1), of tu now f] by blast
  with assms(2) [of L] show ?thesis by auto
qed

section \<open>The configuration is in force\<close>

text \<open>What the value of a variable says of the process.\<close>

definition logs_in_force :: "log_env \<Rightarrow> LogDefine list \<Rightarrow> process \<Rightarrow> bool" where
  "logs_in_force E ds P \<longleftrightarrow> sorted_wrt LogDefine_less ds \<and>
     (\<forall>d\<in>set ds. unit_view ''log.cpp'' P (ld_name d) = Some (define_view E d))"

definition in_force :: "log_env \<Rightarrow> string \<Rightarrow> 'x val \<Rightarrow> process \<Rightarrow> bool" where
  "in_force E name v P \<longleftrightarrow>
     (name = ''tcp.connect.timeout'' \<longrightarrow> (\<exists>n. v = IntVal n \<and> s_connect_timeout P = word_of_int n)) \<and>
     (name = ''logs'' \<longrightarrow> (\<exists>ds. v = LogsVal ds \<and> logs_in_force E ds P))"

definition expected_cbs :: "log_env \<Rightarrow> log_site \<Rightarrow> addr \<Rightarrow> string \<Rightarrow> (u64 \<times> ('x val, process) on_change_cb) list" where
  "expected_cbs E w g name =
     (if name = ''tcp.connect.timeout'' then [(1, hook_listener E w g)]
      else if name = ''logs'' then [(1, logs_listener E w)] else [])"

definition var_ok :: "yaml_cpp \<Rightarrow> log_env \<Rightarrow> log_site \<Rightarrow> addr \<Rightarrow> string \<Rightarrow> ('x val, process) ConfigVar \<Rightarrow> process \<Rightarrow> bool" where
  "var_ok Y E w g name var P \<longleftrightarrow>
     val_type (m_val var) = var_type var \<and> (\<forall>text v. FromStr var text = Inr v \<longrightarrow> val_type v = var_type var) \<and>
     m_cbs var = expected_cbs E w g name \<and> (name = ''logs'' \<longrightarrow> FromStr var = logs_from Y) \<and> in_force E name (m_val var) P"

definition process_ok :: "addr \<Rightarrow> process \<Rightarrow> bool" where
  "process_ok g P \<longleftrightarrow> managers_ok P \<and> (\<exists>L. p_managers P ''hook.cpp'' = Some L \<and> g \<in> dom (loggers L))"

definition program_inv :: "yaml_cpp \<Rightarrow> log_env \<Rightarrow> log_site \<Rightarrow> addr \<Rightarrow> 'x registry \<times> process \<Rightarrow> bool" where
  "program_inv Y E w g st \<longleftrightarrow> (case st of (cfg, P) \<Rightarrow> registry_ok cfg \<and> process_ok g P \<and>
     (\<forall>name var. LookupBase name cfg = Some var \<longrightarrow> var_ok Y E w g name var P) \<and>
     LookupBase ''tcp.connect.timeout'' cfg \<noteq> None \<and> LookupBase ''logs'' cfg \<noteq> None)"

text \<open>Values and documents whose definitions of loggers have no null appender and patterns that can be read.\<close>

definition usable :: "'x val \<Rightarrow> bool" where
  "usable v \<longleftrightarrow> sorted_wrt LogDefine_less (logs_val v) \<and> list_all define_ok (logs_val v)"

definition usable_member :: "yaml_cpp \<Rightarrow> string \<times> Node \<Rightarrow> bool" where
  "usable_member Y m \<longleftrightarrow> (\<forall>ds. ToLower (fst m) = ''logs'' \<longrightarrow>
     string_to_set Y LogDefine_less (LogDefine_of_string Y) (node_text Y (snd m)) = Inr ds \<longrightarrow> list_all define_ok ds)"

lemma find_define: "sorted_wrt LogDefine_less ds \<Longrightarrow> d \<in> set ds \<Longrightarrow> find (\<lambda>e. ld_name e = ld_name d) ds = Some d"
proof (induction ds)
  case (Cons e ds)
  then have "LogDefine_less e d" if "d \<noteq> e" using that by auto
  with Cons show ?case by (auto simp: LogDefine_less_def)
qed simp

lemma unit_step_process: "unit_step tu R P P' \<Longrightarrow> process_ok g P \<Longrightarrow> process_ok g P'"
  by (fastforce simp: unit_step_def process_ok_def)

lemma unit_step_views: "unit_step tu R P P' \<Longrightarrow> u \<noteq> tu \<Longrightarrow> unit_view u P' = unit_view u P"
  by (simp add: unit_step_def unit_view_def)

text \<open>Logging a line changes no view; the objects of the manager may be used for the first time.\<close>

lemma log_in_unit_step:
  assumes "managers_ok P" "log_in_unit E w tu a level text P = Inr (x, P')"
  shows "unit_step tu (\<lambda>V V'. V' = V) P P'"
  using assms(2) unfolding log_in_unit_def
proof (rule in_unit_step [OF assms(1)])
  fix L L'
  assume "log_ok L" "rbind (SYLAR_LOG_LEVEL E w a level text L) (\<lambda>L'. Inr ((), L')) = Inr (x, L')"
  then show "grows L L' \<and> log_ok L' \<and> logger_view L' = logger_view L"
    using SYLAR_LOG_LEVEL_view [of L E w a level "text" L'] SYLAR_LOG_LEVEL_grows [of E w a level "text" L L']
    by (auto simp: rbind_eq_Inr)
qed

lemma hook_listener_returns:
  assumes "short_dates E" "process_ok g P"
  shows "\<exists>P'. hook_listener E w g old new P = (None, P') \<and> process_ok g P' \<and>
    s_connect_timeout P' = word_of_int (int_val new) \<and> unit_view u P' = unit_view u P"
proof -
  let ?t = "''tcp connect timeout changed from '' @ show_int (int_val old) @ '' to '' @ show_int (int_val new)"
  have P: "managers_ok P" using assms(2) by (simp add: process_ok_def)
  have "\<exists>x P'. log_in_unit E w ''hook.cpp'' g INFO ?t P = Inr (x, P')"
    unfolding log_in_unit_def
  proof (rule in_unit_returns [OF P])
    fix L
    assume L: "log_ok L" "m_root L \<in> dom (loggers L)"
      "\<forall>L0. p_managers P ''hook.cpp'' = Some L0 \<longrightarrow> loggers L = loggers L0 \<and> logger_view L = logger_view L0"
    then have "g \<in> dom (loggers L)" using assms(2) by (auto simp: process_ok_def)
    from logging_returns [OF assms(1) L(1) this] obtain L' where "SYLAR_LOG_LEVEL E w g INFO ?t L = Inr L'" by blast
    then show "\<exists>x L'. rbind (SYLAR_LOG_LEVEL E w g INFO ?t L) (\<lambda>L'. Inr ((), L')) = Inr (x, L')" by simp
  qed
  then obtain P1 where run: "log_in_unit E w ''hook.cpp'' g INFO ?t P = Inr ((), P1)" by auto
  note step = log_in_unit_step [OF P run]
  have view: "unit_view u P1 = unit_view u P"
  proof (cases "u = ''hook.cpp''")
    case True
    moreover have "p_managers P ''hook.cpp'' \<noteq> None" using assms(2) by (auto simp: process_ok_def)
    ultimately show ?thesis using step by (auto simp: unit_step_def)
  qed (rule unit_step_views [OF step])
  let ?P = "P1\<lparr>s_connect_timeout := word_of_int (int_val new)\<rparr>"
  have "process_ok g ?P" using unit_step_process [OF step assms(2)] by (simp add: process_ok_def managers_ok_def)
  then show ?thesis using run view by (intro exI [of _ ?P]) (simp add: hook_listener_def connect_timeout_changed_def)
qed

lemma logs_listener_returns:
  assumes E: "short_dates E" and P: "process_ok g P" and old: "logs_in_force E old P" "logs_val u = old"
    and new: "list_all define_ok new" "sorted_wrt LogDefine_less new" "logs_val v = new"
  shows "\<exists>P'. logs_listener E w u v P = (None, P') \<and> process_ok g P' \<and> s_connect_timeout P' = s_connect_timeout P \<and>
    logs_in_force E new P' \<and> (\<forall>tu. tu \<noteq> ''log.cpp'' \<longrightarrow> unit_view tu P' = unit_view tu P)"
proof -
  let ?f = "\<lambda>L. rbind (on_log_change E w old new L) (\<lambda>L'. Inr ((), L'))"
  have ms: "managers_ok P" using P by (simp add: process_ok_def)
  have sorted: "sorted_wrt LogDefine_less old" using old(1) by (simp add: logs_in_force_def)
  have change: "\<exists>L'. ?f L = Inr ((), L') \<and> grows L L' \<and> log_ok L' \<and> logger_view L' = changed_view E old new (logger_view L)"
    if "log_ok L" "m_root L \<in> dom (loggers L)" for L
    using log_listener_returns [OF E that new(1) sorted new(2), of w] by (auto simp: log_listener_def split: sum.splits)
  obtain x P' where run: "in_unit (site_now w) ''log.cpp'' ?f P = Inr (x, P')"
    using in_unit_returns [OF ms, of "''log.cpp''" ?f "site_now w"] change by blast
  have step: "unit_step ''log.cpp'' (\<lambda>V V'. V' = changed_view E old new V) P P'"
    by (rule in_unit_step [OF ms run]) (use change in fastforce)
  then obtain V where V: "p_managers P ''log.cpp'' \<noteq> None \<longrightarrow> V = unit_view ''log.cpp'' P"
    "unit_view ''log.cpp'' P' = changed_view E old new V" by (auto simp: unit_step_def)
  have "\<forall>d\<in>set old. V (ld_name d) = Some (define_view E d)"
    using old(1) V(1) by (auto simp: logs_in_force_def unit_view_def split: option.splits)
  then have "logs_in_force E new P'"
    using V(2) new(2) find_define [OF new(2)] by (auto simp: logs_in_force_def changed_view_def)
  moreover have "logs_listener E w u v P = (None, P')" using run old(2) new(3) by (simp add: logs_listener_def)
  ultimately show ?thesis
    using unit_step_process [OF step P] unit_step_views [OF step] step by (auto simp: unit_step_def)
qed

lemma setValue_in_force:
  fixes var :: "('x val, process) ConfigVar"
  assumes E: "short_dates E" and P: "process_ok g P" and var: "var_ok Y E w g name var P"
    and v: "val_type v = var_type var" "name = ''logs'' \<Longrightarrow> usable v"
  shows "\<exists>P'. setValue v var P = (None, var\<lparr>m_val := v\<rparr>, P') \<and> process_ok g P' \<and> var_ok Y E w g name (var\<lparr>m_val := v\<rparr>) P' \<and>
    (\<forall>name2 (v2 :: 'x val). name2 \<noteq> name \<longrightarrow> in_force E name2 v2 P \<longrightarrow> in_force E name2 v2 P') \<and>
    (\<forall>tu. tu \<noteq> ''log.cpp'' \<longrightarrow> unit_view tu P' = unit_view tu P)"
proof (cases "m_val var = v")
  case True
  then show ?thesis using P var by (auto simp: setValue_def intro!: exI [of _ P])
next
  case changed: False
  consider (timeout) "name = ''tcp.connect.timeout''" | (logs) "name = ''logs''"
    | (other) "name \<noteq> ''tcp.connect.timeout''" "name \<noteq> ''logs''" by blast
  then show ?thesis
  proof cases
    case timeout
    then have tname: "var_type var = ''int''" using var by (auto simp: var_ok_def in_force_def)
    then obtain n where n: "v = IntVal n" using v(1) by (cases v) auto
    have "\<exists>P'. hook_listener E w g (m_val var) v P = (None, P') \<and> process_ok g P' \<and>
        s_connect_timeout P' = word_of_int n \<and> (\<forall>u. unit_view u P' = unit_view u P)"
      using hook_listener_returns [OF E P, of w "m_val var" v] n by (metis Pair_inject int_val.simps(1))
    then obtain P' where P': "hook_listener E w g (m_val var) v P = (None, P')" "process_ok g P'"
      "s_connect_timeout P' = word_of_int n" "\<forall>u. unit_view u P' = unit_view u P" by blast
    have "setValue v var P = (None, var\<lparr>m_val := v\<rparr>, P')"
      using changed var timeout P'(1) by (simp add: setValue_def var_ok_def expected_cbs_def)
    moreover have "var_ok Y E w g name (var\<lparr>m_val := v\<rparr>) P'" using var tname timeout n P'(3) by (auto simp: var_ok_def in_force_def)
    ultimately show ?thesis using timeout P'(2,4) by (auto simp: in_force_def logs_in_force_def intro!: exI [of _ P'])
  next
    case logs
    then obtain old where old: "logs_in_force E old P" "m_val var = LogsVal old"
      using var by (auto simp: var_ok_def in_force_def)
    have tname: "var_type var = ''std::set<LogDefine>''" using old(2) var by (auto simp: var_ok_def)
    then obtain new where new: "v = LogsVal new" using v(1) by (cases v) auto
    have ds: "list_all define_ok new" "sorted_wrt LogDefine_less new" using v(2) [OF logs] new by (simp_all add: usable_def)
    from logs_listener_returns [OF E P old(1) _ ds, of "m_val var" v w] old(2) new obtain P' where
      P': "logs_listener E w (m_val var) v P = (None, P')" "process_ok g P'" "s_connect_timeout P' = s_connect_timeout P"
        "logs_in_force E new P'" "\<forall>tu. tu \<noteq> ''log.cpp'' \<longrightarrow> unit_view tu P' = unit_view tu P" by auto
    have "setValue v var P = (None, var\<lparr>m_val := v\<rparr>, P')"
      using changed var logs P'(1) by (simp add: setValue_def var_ok_def expected_cbs_def)
    moreover have "var_ok Y E w g name (var\<lparr>m_val := v\<rparr>) P'" using var new tname logs P'(4) by (auto simp: var_ok_def in_force_def)
    ultimately show ?thesis using logs P'(2,3,5) by (auto simp: in_force_def intro!: exI [of _ P'])
  next
    case other
    then show ?thesis
      using changed var v P by (auto simp: setValue_def var_ok_def expected_cbs_def in_force_def intro!: exI [of _ P])
  qed
qed

lemma fromString_in_force:
  fixes var :: "('x val, process) ConfigVar"
  assumes E: "short_dates E" and P: "process_ok g P" and var: "var_ok Y E w g name var P"
    and m: "name = ''logs'' \<longrightarrow> (\<forall>ds. string_to_set Y LogDefine_less (LogDefine_of_string Y) text = Inr ds \<longrightarrow> list_all define_ok ds)"
    and run: "fromString text var P = (r, var', P')"
  shows "process_ok g P' \<and> var_ok Y E w g name var' P' \<and> var' = var\<lparr>m_val := m_val var'\<rparr> \<and>
    (\<forall>v. FromStr var text = Inr v \<longrightarrow> r = Inr False \<and> m_val var' = v) \<and>
    (\<forall>name2 (v2 :: 'x val). name2 \<noteq> name \<longrightarrow> in_force E name2 v2 P \<longrightarrow> in_force E name2 v2 P') \<and>
    (\<forall>tu. tu \<noteq> ''log.cpp'' \<longrightarrow> unit_view tu P' = unit_view tu P)"
proof (cases "FromStr var text")
  case (Inl e)
  with run have "var' = var" "P' = P" by (cases e; simp add: fromString_def)+
  with P var Inl show ?thesis by simp
next
  case (Inr v)
  have v: "val_type v = var_type var" using var Inr by (simp add: var_ok_def)
  have "usable v" if logs: "name = ''logs''"
  proof -
    from Inr var logs obtain ds where "v = LogsVal ds"
      "string_to_set Y LogDefine_less (LogDefine_of_string Y) text = Inr ds"
      by (auto simp: var_ok_def logs_from_def rmap_def rbind_eq_Inr)
    with m logs string_to_set_sorted show ?thesis by (auto simp: usable_def)
  qed
  from setValue_in_force [OF E P var v this] run Inr show ?thesis by (auto simp: fromString_def)
qed

text \<open>Loading keeps the invariant, also when it ends with an exception.\<close>

lemma LookupBase_store:
  "LookupBase k (store_var name var cfg) = (if k = name then map_option (\<lambda>_. var) (LookupBase k cfg) else LookupBase k cfg)"
  by (simp add: LookupBase_def map_of_store)

lemma registry_ok_store_value:
  "registry_ok cfg \<Longrightarrow> LookupBase name cfg = Some var \<Longrightarrow> registry_ok (store_var name (var\<lparr>m_val := v\<rparr>) cfg)"
  by (rule registry_ok_store [of cfg name var "var\<lparr>m_val := v\<rparr>"]) (simp_all add: LookupBase_def)

lemma program_inv_store:
  fixes var :: "('x val, process) ConfigVar"
  assumes inv: "program_inv Y E w g (cfg, P)" and var: "LookupBase name cfg = Some var"
    and step: "process_ok g P'" "var_ok Y E w g name (var\<lparr>m_val := v\<rparr>) P'"
      "\<forall>name2 (v2 :: 'x val). name2 \<noteq> name \<longrightarrow> in_force E name2 v2 P \<longrightarrow> in_force E name2 v2 P'"
  shows "program_inv Y E w g (store_var name (var\<lparr>m_val := v\<rparr>) cfg, P')"
  using assms registry_ok_store_value [OF _ var, of v]
  by (auto simp: program_inv_def LookupBase_store var_ok_def split: if_splits)

lemma load_members_inv:
  fixes cfg :: "'x registry"
  assumes "short_dates E" "program_inv Y E w g (cfg, P)" "list_all (usable_member Y) ms" "load_members Y ms cfg P = (r, cfg', P')"
  shows "program_inv Y E w g (cfg', P')"
  using assms(2-4)
proof (induction ms arbitrary: cfg P)
  case (Cons m ms)
  obtain name node where m: "m = (name, node)" by force
  show ?case
  proof (cases "name = [] \<or> LookupBase (ToLower name) cfg = None")
    case True
    with Cons.prems(3) m have "load_members Y ms cfg P = (r, cfg', P')" by (auto split: if_splits)
    with Cons m show ?thesis by simp
  next
    case False
    then obtain var where var: "LookupBase (ToLower name) cfg = Some var" by auto
    obtain r1 var' P1 where f: "fromString (node_text Y node) var P = (r1, var', P1)" by (metis prod_cases3)
    have "process_ok g P" "var_ok Y E w g (ToLower name) var P" using Cons.prems(1) var by (auto simp: program_inv_def)
    from fromString_in_force [OF assms(1) this _ f] Cons.prems(2) m
    have step: "process_ok g P1" "var_ok Y E w g (ToLower name) var' P1" "var' = var\<lparr>m_val := m_val var'\<rparr>"
      "\<forall>name2 (v2 :: 'x val). name2 \<noteq> ToLower name \<longrightarrow> in_force E name2 v2 P \<longrightarrow> in_force E name2 v2 P1"
      by (auto simp: usable_member_def)
    have "program_inv Y E w g (store_var (ToLower name) var' cfg, P1)"
      using program_inv_store [OF Cons.prems(1) var step(1) _ step(4), of "m_val var'"] step(2,3) by simp
    with Cons False var m f show ?thesis by (cases r1) auto
  qed
qed simp

section \<open>What the program does with the configuration\<close>

text \<open>
  Documents are loaded, variables set through a pointer that \<^verbatim>\<open>Lookup<T>\<close> gave for the type of the value, and looked up with
  a default, loggers obtained, and events logged at any place. As the compiler sees to, the default of \<^verbatim>\<open>Lookup<T>\<close>
  and what its \<^verbatim>\<open>FromStr\<close> returns are values of type \<open>T\<close>.
\<close>

inductive program_step ::
  "yaml_cpp \<Rightarrow> log_env \<Rightarrow> 'x registry \<times> process \<Rightarrow> 'x registry \<times> process \<Rightarrow> bool" for Y E where
  do_load: "list_all (usable_member Y) (ListAllMember [] root) \<Longrightarrow> LoadFromYaml Y root cfg P = (r, cfg', P') \<Longrightarrow>
     program_step Y E (cfg, P) (cfg', P')"
| do_set: "LookupBase name cfg = Some var \<Longrightarrow> Lookup (val_type v) name cfg = Some name \<Longrightarrow> (name = ''logs'' \<Longrightarrow> usable v) \<Longrightarrow>
     setValue v var P = (r, var', P') \<Longrightarrow> program_step Y E (cfg, P) (store_var name var' cfg, P')"
| do_lookup: "Lookup_default name dv desc tname from to cfg = Inr (p, cfg') \<Longrightarrow> val_type dv = tname \<Longrightarrow>
     (\<And>text v. from text = Inr v \<Longrightarrow> val_type v = tname) \<Longrightarrow> program_step Y E (cfg, P) (cfg', P)"
| do_log: "log_in_unit E w tu a level text P = Inr (x, P') \<Longrightarrow> program_step Y E (cfg, P) (cfg, P')"
| do_getLogger: "in_unit now tu (\<lambda>L. Inr (getLogger now name L)) P = Inr (a, P') \<Longrightarrow> program_step Y E (cfg, P) (cfg, P')"

lemma program_inv_unit:
  assumes inv: "program_inv Y E w g (cfg, P)" and step: "unit_step tu R P P'"
    and R: "\<And>V V'. R V V' \<Longrightarrow> (\<forall>n. V n \<noteq> None \<longrightarrow> V' n = V n)"
  shows "program_inv Y E w g (cfg, P')"
proof -
  have view: "unit_view ''log.cpp'' P' n = Some l" if n: "unit_view ''log.cpp'' P n = Some l" for n l
  proof (cases "tu = ''log.cpp''")
    case True
    from step obtain V where V: "p_managers P tu \<noteq> None \<longrightarrow> V = unit_view tu P" "R V (unit_view tu P')"
      unfolding unit_step_def by blast
    moreover have "p_managers P tu \<noteq> None" using n True by (auto simp: unit_view_def split: option.splits)
    ultimately show ?thesis using R [OF V(2)] True n by (metis option.distinct(1))
  qed (use unit_step_views [OF step] n in simp)
  have "logs_in_force E ds P \<Longrightarrow> logs_in_force E ds P'" for ds
    unfolding logs_in_force_def using view by blast
  moreover have "s_connect_timeout P' = s_connect_timeout P" using step by (simp add: unit_step_def)
  ultimately have "in_force E name v P \<Longrightarrow> in_force E name v P'" for name and v :: "'a val"
    by (auto simp: in_force_def)
  with inv unit_step_process [OF step] show ?thesis by (auto simp: program_inv_def var_ok_def)
qed

lemma program_step_inv:
  assumes E: "short_dates E" and inv: "program_inv Y E w g st" and step: "program_step Y E st st'"
  shows "program_inv Y E w g st'"
  using step
proof cases
  case (do_load root cfg P r cfg' P')
  with inv load_members_inv [OF E, of Y w g cfg P] show ?thesis by (simp add: LoadFromYaml_def)
next
  case (do_set name cfg var v P r var' P')
  have type: "val_type v = var_type var" using do_set(3,4) by (auto simp: Lookup_def LookupBase_def split: if_splits)
  from do_set inv have "process_ok g P" "var_ok Y E w g name var P" by (auto simp: program_inv_def)
  from setValue_in_force [OF E this type do_set(5)] do_set(6) program_inv_store [OF _ do_set(3)] inv do_set(1,2)
  show ?thesis by auto
next
  case (do_lookup name dv desc tname "from" "to" cfg p cfg' P)
  show ?thesis
  proof (cases "map_of (s_datas cfg) name")
    case None
    with do_lookup have valid: "valid_name name" and cfg': "cfg' = cfg\<lparr>s_datas := (name, ConfigVar_new name dv desc tname from to) # s_datas cfg\<rparr>"
      by (auto simp: Lookup_default_def split: if_splits)
    have new: "name \<noteq> ''tcp.connect.timeout''" "name \<noteq> ''logs''"
      using inv None do_lookup(1) by (auto simp: program_inv_def LookupBase_def)
    have "registry_ok cfg'"
      using inv do_lookup(1) None valid
      by (auto simp: cfg' program_inv_def registry_ok_def ConfigVar_new_def ToLower_valid map_of_eq_None_iff)
    moreover have "var_ok Y E w g name (ConfigVar_new name dv desc tname from to) P"
      using new do_lookup(4,5) by (auto simp: var_ok_def ConfigVar_new_def expected_cbs_def in_force_def)
    ultimately show ?thesis
      using inv do_lookup(1,2) by (auto simp: program_inv_def LookupBase_def cfg' split: if_splits)
  next
    case (Some var)
    with do_lookup inv show ?thesis by (auto simp: Lookup_default_def)
  qed
next
  case (do_log w' tu a level t P x P' cfg)
  with inv have "managers_ok P" by (auto simp: program_inv_def process_ok_def)
  from program_inv_unit [OF _ log_in_unit_step [OF this do_log(3)]] inv do_log(1,2) show ?thesis by auto
next
  case (do_getLogger now tu name P a P' cfg)
  with inv have ok: "managers_ok P" by (auto simp: program_inv_def process_ok_def)
  have "unit_step tu (\<lambda>V V'. \<forall>n. V n \<noteq> None \<longrightarrow> V' n = V n) P P'"
  proof (rule in_unit_step [OF ok do_getLogger(3)])
    fix L L'
    assume "log_ok L" "Inr (getLogger now name L) = Inr (a, L')"
    then show "grows L L' \<and> log_ok L' \<and> (\<forall>n. logger_view L n \<noteq> None \<longrightarrow> logger_view L' n = logger_view L n)"
      using getLogger_view [of L now name a L'] getLogger_grows [of now name L a L'] getLogger_views [of L now name a L'] by auto
  qed
  from program_inv_unit [OF _ this] inv do_getLogger(1,2) show ?thesis by auto
qed

definition var_value :: "string \<Rightarrow> ('v, 's) Config \<Rightarrow> 'v option" where
  "var_value name cfg = map_option m_val (LookupBase name cfg)"

text \<open>The static objects establish the invariant.\<close>

lemma valid_names [simp]:
  "valid_name ''tcp.connect.timeout''" "valid_name ''logs''" "valid_name ''fiber.stack_size''"
  by (simp_all add: valid_name_def name_chars_def)

text \<open>The logger \<^verbatim>\<open>g_logger\<close> of a file.\<close>

lemma static_logger:
  assumes "managers_ok P"
  shows "\<exists>g P'. in_unit now tu (\<lambda>L. Inr (getLogger now name L)) P = Inr (g, P') \<and> managers_ok P' \<and> p_originals P' = p_originals P \<and>
    (\<exists>L. p_managers P' tu = Some L \<and> g \<in> dom (loggers L))"
proof -
  let ?f = "\<lambda>L. Inr (getLogger now name L) :: (addr \<times> Log) result"
  obtain L where L: "log_ok L" "in_unit now tu ?f P = rbind (?f L) (\<lambda>(x, L').
      Inr (x, P\<lparr>p_managers := (p_managers P)(tu \<mapsto> L'), p_cout := cout L', p_disk := disk L'\<rparr>))"
    using in_unit_eq [OF assms, of tu now ?f] by blast
  obtain g L' where g: "getLogger now name L = (g, L')" by fastforce
  have run: "in_unit now tu ?f P = Inr (g, P\<lparr>p_managers := (p_managers P)(tu \<mapsto> L'), p_cout := cout L', p_disk := disk L'\<rparr>)"
    using L(2) g by simp
  have "unit_step tu (\<lambda>V V'. True) P (P\<lparr>p_managers := (p_managers P)(tu \<mapsto> L'), p_cout := cout L', p_disk := disk L'\<rparr>)"
  proof (rule in_unit_step [OF assms run])
    fix L1 L2
    assume "log_ok L1" "?f L1 = Inr (g, L2)"
    then show "grows L1 L2 \<and> log_ok L2 \<and> True"
      using getLogger_view [of L1 now name g L2] getLogger_grows [of now name L1 g L2] by simp
  qed
  moreover have "g \<in> dom (loggers L')" using getLogger_view [OF L(1) g] by auto
  ultimately show ?thesis using run by (auto simp: unit_step_def)
qed

lemma program_start_ok:
  "\<exists>g cfg P. program_start Y B E w files = Inr (g, cfg :: 'x registry, P) \<and> program_inv Y E w g (cfg, P) \<and>
     (\<forall>name var. LookupBase name cfg = Some var \<longrightarrow> (name, FromStr var) \<in>
        {(''tcp.connect.timeout'', int_from B), (''logs'', logs_from Y), (''fiber.stack_size'', uint_from B)}) \<and>
     var_value ''tcp.connect.timeout'' cfg = Some (IntVal 5000) \<and>
     (\<forall>name\<in>set HOOK_FUNC. func_f (p_originals P) name = dlsym B name)"
proof -
  have "managers_ok (process_new files)" by (simp add: managers_ok_def process_new_def)
  then obtain g1 P1 where f: "in_unit (site_now w) ''fiber.cpp'' (\<lambda>L. Inr (getLogger (site_now w) ''system'' L)) (process_new files) = Inr (g1, P1)"
    "managers_ok P1" "p_originals P1 = p_originals (process_new files)" using static_logger by blast
  obtain g P2 L where h: "in_unit (site_now w) ''hook.cpp'' (\<lambda>L. Inr (getLogger (site_now w) ''system'' L)) P1 = Inr (g, P2)"
    "managers_ok P2" "p_originals P2 = p_originals P1" "p_managers P2 ''hook.cpp'' = Some L" "g \<in> dom (loggers L)"
    using static_logger [OF f(2)] by blast
  let ?stack = "ConfigVar_new ''fiber.stack_size'' (UintVal (128 * 1024)) ''fiber stack size'' ''unsigned int''
    (uint_from B) (uint_to B) :: ('x val, process) ConfigVar"
  let ?logs = "LogIniter E w (ConfigVar_new ''logs'' (LogsVal []) ''logs config'' ''std::set<LogDefine>'' (logs_from Y) (logs_to Y))
    :: ('x val, process) ConfigVar"
  let ?tcp0 = "ConfigVar_new ''tcp.connect.timeout'' (IntVal 5000) ''tcp connect timeout'' ''int'' (int_from B) (int_to B)
    :: ('x val, process) ConfigVar"
  let ?tcp = "fst (HookIniter B E w g ?tcp0 P2)"
  let ?cfg = "\<lparr>s_datas = [(''tcp.connect.timeout'', ?tcp), (''logs'', ?logs), (''fiber.stack_size'', ?stack)],
    s_file2modifytime = (\<lambda>_. 0)\<rparr> :: 'x registry"
  let ?P = "P2\<lparr>p_originals := hook_init (dlsym B) (p_originals P2), s_connect_timeout := 5000\<rparr>"
  have start: "program_start Y B E w files = Inr (g, ?cfg, ?P)"
    using f(1) h(1)
    by (simp add: program_start_def fiber_statics_def log_statics_def hook_statics_def Lookup_default_def Config_empty_def
        with_var_def LookupBase_def store_var_def HookIniter_def getValue_def Let_def ConfigVar_new_def)
  have names: "ToLower n = n" if "valid_name n" for n using that by (rule ToLower_valid)
  have vars: "var_ok Y E w g ''tcp.connect.timeout'' ?tcp ?P" "var_ok Y E w g ''logs'' ?logs ?P"
    "var_ok Y E w g ''fiber.stack_size'' ?stack ?P"
    by (auto simp: var_ok_def expected_cbs_def in_force_def logs_in_force_def HookIniter_def Let_def getValue_def LogIniter_def addListener_def
        ConfigVar_new_def int_from_def logs_from_def uint_from_def rmap_def rbind_eq_Inr)
  have "process_ok g ?P" using h by (simp add: process_ok_def managers_ok_def)
  moreover have "registry_ok ?cfg"
    by (simp add: registry_ok_def HookIniter_def Let_def getValue_def LogIniter_def addListener_def ConfigVar_new_def names)
  ultimately have "program_inv Y E w g (?cfg, ?P)" using vars by (simp add: program_inv_def LookupBase_def)
  then show ?thesis using start by (intro exI [of _ g] exI [of _ ?cfg] exI [of _ ?P])
    (auto simp: LookupBase_def var_value_def HookIniter_def Let_def getValue_def LogIniter_def addListener_def ConfigVar_new_def
        hook_init_resolves h(3) f(3) process_new_def originals_start_def)
qed

definition program_init ::
  "yaml_cpp \<Rightarrow> libraries \<Rightarrow> log_env \<Rightarrow> log_site \<Rightarrow> (string \<Rightarrow> string) \<Rightarrow> addr \<Rightarrow> 'x registry \<times> process \<Rightarrow> bool" where
  "program_init Y B E w files g st \<longleftrightarrow> short_dates E \<and> (\<exists>cfg P. program_start Y B E w files = Inr (g, cfg, P) \<and> st = (cfg, P))"

interpretation program_machine: inductive_invariant
    "program_init Y B E w files g :: 'x registry \<times> process \<Rightarrow> bool" "program_step Y E"
    "\<lambda>st. short_dates E \<and> program_inv Y E w g st" for Y B E w files g
proof unfold_locales
  fix st :: "'x registry \<times> process"
  assume "program_init Y B E w files g st"
  then obtain cfg P where st: "short_dates E" "program_start Y B E w files = Inr (g, cfg, P)" "st = (cfg, P)"
    unfolding program_init_def by blast
  obtain g' and cfg' :: "'x registry" and P' where "program_start Y B E w files = Inr (g', cfg', P')"
    "program_inv Y E w g' (cfg', P')"
    using program_start_ok [where Y = Y and B = B and E = E and w = w and files = files and 'x = 'x]
    by (elim exE conjE) (rule that)
  with st show "short_dates E \<and> program_inv Y E w g st" by simp
next
  fix st st' :: "'x registry \<times> process"
  assume "short_dates E \<and> program_inv Y E w g st" "program_step Y E st st'"
  then show "short_dates E \<and> program_inv Y E w g st'" using program_step_inv by blast
qed

text \<open>Loading goes through when conversions fail with standard exceptions only.\<close>

definition standard_conversions :: "('v, 's) Config \<Rightarrow> bool" where
  "standard_conversions cfg \<longleftrightarrow> (\<forall>name var text e. LookupBase name cfg = Some var \<longrightarrow> FromStr var text = Inl e \<longrightarrow>
     (\<exists>m. e = Exception m))"

definition can_load ::
  "yaml_cpp \<Rightarrow> log_env \<Rightarrow> log_site \<Rightarrow> addr \<Rightarrow> (string \<Rightarrow> string \<Rightarrow> logger_view option) \<Rightarrow> 'x registry \<Rightarrow> process \<Rightarrow> bool" where
  "can_load Y E w g V cfg P \<longleftrightarrow> short_dates E \<and> program_inv Y E w g (cfg, P) \<and> standard_conversions cfg \<and>
     (\<forall>tu. tu \<noteq> ''log.cpp'' \<longrightarrow> unit_view tu P = V tu)"

lemma can_load_step:
  fixes cfg :: "'x registry"
  assumes I: "can_load Y E w g V cfg P" and m: "usable_member Y (name, node)" "ToLower name = name"
    and var: "LookupBase name cfg = Some var" and v: "v = load_value (FromStr var) (m_val var) (node_text Y node)"
  shows "\<exists>P'. fromString (node_text Y node) var P = (Inr False, var\<lparr>m_val := v\<rparr>, P') \<and>
    can_load Y E w g V (store_var name (var\<lparr>m_val := v\<rparr>) cfg) P'"
proof -
  let ?t = "node_text Y node"
  have E: "short_dates E" and inv: "program_inv Y E w g (cfg, P)" and std: "standard_conversions cfg"
    using I by (simp_all add: can_load_def)
  have ok: "process_ok g P" "var_ok Y E w g name var P" using inv var by (auto simp: program_inv_def)
  obtain r var' P' where f: "fromString ?t var P = (r, var', P')" by (metis prod_cases3)
  have "name = ''logs'' \<longrightarrow> (\<forall>ds. string_to_set Y LogDefine_less (LogDefine_of_string Y) ?t = Inr ds \<longrightarrow> list_all define_ok ds)"
    using m by (auto simp: usable_member_def)
  note step = fromString_in_force [OF E ok this f]
  have "r = Inr False \<and> m_val var' = v"
  proof (cases "FromStr var ?t")
    case (Inl e)
    with std var obtain x where "e = Exception x" unfolding standard_conversions_def by blast
    with Inl f v show ?thesis by (auto simp: fromString_def load_value_def)
  next
    case (Inr u)
    with step v show ?thesis by (simp add: load_value_def)
  qed
  then have res: "r = Inr False" "var' = var\<lparr>m_val := v\<rparr>" using step by auto
  have "program_inv Y E w g (store_var name (var\<lparr>m_val := v\<rparr>) cfg, P')"
    using program_inv_store [OF inv var _ _ , of P' v] step res by auto
  moreover have "standard_conversions (store_var name (var\<lparr>m_val := v\<rparr>) cfg)"
    using std var by (auto simp: standard_conversions_def LookupBase_store split: if_splits)
  ultimately show ?thesis using f res E I step by (simp add: can_load_def)
qed

interpretation program_loading: loading Y "can_load Y E w g V" "usable_member Y" for Y E w g V
  by unfold_locales (rule can_load_step)

section \<open>Setting a variable from several threads\<close>

text \<open>
  \<^verbatim>\<open>setValue\<close> in its two locked sections: the comparison and the listeners under the read lock, the store
  under the write lock. Between them other threads run; \<open>set_phase i\<close> is the next section of thread \<open>i\<close>.
\<close>

datatype 'v setValue_pc = Calling 'v | Notified 'v | SetDone | Thrown fault

definition set_phase ::
  "nat \<Rightarrow> ('v, 's) ConfigVar \<times> 's \<times> (nat \<Rightarrow> 'v setValue_pc) \<Rightarrow> ('v, 's) ConfigVar \<times> 's \<times> (nat \<Rightarrow> 'v setValue_pc)" where
  "set_phase i st =
     (case st of (var, s, pc) \<Rightarrow>
        (case pc i of
           Calling v \<Rightarrow>
             if m_val var = v then (var, s, pc(i := SetDone))
             else
               (case run_cbs (m_cbs var) (m_val var) v s of
                  (Some e, s') \<Rightarrow> (var, s', pc(i := Thrown e))
                | (None, s') \<Rightarrow> (var, s', pc(i := Notified v)))
         | Notified v \<Rightarrow> (var\<lparr>m_val := v\<rparr>, s, pc(i := SetDone))
         | SetDone \<Rightarrow> st
         | Thrown e \<Rightarrow> st))"

definition set_run ::
  "nat list \<Rightarrow> ('v, 's) ConfigVar \<times> 's \<times> (nat \<Rightarrow> 'v setValue_pc) \<Rightarrow> ('v, 's) ConfigVar \<times> 's \<times> (nat \<Rightarrow> 'v setValue_pc)" where
  "set_run order st = fold set_phase order st"

text \<open>A thread that is not interrupted runs \<open>setValue\<close>.\<close>

lemma set_run_alone:
  assumes "pc i = Calling v"
  shows "set_run [i, i] (var, s, pc) = (case setValue v var s of
    (None, var', s') \<Rightarrow> (var', s', pc(i := SetDone)) | (Some e, var', s') \<Rightarrow> (var', s', pc(i := Thrown e)))"
  using assms by (cases "run_cbs (m_cbs var) (m_val var) v s"; cases "fst (run_cbs (m_cbs var) (m_val var) v s)")
    (auto simp: set_run_def set_phase_def setValue_def)

section \<open>Properties\<close>

lemma values_in_force:
  assumes "program_inv Y E w g (cfg, P)"
  shows "\<exists>n ds. var_value ''tcp.connect.timeout'' cfg = Some (IntVal n) \<and> s_connect_timeout P = word_of_int n \<and>
    var_value ''logs'' cfg = Some (LogsVal ds) \<and> (\<forall>d\<in>set ds. unit_view ''log.cpp'' P (ld_name d) = Some (define_view E d))"
proof -
  from assms obtain tcp logs where v: "LookupBase ''tcp.connect.timeout'' cfg = Some tcp" "LookupBase ''logs'' cfg = Some logs"
    "var_ok Y E w g ''tcp.connect.timeout'' tcp P" "var_ok Y E w g ''logs'' logs P"
    by (auto simp: program_inv_def)
  from v(3,4) obtain n ds where "m_val tcp = IntVal n" "s_connect_timeout P = word_of_int n" "m_val logs = LogsVal ds"
    "logs_in_force E ds P" by (auto simp: var_ok_def in_force_def)
  with v(1,2) show ?thesis by (auto simp: var_value_def logs_in_force_def)
qed

text \<open>
  C11. The configuration is in force. After the start of the program and any sequence of loaded documents,
  values set, variables looked up, loggers obtained and events logged, \<^verbatim>\<open>connect\<close> uses the value of
  \<^verbatim>\<open>tcp.connect.timeout\<close> converted to \<^verbatim>\<open>uint64_t\<close>, and in the logger manager of \<^verbatim>\<open>log.cpp\<close> every logger that
  \<^verbatim>\<open>logs\<close> defines has the level and the appenders of its definition. (Dates fit the buffer of \<^verbatim>\<open>strftime\<close>, and definitions of loggers are usable.)
\<close>

theorem configuration_in_force:
  fixes cfg :: "'x registry"
  assumes "reach (program_init Y B E w files g) (program_step Y E) (cfg, P)"
  shows "\<exists>n ds. var_value ''tcp.connect.timeout'' cfg = Some (IntVal n) \<and>
    hook_connect K EP fd connect_f so_error P now p ti fiber env =
      connect_with_timeout K EP fd connect_f so_error (word_of_int n) now p ti fiber env \<and>
    var_value ''logs'' cfg = Some (LogsVal ds) \<and> (\<forall>d\<in>set ds. unit_view ''log.cpp'' P (ld_name d) = Some (define_view E d))"
proof -
  have "program_inv Y E w g (cfg, P)" using program_machine.reach_inv [OF assms] by simp
  from values_in_force [OF this] show ?thesis by (auto simp: hook_connect_def)
qed

text \<open>A program whose documents cannot be read as definitions of loggers, and the reading of \<^verbatim>\<open>300\<close>.\<close>

definition plain_yaml :: yaml_cpp where
  "plain_yaml = flow_yaml\<lparr>yaml_Load := (\<lambda>_. Inl (Exception ''bad file''))\<rparr>"

definition small_libs :: libraries where
  "small_libs = \<lparr>lexical_int = (\<lambda>t. if t = ''300'' then Inr 300 else Inl (Exception ''bad_lexical_cast'')),
     lexical_uint = (\<lambda>t. Inl (Exception ''bad_lexical_cast'')), int_text = show_int, uint_text = (\<lambda>_. []), dlsym = (\<lambda>_. 1)\<rparr>"

definition timeout_document :: Node where
  "timeout_document = Map [(''tcp'', Map [(''connect'', Map [(''timeout'', Scalar ''300'')])])]"

definition standard_logs :: "yaml_cpp \<Rightarrow> bool" where
  "standard_logs Y \<longleftrightarrow> (\<forall>t e. string_to_set Y LogDefine_less (LogDefine_of_string Y) t = Inl e \<longrightarrow> (\<exists>m. e = Exception m))"

lemma sample_start:
  assumes "standard_logs Y"
  shows "\<exists>g cfg P. program_start Y small_libs good_env test_site (\<lambda>_. []) = Inr (g, cfg :: unit registry, P) \<and>
     program_init Y small_libs good_env test_site (\<lambda>_. []) g (cfg, P) \<and> standard_conversions cfg \<and>
     (\<exists>var. LookupBase ''tcp.connect.timeout'' cfg = Some var \<and> m_val var = IntVal 5000 \<and> FromStr var = int_from small_libs)"
proof -
  obtain g and cfg :: "unit registry" and P where s: "program_start Y small_libs good_env test_site (\<lambda>_. []) = Inr (g, cfg, P)"
    "\<forall>name var. LookupBase name cfg = Some var \<longrightarrow> (name, FromStr var) \<in> {(''tcp.connect.timeout'', int_from small_libs),
       (''logs'', logs_from Y), (''fiber.stack_size'', uint_from small_libs)}"
    "var_value ''tcp.connect.timeout'' cfg = Some (IntVal 5000)"
    using program_start_ok [where Y = Y and B = small_libs and E = good_env and w = test_site
        and files = "\<lambda>_. []" and 'x = unit] by (elim exE conjE) (rule that)
  have "short_dates good_env" by (simp add: short_dates_def good_env_def)
  moreover have "standard_conversions cfg"
    unfolding standard_conversions_def
  proof (intro allI impI)
    fix name var t e
    assume var: "LookupBase name cfg = Some var" "FromStr var t = Inl e"
    then have "FromStr var \<in> {int_from small_libs, logs_from Y, uint_from small_libs}" using s(2) by blast
    then show "\<exists>m. e = Exception m"
      using var(2) assms [unfolded standard_logs_def, rule_format, of t e]
      by (auto simp: int_from_def logs_from_def uint_from_def rmap_def small_libs_def rbind_def split: if_splits sum.splits)
  qed
  moreover from s(3) obtain var where "LookupBase ''tcp.connect.timeout'' cfg = Some var" "m_val var = IntVal 5000"
    by (auto simp: var_value_def)
  ultimately show ?thesis using s(1,2) by (auto simp: program_init_def)
qed

lemma plain_yaml_standard: "standard_logs plain_yaml"
  by (auto simp: standard_logs_def string_to_set_def plain_yaml_def)

lemma logs_yaml_standard: "standard_logs logs_yaml"
  unfolding standard_logs_def
proof (intro allI impI)
  fix t e
  assume "string_to_set logs_yaml LogDefine_less (LogDefine_of_string logs_yaml) t = Inl e"
  then show "\<exists>m. e = Exception m"
    using logs_yaml_reads by (cases "t = ''logs''")
      (auto simp: string_to_set_def logs_yaml_def flow_yaml_def LogDefine_node_def system_define_def upt_conv_Cons)
qed

lemmas small_start = sample_start [OF plain_yaml_standard]

theorem configuration_in_force_witness:
  "\<exists>g cfg P n. program_start plain_yaml small_libs good_env test_site (\<lambda>_. []) = Inr (g, cfg :: unit registry, P) \<and>
     var_value ''tcp.connect.timeout'' cfg = Some (IntVal n) \<and>
     hook_connect sock_kernel map_epoll 7 (\<lambda>k. (0, 0, k)) (\<lambda>k. (0, 0, 0)) P 0 1 2 8 sock_env =
       connect_with_timeout sock_kernel map_epoll 7 (\<lambda>k. (0, 0, k)) (\<lambda>k. (0, 0, 0)) (word_of_int n) 0 1 2 8 sock_env"
proof -
  obtain g and cfg :: "unit registry" and P where s: "program_start plain_yaml small_libs good_env test_site (\<lambda>_. []) = Inr (g, cfg, P)"
    "program_init plain_yaml small_libs good_env test_site (\<lambda>_. []) g (cfg, P)" using small_start by blast
  from configuration_in_force [OF reach_init [of "program_init plain_yaml small_libs good_env test_site (\<lambda>_. []) g", OF s(2)],
      where K = sock_kernel and EP = map_epoll and fd = 7 and connect_f = "\<lambda>k. (0, 0, k)" and so_error = "\<lambda>k. (0, 0, 0)"
      and now = 0 and p = 1 and ti = 2 and fiber = 8 and env = sock_env] s(1)
  show ?thesis by blast
qed

lemma setValue_frame: "setValue v var P = (r, var', P') \<Longrightarrow> \<exists>u. var' = var\<lparr>m_val := u\<rparr>"
  by (auto simp: setValue_def same_value split: if_splits prod.splits option.splits)

lemma program_step_keeps: "program_step Y E st st' \<Longrightarrow> keeps_variables (fst st) (fst st')"
proof (induction rule: program_step.induct)
  case (do_load root cfg P r cfg' P')
  then show ?case using load_members_keeps [of cfg Y "ListAllMember [] root" P] by (simp add: LoadFromYaml_def)
next
  case (do_set name cfg var v P r var' P')
  then show ?case using store_keeps_variables setValue_frame by fastforce
next
  case (do_lookup name dv desc tname "from" "to" cfg p cfg' P)
  then show ?case
    by (auto simp: Lookup_default_def keeps_variables_def LookupBase_def same_value split: option.splits if_splits)
qed simp_all

text \<open>
  C12. Every variable keeps the type it was declared with. Once a name is in the registry, whatever the program does next, the
  same variable is found under it, with its name, its conversions and its listeners, and only its value changes; that
  value is of the type the variable was declared with. \<^verbatim>\<open>Lookup\<close> for this type gives the variable, for any other
  type the null pointer, and \<^verbatim>\<open>Lookup\<close> with a default gives the same and changes nothing. (Of what the program does:
  values are set through typed pointers, and the loggers that documents and values define are usable.)
\<close>

theorem variables_keep_types:
  fixes cfg :: "'x registry"
  assumes "reach (program_init Y B E w files g) (program_step Y E) (cfg, P)" "(program_step Y E)\<^sup>*\<^sup>* (cfg, P) (cfg', P')"
    and "LookupBase name cfg = Some var"
  shows "registry_ok cfg' \<and> (\<exists>v. LookupBase name cfg' = Some (var\<lparr>m_val := v\<rparr>) \<and> val_type v = var_type var) \<and>
    (\<forall>tname. Lookup tname name cfg' = (if tname = var_type var then Some name else None) \<and>
       (\<forall>dv desc from to. Lookup_default name dv desc tname from to cfg' = Inr (Lookup tname name cfg', cfg')))"
proof -
  have "keeps_variables (fst (cfg, P)) (fst (cfg', P'))"
    using assms(2) by (induction rule: rtranclp_induct) (auto intro: keeps_variables_trans program_step_keeps)
  then obtain v where v: "LookupBase name cfg' = Some (var\<lparr>m_val := v\<rparr>)"
    using assms(3) by (auto simp: keeps_variables_def)
  have "reach (program_init Y B E w files g) (program_step Y E) (cfg', P')"
    using assms(2,1) by (induction rule: rtranclp_induct) (auto intro: reach_step)
  then have "program_inv Y E w g (cfg', P')" using program_machine.reach_inv by blast
  then have "registry_ok cfg'" "var_ok Y E w g name (var\<lparr>m_val := v\<rparr>) P'" using v by (auto simp: program_inv_def)
  then have "registry_ok cfg'" "val_type v = var_type var" by (simp_all add: var_ok_def)
  with v show ?thesis by (auto simp: Lookup_def Lookup_default_def LookupBase_def)
qed

text \<open>The timeout of \<^verbatim>\<open>connect\<close> after a document that sets it was loaded.\<close>

theorem variables_keep_types_witness:
  "\<exists>g cfg P cfg' P' v. program_start plain_yaml small_libs good_env test_site (\<lambda>_. []) = Inr (g, cfg :: unit registry, P) \<and>
     fst (snd (LoadFromYaml plain_yaml timeout_document cfg P)) = cfg' \<and> var_value ''tcp.connect.timeout'' cfg' = Some v \<and>
     val_type v = ''int'' \<and> Lookup ''int'' ''tcp.connect.timeout'' cfg' = Some ''tcp.connect.timeout'' \<and>
     Lookup ''unsigned int'' ''tcp.connect.timeout'' cfg' = None"
proof -
  obtain g and cfg :: "unit registry" and P and var where
    s: "program_start plain_yaml small_libs good_env test_site (\<lambda>_. []) = Inr (g, cfg, P)"
    "program_init plain_yaml small_libs good_env test_site (\<lambda>_. []) g (cfg, P)"
    "LookupBase ''tcp.connect.timeout'' cfg = Some var" "m_val var = IntVal 5000" using small_start by blast
  note r = reach_init [of "program_init plain_yaml small_libs good_env test_site (\<lambda>_. []) g", OF s(2)]
  obtain x cfg' P' where l: "LoadFromYaml plain_yaml timeout_document cfg P = (x, cfg', P')" by (metis prod_cases3)
  have "list_all (usable_member plain_yaml) (ListAllMember [] timeout_document)"
    by (simp add: list_all_iff usable_member_def string_to_set_def plain_yaml_def)
  then have step: "(program_step plain_yaml good_env)\<^sup>*\<^sup>* (cfg, P) (cfg', P')" by (intro r_into_rtranclp do_load [OF _ l])
  have "program_inv plain_yaml good_env test_site g (cfg, P)" using program_machine.reach_inv [OF r] by blast
  then have "var_type var = ''int''" using s(3,4) by (force simp: program_inv_def var_ok_def)
  with variables_keep_types [OF r step s(3)] s(1) l show ?thesis by (auto simp: var_value_def)
qed

lemma load_document:
  fixes cfg :: "'x registry"
  assumes "reach (program_init Y B E w files g) (program_step Y E) (cfg, P)" "standard_conversions cfg"
    and "list_all (usable_member Y) (ListAllMember [] root)"
  shows "\<exists>cfg' P'. LoadFromYaml Y root cfg P = (None, cfg', P') \<and> can_load Y E w g (\<lambda>tu. unit_view tu P) cfg' P' \<and>
    (\<forall>name. map_of (s_datas cfg') name = map_option (\<lambda>var. var\<lparr>m_val :=
       foldl (load_value (FromStr var)) (m_val var) (texts Y (ListAllMember [] root) name)\<rparr>) (map_of (s_datas cfg) name))"
proof -
  have "can_load Y E w g (\<lambda>tu. unit_view tu P) cfg P"
    using program_machine.reach_inv [OF assms(1)] assms(2) by (simp add: can_load_def)
  moreover have "list_all (\<lambda>m. valid_name (fst m)) (ListAllMember [] root)"
    using ListAllMember_valid [of _ root] by (simp add: list_all_iff)
  ultimately show ?thesis
    using program_loading.members_values [OF _ assms(3)] unfolding LoadFromYaml_def by blast
qed

text \<open>
  C10. Loading a document into the running program: it returns, every variable has the value of the last text
  under its name that converts, or its old value, and the new values are in force when it returns, for the
  loggers of \<^verbatim>\<open>log.cpp\<close>. The conditions: conversions fail with standard exceptions only, dates fit the buffer of
  \<^verbatim>\<open>strftime\<close>, and the loggers that the document defines are usable, that is no appender is null and the parser
  of \<^verbatim>\<open>LogFormatter\<close> stays in range on every pattern (a pattern like \<^verbatim>\<open>%d\<close> is read out of range, see \<open>pattern_errors\<close>).
\<close>

theorem document_applies:
  fixes cfg :: "'x registry"
  assumes "reach (program_init Y B E w files g) (program_step Y E) (cfg, P)" "standard_conversions cfg"
    and "list_all (usable_member Y) (ListAllMember [] root)"
  shows "\<exists>cfg' P' n ds. LoadFromYaml Y root cfg P = (None, cfg', P') \<and>
    (\<forall>name. var_value name cfg' = map_option (\<lambda>var.
       foldl (load_value (FromStr var)) (m_val var) (texts Y (ListAllMember [] root) name)) (LookupBase name cfg)) \<and>
    var_value ''tcp.connect.timeout'' cfg' = Some (IntVal n) \<and> s_connect_timeout P' = word_of_int n \<and>
    var_value ''logs'' cfg' = Some (LogsVal ds) \<and> (\<forall>d\<in>set ds. unit_view ''log.cpp'' P' (ld_name d) = Some (define_view E d))"
proof -
  obtain cfg' P' where l: "LoadFromYaml Y root cfg P = (None, cfg', P')" "can_load Y E w g (\<lambda>tu. unit_view tu P) cfg' P'"
    "\<forall>name. map_of (s_datas cfg') name = map_option (\<lambda>var. var\<lparr>m_val :=
       foldl (load_value (FromStr var)) (m_val var) (texts Y (ListAllMember [] root) name)\<rparr>) (map_of (s_datas cfg) name)"
    using load_document [OF assms] by blast
  have "var_value name cfg' = map_option (\<lambda>var.
       foldl (load_value (FromStr var)) (m_val var) (texts Y (ListAllMember [] root) name)) (LookupBase name cfg)" for name
    using l(3) by (simp add: var_value_def LookupBase_def option.map_comp comp_def)
  moreover have "program_inv Y E w g (cfg', P')" using l(2) by (simp add: can_load_def)
  from values_in_force [OF this] obtain n ds where "var_value ''tcp.connect.timeout'' cfg' = Some (IntVal n)"
    "s_connect_timeout P' = word_of_int n" "var_value ''logs'' cfg' = Some (LogsVal ds)"
    "\<forall>d\<in>set ds. unit_view ''log.cpp'' P' (ld_name d) = Some (define_view E d)" by blast
  ultimately show ?thesis using l(1) by (intro exI [of _ cfg'] exI [of _ P'] exI [of _ n] exI [of _ ds]) simp
qed

theorem document_applies_witness:
  "\<exists>g cfg P cfg' P'. program_start plain_yaml small_libs good_env test_site (\<lambda>_. []) = Inr (g, cfg :: unit registry, P) \<and>
     LoadFromYaml plain_yaml timeout_document cfg P = (None, cfg', P') \<and>
     var_value ''tcp.connect.timeout'' cfg' = Some (IntVal 300) \<and> s_connect_timeout P' = 300"
proof -
  obtain g and cfg :: "unit registry" and P and var where
    s: "program_start plain_yaml small_libs good_env test_site (\<lambda>_. []) = Inr (g, cfg, P)"
    "program_init plain_yaml small_libs good_env test_site (\<lambda>_. []) g (cfg, P)" "standard_conversions cfg"
    "LookupBase ''tcp.connect.timeout'' cfg = Some var" "FromStr var = int_from small_libs" using small_start by blast
  note r = reach_init [of "program_init plain_yaml small_libs good_env test_site (\<lambda>_. []) g", OF s(2)]
  let ?ms = "ListAllMember [] timeout_document"
  have "list_all (usable_member plain_yaml) ?ms"
    by (simp add: list_all_iff usable_member_def string_to_set_def plain_yaml_def)
  from document_applies [OF r s(3) this] obtain cfg' P' n where
    l: "LoadFromYaml plain_yaml timeout_document cfg P = (None, cfg', P')"
    "var_value ''tcp.connect.timeout'' cfg' = Some (foldl (load_value (FromStr var)) (m_val var) (texts plain_yaml ?ms ''tcp.connect.timeout''))"
    "var_value ''tcp.connect.timeout'' cfg' = Some (IntVal n)" "s_connect_timeout P' = word_of_int n"
    using s(4) by fastforce
  have "texts plain_yaml ?ms ''tcp.connect.timeout'' = [''300'']"
    by (simp add: timeout_document_def ListAllMember.simps valid_name_def name_chars_def child_name_def texts_def)
  with l(2,3) s(5) have "n = 300"
    by (auto simp: load_value_def int_from_def rmap_def small_libs_def)
  with s(1) l show ?thesis by auto
qed

text \<open>
  C32. The configuration of loggers reaches no file but \<^verbatim>\<open>log.cpp\<close>. \<^verbatim>\<open>Singleton\<close> stands in an unnamed namespace, so
  every source file has its own logger manager. Whatever usable definitions of loggers (no null appender, patterns that are
  read in range) a document sets \<^verbatim>\<open>logs\<close> to, every logger that another file obtained from \<^verbatim>\<open>LoggerMgr\<close>, such as
  \<^verbatim>\<open>system\<close> in \<^verbatim>\<open>hook.cpp\<close>, keeps its level and appenders. As before, conversions fail with standard exceptions only.
\<close>

theorem configuration_misses_other_files:
  fixes cfg :: "'x registry"
  assumes "reach (program_init Y B E w files g) (program_step Y E) (cfg, P)" "standard_conversions cfg"
    and "list_all (usable_member Y) (ListAllMember [] root)" "tu \<noteq> ''log.cpp''"
  shows "\<exists>cfg' P' ds. LoadFromYaml Y root cfg P = (None, cfg', P') \<and>
    var_value ''logs'' cfg' = Some (LogsVal ds) \<and> (\<forall>d\<in>set ds. unit_view ''log.cpp'' P' (ld_name d) = Some (define_view E d)) \<and>
    unit_view tu P' = unit_view tu P"
proof -
  obtain cfg' P' where "LoadFromYaml Y root cfg P = (None, cfg', P')" "can_load Y E w g (\<lambda>tu. unit_view tu P) cfg' P'"
    using load_document [OF assms(1-3)] by blast
  with values_in_force [of Y E w g cfg' P'] assms(4) show ?thesis unfolding can_load_def by blast
qed

text \<open>A document that sets the level of \<^verbatim>\<open>system\<close>: it is in force for \<^verbatim>\<open>log.cpp\<close> only.\<close>

definition logs_document :: Node where
  "logs_document = Map [(''logs'', Sequence [LogDefine_node system_define])]"

theorem configuration_misses_other_files_witness:
  "\<exists>g cfg P cfg' P' ds. program_start logs_yaml small_libs good_env test_site (\<lambda>_. []) = Inr (g, cfg :: unit registry, P) \<and>
     LoadFromYaml logs_yaml logs_document cfg P = (None, cfg', P') \<and> var_value ''logs'' cfg' = Some (LogsVal ds) \<and>
     (\<forall>d\<in>set ds. unit_view ''log.cpp'' P' (ld_name d) = Some (define_view good_env d)) \<and>
     unit_view ''hook.cpp'' P' = unit_view ''hook.cpp'' P"
proof -
  obtain g and cfg :: "unit registry" and P where s: "program_start logs_yaml small_libs good_env test_site (\<lambda>_. []) = Inr (g, cfg, P)"
    "program_init logs_yaml small_libs good_env test_site (\<lambda>_. []) g (cfg, P)" "standard_conversions cfg"
    using sample_start [OF logs_yaml_standard] by blast
  let ?node = "Sequence [LogDefine_node system_define]"
  have "ListAllMember [] logs_document = [([], logs_document), (''logs'', ?node)]"
    by (simp add: logs_document_def ListAllMember.simps valid_name_def name_chars_def child_name_def)
  moreover have "node_text logs_yaml ?node = ''logs''" by (simp add: logs_yaml_def)
  then have "usable_member logs_yaml (''logs'', ?node)"
    using logs_yaml_reads system_define_ok by (simp add: usable_member_def)
  moreover have "usable_member logs_yaml ([], logs_document)" by (simp add: usable_member_def ToLower_def)
  ultimately have "list_all (usable_member logs_yaml) (ListAllMember [] logs_document)" by simp
  from configuration_misses_other_files [OF reach_init [of "program_init logs_yaml small_libs good_env test_site (\<lambda>_. []) g", OF s(2)]
      s(3) this, of "''hook.cpp''"] obtain cfg' P' ds where
    "LoadFromYaml logs_yaml logs_document cfg P = (None, cfg', P')" "var_value ''logs'' cfg' = Some (LogsVal ds)"
    "\<forall>d\<in>set ds. unit_view ''log.cpp'' P' (ld_name d) = Some (define_view good_env d)"
    "unit_view ''hook.cpp'' P' = unit_view ''hook.cpp'' P" by auto
  with s(1) show ?thesis by blast
qed

text \<open>
  C33. Two threads that set \<^verbatim>\<open>tcp.connect.timeout\<close> to different new values at the same time can leave the variable with one
  value and \<^verbatim>\<open>connect\<close> with the other, because \<^verbatim>\<open>setValue\<close> gives up its lock between the listeners and the
  store; setting the variable to the value it shows does not repair it. Each call alone sets both.
\<close>

theorem concurrent_setValue_diverges:
  fixes cfg :: "'x registry"
  assumes "reach (program_init Y B E w files g) (program_step Y E) (cfg, P)"
    and "LookupBase ''tcp.connect.timeout'' cfg = Some var" "m_val var \<noteq> IntVal a" "m_val var \<noteq> IntVal b"
    and pc: "pc 0 = Calling (IntVal a)" "pc 1 = Calling (IntVal b)"
  shows "\<exists>order P'. set_run order (var, P, pc) = (var\<lparr>m_val := IntVal a\<rparr>, P', pc(0 := SetDone, 1 := SetDone)) \<and>
      s_connect_timeout P' = word_of_int b \<and>
      setValue (IntVal a) (var\<lparr>m_val := IntVal a\<rparr>) P' = (None, var\<lparr>m_val := IntVal a\<rparr>, P')"
    (is "\<exists>order P'. ?diverge order P'")
proof -
  have E: "short_dates E" and inv: "program_inv Y E w g (cfg, P)" using program_machine.reach_inv [OF assms(1)] by simp_all
  then have P: "process_ok g P" and cbs: "m_cbs var = [(1, hook_listener E w g)]"
    using assms(2) by (auto simp: program_inv_def var_ok_def expected_cbs_def)
  from hook_listener_returns [OF E P, of w "m_val var" "IntVal a"] obtain P1 where
    1: "hook_listener E w g (m_val var) (IntVal a) P = (None, P1)" "process_ok g P1" by blast
  from hook_listener_returns [OF E 1(2), of w "m_val var" "IntVal b"] obtain P2 where
    2: "hook_listener E w g (m_val var) (IntVal b) P1 = (None, P2)" "s_connect_timeout P2 = word_of_int b" by auto
  have "?diverge [0, 1, 1, 0] P2"
    using assms(3,4) pc cbs 1(1) 2 by (simp add: set_run_def set_phase_def setValue_def fun_upd_twist)
  then show ?thesis by blast
qed

theorem concurrent_setValue_diverges_witness:
  "\<exists>g cfg P var order P'. program_start plain_yaml small_libs good_env test_site (\<lambda>_. []) = Inr (g, cfg :: unit registry, P) \<and>
     LookupBase ''tcp.connect.timeout'' cfg = Some var \<and>
     set_run order (var, P, \<lambda>i. Calling (IntVal (if i = 0 then 1 else 2))) =
       (var\<lparr>m_val := IntVal 1\<rparr>, P', (\<lambda>i. Calling (IntVal (if i = 0 then 1 else 2)))(0 := SetDone, 1 := SetDone)) \<and>
     s_connect_timeout P' = 2"
proof -
  obtain g and cfg :: "unit registry" and P and var where
    s: "program_start plain_yaml small_libs good_env test_site (\<lambda>_. []) = Inr (g, cfg, P)"
    "program_init plain_yaml small_libs good_env test_site (\<lambda>_. []) g (cfg, P)"
    "LookupBase ''tcp.connect.timeout'' cfg = Some var" "m_val var = IntVal 5000" using small_start by blast
  note r = reach_init [of "program_init plain_yaml small_libs good_env test_site (\<lambda>_. []) g", OF s(2)]
  from concurrent_setValue_diverges [OF r s(3), of 1 2 "\<lambda>i. Calling (IntVal (if i = 0 then 1 else 2))"] s(4)
  obtain order P' where "set_run order (var, P, \<lambda>i. Calling (IntVal (if i = 0 then 1 else 2))) =
      (var\<lparr>m_val := IntVal 1\<rparr>, P', (\<lambda>i. Calling (IntVal (if i = 0 then 1 else 2)))(0 := SetDone, 1 := SetDone))"
    "s_connect_timeout P' = 2" by auto
  with s(1,3) show ?thesis
    by (intro exI [of _ g] exI [of _ cfg] exI [of _ P] exI [of _ var] exI [of _ order] exI [of _ P']) simp
qed

end
