(* ===== verification/Diagnostics.thy ===== *)
theory Diagnostics
  imports IOManager Log_Total
begin

text \<open>
  What the other files build on the log: the macros of \<^verbatim>\<open>log.h\<close> and the assertions of \<^verbatim>\<open>macro.h\<close>, shown to
  act as \<open>sylar_assert\<close> does in all models, and the text of epoll operations and events in the log lines of
  \<^verbatim>\<open>iomanager.cpp\<close>.
\<close>

unbundle bit_operations_syntax

section \<open>Log statements\<close>

text \<open>The temporary \<^verbatim>\<open>LogEventWrap\<close> keeps the logger and the event, and logs when it is destroyed.\<close>

record LogEventWrap =
  w_logger :: addr
  w_event :: LogEvent

definition LogEventWrap_new :: "addr \<Rightarrow> LogEvent \<Rightarrow> LogEventWrap" where
  "LogEventWrap_new logger event = \<lparr>w_logger = logger, w_event = event\<rparr>"

definition LogEventWrap_delete :: "log_env \<Rightarrow> LogEventWrap \<Rightarrow> Log \<Rightarrow> Log result" where
  "LogEventWrap_delete E wrap L = Logger_log E (w_logger wrap) (w_event wrap) L"

text \<open>
  \<^verbatim>\<open>SYLAR_LOG_FMT_LEVEL\<close>: \<open>formatted\<close> is what \<^verbatim>\<open>vasprintf\<close> makes of the format and its arguments, \<open>None\<close>
  when it fails.
\<close>

definition SYLAR_LOG_FMT_LEVEL :: "log_env \<Rightarrow> log_site \<Rightarrow> addr \<Rightarrow> Level \<Rightarrow> string option \<Rightarrow> Log \<Rightarrow> Log result" where
  "SYLAR_LOG_FMT_LEVEL E w a level formatted L =
     with_logger a L (\<lambda>lg.
       if level \<le> lg_level lg then
         (let wrap = LogEventWrap_new a
            (LogEvent_new (lg_name lg) level (site_file w) (site_line w) (site_now w - lg_createTime lg)
               (site_thread w) (site_fiber w) (site_time w) (site_threadName w))
          in LogEventWrap_delete E (wrap\<lparr>w_event := vprintf formatted (w_event wrap)\<rparr>) L)
       else Inr L)"

definition SYLAR_LOG_FATAL where "SYLAR_LOG_FATAL E w a = SYLAR_LOG_LEVEL E w a FATAL"
definition SYLAR_LOG_ALERT where "SYLAR_LOG_ALERT E w a = SYLAR_LOG_LEVEL E w a ALERT"
definition SYLAR_LOG_CRIT where "SYLAR_LOG_CRIT E w a = SYLAR_LOG_LEVEL E w a CRIT"
definition SYLAR_LOG_ERROR where "SYLAR_LOG_ERROR E w a = SYLAR_LOG_LEVEL E w a ERROR"
definition SYLAR_LOG_WARN where "SYLAR_LOG_WARN E w a = SYLAR_LOG_LEVEL E w a WARN"
definition SYLAR_LOG_NOTICE where "SYLAR_LOG_NOTICE E w a = SYLAR_LOG_LEVEL E w a NOTICE"
definition SYLAR_LOG_INFO where "SYLAR_LOG_INFO E w a = SYLAR_LOG_LEVEL E w a INFO"
definition SYLAR_LOG_DEBUG where "SYLAR_LOG_DEBUG E w a = SYLAR_LOG_LEVEL E w a DEBUG"

definition SYLAR_LOG_FMT_FATAL where "SYLAR_LOG_FMT_FATAL E w a = SYLAR_LOG_FMT_LEVEL E w a FATAL"
definition SYLAR_LOG_FMT_ALERT where "SYLAR_LOG_FMT_ALERT E w a = SYLAR_LOG_FMT_LEVEL E w a ALERT"
definition SYLAR_LOG_FMT_CRIT where "SYLAR_LOG_FMT_CRIT E w a = SYLAR_LOG_FMT_LEVEL E w a CRIT"
definition SYLAR_LOG_FMT_ERROR where "SYLAR_LOG_FMT_ERROR E w a = SYLAR_LOG_FMT_LEVEL E w a ERROR"
definition SYLAR_LOG_FMT_WARN where "SYLAR_LOG_FMT_WARN E w a = SYLAR_LOG_FMT_LEVEL E w a WARN"
definition SYLAR_LOG_FMT_NOTICE where "SYLAR_LOG_FMT_NOTICE E w a = SYLAR_LOG_FMT_LEVEL E w a NOTICE"
definition SYLAR_LOG_FMT_INFO where "SYLAR_LOG_FMT_INFO E w a = SYLAR_LOG_FMT_LEVEL E w a INFO"
definition SYLAR_LOG_FMT_DEBUG where "SYLAR_LOG_FMT_DEBUG E w a = SYLAR_LOG_FMT_LEVEL E w a DEBUG"

text \<open>\<^verbatim>\<open>SYLAR_LOG_ROOT()\<close> and \<^verbatim>\<open>SYLAR_LOG_NAME(name)\<close> on the manager of the unit that uses them.\<close>

definition SYLAR_LOG_ROOT :: "Log \<Rightarrow> addr" where
  "SYLAR_LOG_ROOT L = m_root L"

definition SYLAR_LOG_NAME :: "u64 \<Rightarrow> string \<Rightarrow> Log \<Rightarrow> addr \<times> Log" where
  "SYLAR_LOG_NAME now name L = getLogger now name L"

lemma stream_and_format: "SYLAR_LOG_FMT_LEVEL E w a level (Some t) L = SYLAR_LOG_LEVEL E w a level t L"
  unfolding SYLAR_LOG_FMT_LEVEL_def SYLAR_LOG_LEVEL_def LogEventWrap_delete_def LogEventWrap_new_def Let_def by (simp cong: if_cong)

section \<open>Assertions\<close>

text \<open>\<^verbatim>\<open>__builtin_expect\<close> gives its first argument.\<close>

definition SYLAR_LIKELY :: "bool \<Rightarrow> bool" where
  "SYLAR_LIKELY x \<longleftrightarrow> \<not> \<not> x"

definition SYLAR_UNLIKELY :: "bool \<Rightarrow> bool" where
  "SYLAR_UNLIKELY x \<longleftrightarrow> \<not> \<not> x"

text \<open>
  The condition \<open>x\<close> is evaluated on a state \<open>'s\<close>, and a second time by \<^verbatim>\<open>assert\<close> after the failure was logged;
  \<open>what\<close> is its text, \<open>bt\<close> the text of the backtrace.
\<close>

definition assert_log :: "log_env \<Rightarrow> log_site \<Rightarrow> string \<Rightarrow> string \<Rightarrow> ('s \<Rightarrow> bool \<times> 's) \<Rightarrow> Log \<times> 's \<Rightarrow> (Log \<times> 's) result" where
  "assert_log E w line what x st =
     (case st of (L, s) \<Rightarrow>
        case x s of (b, s1) \<Rightarrow>
          if SYLAR_UNLIKELY (\<not> b) then
            rbind (SYLAR_LOG_ERROR E w (SYLAR_LOG_ROOT L) line L) (\<lambda>L1.
              case x s1 of (b2, s2) \<Rightarrow> if b2 then Inr (L1, s2) else Inl (AssertFailed what))
          else Inr (L, s1))"

definition SYLAR_ASSERT ::
  "log_env \<Rightarrow> log_site \<Rightarrow> string \<Rightarrow> string \<Rightarrow> ('s \<Rightarrow> bool \<times> 's) \<Rightarrow> Log \<times> 's \<Rightarrow> (Log \<times> 's) result" where
  "SYLAR_ASSERT E w bt what x st =
     assert_log E w (''ASSERTION: '' @ what @ [CHR 0x0A] @ ''backtrace:'' @ [CHR 0x0A] @ bt) what x st"

definition SYLAR_ASSERT2 ::
  "log_env \<Rightarrow> log_site \<Rightarrow> string \<Rightarrow> string \<Rightarrow> ('s \<Rightarrow> bool \<times> 's) \<Rightarrow> string \<Rightarrow> Log \<times> 's \<Rightarrow> (Log \<times> 's) result" where
  "SYLAR_ASSERT2 E w bt what x msg st =
     assert_log E w (''ASSERTION: '' @ what @ [CHR 0x0A] @ msg @ [CHR 0x0A] @ ''backtrace:'' @ [CHR 0x0A] @ bt) what x st"

section \<open>Printing epoll operations and events\<close>

definition show_EpollCtlOp :: "int \<Rightarrow> string" where
  "show_EpollCtlOp op =
     (if op = 1 then ''EPOLL_CTL_ADD'' else if op = 3 then ''EPOLL_CTL_MOD'' else if op = 2 then ''EPOLL_CTL_DEL''
      else show_int op)"

text \<open>The flags in the order in which they are printed.\<close>

definition epoll_flags :: "(u32 \<times> string) list" where
  "epoll_flags = [(0x1, ''EPOLLIN''), (0x2, ''EPOLLPRI''), (0x4, ''EPOLLOUT''), (0x40, ''EPOLLRDNORM''),
     (0x80, ''EPOLLRDBAND''), (0x100, ''EPOLLWRNORM''), (0x200, ''EPOLLWRBAND''), (0x400, ''EPOLLMSG''),
     (0x8, ''EPOLLERR''), (0x10, ''EPOLLHUP''), (0x2000, ''EPOLLRDHUP''), (0x40000000, ''EPOLLONESHOT''),
     (0x80000000, ''EPOLLET'')]"

fun print_flags :: "(u32 \<times> string) list \<Rightarrow> u32 \<Rightarrow> bool \<Rightarrow> string \<Rightarrow> string" where
  "print_flags [] events first os = os"
| "print_flags ((flag, name) # fs) events first os =
     (if events AND flag \<noteq> 0 then print_flags fs events False (os @ (if \<not> first then ''|'' else []) @ name)
      else print_flags fs events first os)"

definition show_EPOLL_EVENTS :: "u32 \<Rightarrow> string" where
  "show_EPOLL_EVENTS events = (if events = 0 then ''0'' else print_flags epoll_flags events True [])"

section \<open>Properties\<close>

text \<open>The names of the set flags, separated by bars.\<close>

fun bar_join :: "string list \<Rightarrow> string" where
  "bar_join [] = []"
| "bar_join (x # xs) = x @ concat (map (\<lambda>y. CHR ''|'' # y) xs)"

lemma print_flags_later:
  "print_flags fs events False os = os @ concat (map (\<lambda>y. CHR ''|'' # y) (map snd (filter (\<lambda>(f, n). events AND f \<noteq> 0) fs)))"
  by (induction fs events False os rule: print_flags.induct) auto

lemma show_EPOLL_EVENTS_names:
  "events \<noteq> 0 \<Longrightarrow> show_EPOLL_EVENTS events = bar_join (map snd (filter (\<lambda>(f, n). events AND f \<noteq> 0) epoll_flags))"
proof -
  have "print_flags fs events True [] = bar_join (map snd (filter (\<lambda>(f, n). events AND f \<noteq> 0) fs))" for fs
    by (induction fs) (auto simp: print_flags_later)
  then show "events \<noteq> 0 \<Longrightarrow> ?thesis" by (simp add: show_EPOLL_EVENTS_def)
qed

text \<open>
  \<^verbatim>\<open>SYLAR_ASSERT\<close> and \<^verbatim>\<open>SYLAR_ASSERT2\<close> do what the models' \<open>sylar_assert\<close> does: a condition without side effects that
  holds is passed with nothing logged, one that fails is logged and aborts the process, also if it is
  evaluated twice. A condition whose first evaluation makes it true is logged but passed.
\<close>

theorem SYLAR_ASSERT_aborts:
  assumes "short_dates E" "log_ok L" "m_root L \<in> dom (loggers L)"
  shows "SYLAR_ASSERT E w bt what (\<lambda>s. (x s, s)) (L, s) = sylar_assert what (x s) (Inr (L, s)) \<and>
    SYLAR_ASSERT2 E w bt what (\<lambda>s. (x s, s)) msg (L, s) = sylar_assert what (x s) (Inr (L, s)) \<and>
    (\<exists>L'. SYLAR_ASSERT E w bt what (\<lambda>s. (s, True)) (L, False) = Inr (L', True) \<and> logger_view L' = logger_view L)"
proof -
  have log: "\<exists>L'. SYLAR_LOG_ERROR E w (SYLAR_LOG_ROOT L) line L = Inr L' \<and> logger_view L' = logger_view L" for line
    using logging_returns [OF assms, of w ERROR line] by (auto simp: SYLAR_LOG_ERROR_def SYLAR_LOG_ROOT_def)
  then have "assert_log E w line what (\<lambda>s. (x s, s)) (L, s) = sylar_assert what (x s) (Inr (L, s))" for line
    by (auto simp: assert_log_def SYLAR_UNLIKELY_def sylar_assert_def) (metis rbind_Inr)
  moreover have "\<exists>L'. assert_log E w line what (\<lambda>s. (s, True)) (L, False) = Inr (L', True) \<and> logger_view L' = logger_view L" for line
    using log [of line] by (auto simp: assert_log_def SYLAR_UNLIKELY_def)
  ultimately show ?thesis by (simp add: SYLAR_ASSERT_def SYLAR_ASSERT2_def)
qed

theorem SYLAR_ASSERT_aborts_witness:
  "SYLAR_ASSERT good_env test_site [] ''m_stack'' (\<lambda>s. (s < (3 :: nat), s)) (quiet_log, 5) = Inl (AssertFailed ''m_stack'')"
proof -
  have "short_dates good_env" "log_ok quiet_log" "m_root quiet_log \<in> dom (loggers quiet_log)"
    by (auto simp: short_dates_def good_env_def log_ok_def quiet_log_def Logger_new_def split: if_splits)
  from SYLAR_ASSERT_aborts [OF this, of test_site "[]" "''m_stack''" "\<lambda>s. s < (3 :: nat)" 5 "[]"] show ?thesis by simp
qed

end
