(* ===== verification/Sync.thy ===== *)
theory Sync
  imports Prelude
begin

text \<open>
  \<^verbatim>\<open>sylar/mutex.h\<close>, \<^verbatim>\<open>sylar/mutex.cpp\<close> and \<^verbatim>\<open>sylar/thread.cpp\<close>: the lock classes, the scoped guards over them,
  the semaphore and the start of a thread. A call that blocks has no result; threads interleave as
  the steps of a transition system.
\<close>

section \<open>Locks\<close>

text \<open>\<^verbatim>\<open>pthread_mutex_t\<close> and \<^verbatim>\<open>pthread_spinlock_t\<close>: locked or not. \<open>None\<close>: the call waits.\<close>

definition Mutex_new :: bool where
  "Mutex_new = False"

definition Mutex_lock :: "bool \<Rightarrow> bool option" where
  "Mutex_lock locked = (if locked then None else Some True)"

definition Mutex_unlock :: "bool \<Rightarrow> bool" where
  "Mutex_unlock locked = False"

definition SpinLock_new :: bool where
  "SpinLock_new = False"

definition SpinLock_lock :: "bool \<Rightarrow> bool option" where
  "SpinLock_lock locked = (if locked then None else Some True)"

definition SpinLock_unlock :: "bool \<Rightarrow> bool" where
  "SpinLock_unlock locked = False"

text \<open>\<^verbatim>\<open>CASLock\<close>: one round of the loop sets the flag and ends the loop if the flag was clear.\<close>

definition CASLock_new :: bool where
  "CASLock_new = False"

definition test_and_set :: "bool \<Rightarrow> bool \<times> bool" where
  "test_and_set flag = (flag, True)"

definition CASLock_lock :: "bool \<Rightarrow> bool option" where
  "CASLock_lock flag = (case test_and_set flag of (old, flag') \<Rightarrow> if old then None else Some flag')"

definition CASLock_unlock :: "bool \<Rightarrow> bool" where
  "CASLock_unlock flag = False"

record RWMutex =
  rw_readers :: nat
  rw_writer :: bool

definition RWMutex_new :: RWMutex where
  "RWMutex_new = \<lparr>rw_readers = 0, rw_writer = False\<rparr>"

text \<open>
  A lock that cannot be taken waits. The source ignores what \<^verbatim>\<open>pthread_rwlock_rdlock\<close> returns: a thread that holds
  the write lock itself gets \<^verbatim>\<open>EDEADLK\<close> and goes on as if it had the lock. In the steps below a thread has
  one guard on a lock, so that this does not arise.
\<close>

definition RWMutex_rdlock :: "RWMutex \<Rightarrow> RWMutex option" where
  "RWMutex_rdlock m = (if rw_writer m then None else Some (m\<lparr>rw_readers := rw_readers m + 1\<rparr>))"

definition RWMutex_wrlock :: "RWMutex \<Rightarrow> RWMutex option" where
  "RWMutex_wrlock m = (if rw_writer m \<or> rw_readers m > 0 then None else Some (m\<lparr>rw_writer := True\<rparr>))"

definition RWMutex_unlock :: "RWMutex \<Rightarrow> RWMutex" where
  "RWMutex_unlock m = (if rw_writer m then m\<lparr>rw_writer := False\<rparr> else m\<lparr>rw_readers := rw_readers m - 1\<rparr>)"

text \<open>The null locks have no state and never wait.\<close>

definition NullMutex_lock :: "unit \<Rightarrow> unit option" where
  "NullMutex_lock m = Some ()"

definition NullMutex_unlock :: "unit \<Rightarrow> unit" where
  "NullMutex_unlock m = ()"

definition NullRWMutex_rdlock :: "unit \<Rightarrow> unit option" where
  "NullRWMutex_rdlock m = Some ()"

definition NullRWMutex_wrlock :: "unit \<Rightarrow> unit option" where
  "NullRWMutex_wrlock m = Some ()"

definition NullRWMutex_unlock :: "unit \<Rightarrow> unit" where
  "NullRWMutex_unlock m = ()"

section \<open>Guards\<close>

text \<open>
  A guard is its member \<^verbatim>\<open>m_locked\<close>; the operations also change the mutex it refers to. \<open>acq\<close> and \<open>rel\<close> are
  the operations of the mutex class.
\<close>

definition ScopedLock_new :: "('m \<Rightarrow> 'm option) \<Rightarrow> 'm \<Rightarrow> (bool \<times> 'm) option" where
  "ScopedLock_new acq m = (case acq m of None \<Rightarrow> None | Some m' \<Rightarrow> Some (True, m'))"

definition ScopedLock_lock :: "('m \<Rightarrow> 'm option) \<Rightarrow> bool \<times> 'm \<Rightarrow> (bool \<times> 'm) option" where
  "ScopedLock_lock acq g =
     (case g of (m_locked, m) \<Rightarrow>
        if \<not> m_locked then (case acq m of None \<Rightarrow> None | Some m' \<Rightarrow> Some (True, m')) else Some (m_locked, m))"

definition ScopedLock_unlock :: "('m \<Rightarrow> 'm) \<Rightarrow> bool \<times> 'm \<Rightarrow> bool \<times> 'm" where
  "ScopedLock_unlock rel g = (case g of (m_locked, m) \<Rightarrow> if m_locked then (False, rel m) else (m_locked, m))"

definition ScopedLock_delete :: "('m \<Rightarrow> 'm) \<Rightarrow> bool \<times> 'm \<Rightarrow> 'm" where
  "ScopedLock_delete rel g = snd (ScopedLock_unlock rel g)"

text \<open>The guards of \<^verbatim>\<open>RWMutex\<close> differ in how they lock.\<close>

definition ReadScopedLock_new :: "RWMutex \<Rightarrow> (bool \<times> RWMutex) option" where
  "ReadScopedLock_new m = (case RWMutex_rdlock m of None \<Rightarrow> None | Some m' \<Rightarrow> Some (True, m'))"

definition ReadScopedLock_lock :: "bool \<times> RWMutex \<Rightarrow> (bool \<times> RWMutex) option" where
  "ReadScopedLock_lock g =
     (case g of (m_locked, m) \<Rightarrow>
        if \<not> m_locked then (case RWMutex_rdlock m of None \<Rightarrow> None | Some m' \<Rightarrow> Some (True, m')) else Some (m_locked, m))"

definition ReadScopedLock_unlock :: "bool \<times> RWMutex \<Rightarrow> bool \<times> RWMutex" where
  "ReadScopedLock_unlock g = (case g of (m_locked, m) \<Rightarrow> if m_locked then (False, RWMutex_unlock m) else (m_locked, m))"

definition ReadScopedLock_delete :: "bool \<times> RWMutex \<Rightarrow> RWMutex" where
  "ReadScopedLock_delete g = snd (ReadScopedLock_unlock g)"

definition WriteScopedLock_new :: "RWMutex \<Rightarrow> (bool \<times> RWMutex) option" where
  "WriteScopedLock_new m = (case RWMutex_wrlock m of None \<Rightarrow> None | Some m' \<Rightarrow> Some (True, m'))"

definition WriteScopedLock_lock :: "bool \<times> RWMutex \<Rightarrow> (bool \<times> RWMutex) option" where
  "WriteScopedLock_lock g =
     (case g of (m_locked, m) \<Rightarrow>
        if \<not> m_locked then (case RWMutex_wrlock m of None \<Rightarrow> None | Some m' \<Rightarrow> Some (True, m')) else Some (m_locked, m))"

definition WriteScopedLock_unlock :: "bool \<times> RWMutex \<Rightarrow> bool \<times> RWMutex" where
  "WriteScopedLock_unlock g = (case g of (m_locked, m) \<Rightarrow> if m_locked then (False, RWMutex_unlock m) else (m_locked, m))"

definition WriteScopedLock_delete :: "bool \<times> RWMutex \<Rightarrow> RWMutex" where
  "WriteScopedLock_delete g = snd (WriteScopedLock_unlock g)"

section \<open>Threads using guards\<close>

text \<open>Each thread has at most one guard on the mutex; its steps are the guard's operations.\<close>

record 'm guarded =
  the_mutex :: 'm
  guards :: "nat \<rightharpoonup> bool"

inductive guard_step :: "('m \<Rightarrow> 'm option) \<Rightarrow> ('m \<Rightarrow> 'm) \<Rightarrow> 'm guarded \<Rightarrow> 'm guarded \<Rightarrow> bool" for acq rel where
  construct: "guards s t = None \<Longrightarrow> ScopedLock_new acq (the_mutex s) = Some (b, m) \<Longrightarrow>
    guard_step acq rel s (s\<lparr>the_mutex := m, guards := (guards s)(t \<mapsto> b)\<rparr>)"
| relock: "guards s t = Some l \<Longrightarrow> ScopedLock_lock acq (l, the_mutex s) = Some (b, m) \<Longrightarrow>
    guard_step acq rel s (s\<lparr>the_mutex := m, guards := (guards s)(t \<mapsto> b)\<rparr>)"
| release: "guards s t = Some l \<Longrightarrow> ScopedLock_unlock rel (l, the_mutex s) = (b, m) \<Longrightarrow>
    guard_step acq rel s (s\<lparr>the_mutex := m, guards := (guards s)(t \<mapsto> b)\<rparr>)"
| destroy: "guards s t = Some l \<Longrightarrow>
    guard_step acq rel s (s\<lparr>the_mutex := ScopedLock_delete rel (l, the_mutex s), guards := (guards s)(t := None)\<rparr>)"

datatype rw_guard = Reader bool | Writer bool

record rw_guarded =
  rw_mutex :: RWMutex
  rw_guards :: "nat \<rightharpoonup> rw_guard"

inductive rw_step :: "rw_guarded \<Rightarrow> rw_guarded \<Rightarrow> bool" where
  read_construct: "rw_guards s t = None \<Longrightarrow> ReadScopedLock_new (rw_mutex s) = Some (b, m) \<Longrightarrow>
    rw_step s (s\<lparr>rw_mutex := m, rw_guards := (rw_guards s)(t \<mapsto> Reader b)\<rparr>)"
| write_construct: "rw_guards s t = None \<Longrightarrow> WriteScopedLock_new (rw_mutex s) = Some (b, m) \<Longrightarrow>
    rw_step s (s\<lparr>rw_mutex := m, rw_guards := (rw_guards s)(t \<mapsto> Writer b)\<rparr>)"
| read_relock: "rw_guards s t = Some (Reader l) \<Longrightarrow> ReadScopedLock_lock (l, rw_mutex s) = Some (b, m) \<Longrightarrow>
    rw_step s (s\<lparr>rw_mutex := m, rw_guards := (rw_guards s)(t \<mapsto> Reader b)\<rparr>)"
| write_relock: "rw_guards s t = Some (Writer l) \<Longrightarrow> WriteScopedLock_lock (l, rw_mutex s) = Some (b, m) \<Longrightarrow>
    rw_step s (s\<lparr>rw_mutex := m, rw_guards := (rw_guards s)(t \<mapsto> Writer b)\<rparr>)"
| read_release: "rw_guards s t = Some (Reader l) \<Longrightarrow> ReadScopedLock_unlock (l, rw_mutex s) = (b, m) \<Longrightarrow>
    rw_step s (s\<lparr>rw_mutex := m, rw_guards := (rw_guards s)(t \<mapsto> Reader b)\<rparr>)"
| write_release: "rw_guards s t = Some (Writer l) \<Longrightarrow> WriteScopedLock_unlock (l, rw_mutex s) = (b, m) \<Longrightarrow>
    rw_step s (s\<lparr>rw_mutex := m, rw_guards := (rw_guards s)(t \<mapsto> Writer b)\<rparr>)"
| read_destroy: "rw_guards s t = Some (Reader l) \<Longrightarrow>
    rw_step s (s\<lparr>rw_mutex := ReadScopedLock_delete (l, rw_mutex s), rw_guards := (rw_guards s)(t := None)\<rparr>)"
| write_destroy: "rw_guards s t = Some (Writer l) \<Longrightarrow>
    rw_step s (s\<lparr>rw_mutex := WriteScopedLock_delete (l, rw_mutex s), rw_guards := (rw_guards s)(t := None)\<rparr>)"

section \<open>Semaphore and thread start\<close>

text \<open>\<open>ok\<close> tells whether the system call succeeds; a failing \<^verbatim>\<open>sem_wait\<close> includes an interrupting signal.\<close>

definition Semaphore_wait :: "bool \<Rightarrow> nat \<Rightarrow> nat result option" where
  "Semaphore_wait ok count =
     (if \<not> ok then Some (Inl (Exception ''sem_wait error''))
      else if count = 0 then None else Some (Inr (count - 1)))"

definition Semaphore_notify :: "bool \<Rightarrow> nat \<Rightarrow> nat result" where
  "Semaphore_notify ok count = (if \<not> ok then Inl (Exception ''sem_post error'') else Inr (count + 1))"

record 'c Thread =
  th_id :: int
  th_thread :: nat
  th_cb :: "'c option"
  th_name :: string
  th_semaphore :: nat

definition Thread_init :: "'c \<Rightarrow> string \<Rightarrow> 'c Thread" where
  "Thread_init cb name =
     \<lparr>th_id = -1, th_thread = 0, th_cb = Some cb, th_name = (if name = [] then ''UNKNOW'' else name), th_semaphore = 0\<rparr>"

text \<open>The thread-local \<^verbatim>\<open>t_thread\<close> (whether it is set) and \<^verbatim>\<open>t_thread_name\<close>, with the object it points to.\<close>

definition Thread_SetName :: "string \<Rightarrow> bool \<times> string \<Rightarrow> 'c Thread \<Rightarrow> (bool \<times> string) \<times> 'c Thread" where
  "Thread_SetName name tls th =
     (if name = [] then (tls, th)
      else ((fst tls, name), if fst tls then th\<lparr>th_name := name\<rparr> else th))"

text \<open>
  The creating thread is in the constructor, waits for the semaphore, has returned or got an exception; later it
  joins or destroys the object. The new thread is at a statement of \<^verbatim>\<open>run\<close>.
\<close>

datatype creator = InConstructor | InWait | Returned | Joined | Thrown | Destroyed
datatype runner = NotStarted | AtRun | IdSet | CbTaken | InCallback | Finished

record 'c thread_sys =
  creator :: creator
  runner :: runner
  th :: "'c Thread"
  running :: "'c option"
  t_name :: string

inductive thread_step :: "int \<Rightarrow> nat \<Rightarrow> 'c thread_sys \<Rightarrow> 'c thread_sys \<Rightarrow> bool" for tid handle where
  create_fails: "creator s = InConstructor \<Longrightarrow> thread_step tid handle s (s\<lparr>creator := Thrown\<rparr>)"
| create: "creator s = InConstructor \<Longrightarrow>
    thread_step tid handle s (s\<lparr>creator := InWait, runner := AtRun, th := (th s)\<lparr>th_thread := handle\<rparr>\<rparr>)"
| run_id: "runner s = AtRun \<Longrightarrow>
    thread_step tid handle s (s\<lparr>runner := IdSet, t_name := th_name (th s), th := (th s)\<lparr>th_id := tid\<rparr>\<rparr>)"
| run_swap: "runner s = IdSet \<Longrightarrow>
    thread_step tid handle s (s\<lparr>runner := CbTaken, running := th_cb (th s), th := (th s)\<lparr>th_cb := None\<rparr>\<rparr>)"
| run_notify: "runner s = CbTaken \<Longrightarrow> Semaphore_notify True (th_semaphore (th s)) = Inr n \<Longrightarrow>
    thread_step tid handle s (s\<lparr>runner := InCallback, th := (th s)\<lparr>th_semaphore := n\<rparr>\<rparr>)"
| run_done: "runner s = InCallback \<Longrightarrow> thread_step tid handle s (s\<lparr>runner := Finished\<rparr>)"
| wait: "creator s = InWait \<Longrightarrow> Semaphore_wait True (th_semaphore (th s)) = Some (Inr n) \<Longrightarrow>
    thread_step tid handle s (s\<lparr>creator := Returned, th := (th s)\<lparr>th_semaphore := n\<rparr>\<rparr>)"
| join: "creator s = Returned \<Longrightarrow> th_thread (th s) \<noteq> 0 \<Longrightarrow> runner s = Finished \<Longrightarrow>
    thread_step tid handle s (s\<lparr>creator := Joined, th := (th s)\<lparr>th_thread := 0\<rparr>\<rparr>)"
| detach: "creator s = Returned \<or> creator s = Joined \<Longrightarrow> thread_step tid handle s (s\<lparr>creator := Destroyed\<rparr>)"

definition thread_start :: "'c \<Rightarrow> string \<Rightarrow> 'c thread_sys \<Rightarrow> bool" where
  "thread_start cb name s \<longleftrightarrow> s = \<lparr>creator = InConstructor, runner = NotStarted, th = Thread_init cb name, running = None,
     t_name = ''UNKNOW''\<rparr>"

section \<open>The contract of an exclusive lock\<close>

locale exclusive_lock =
  fixes acq :: "'m \<Rightarrow> 'm option" and rel :: "'m \<Rightarrow> 'm" and held :: "'m \<Rightarrow> bool"
  assumes waits_iff_held: "acq m = None \<longleftrightarrow> held m"
    and acquired_held: "acq m = Some m' \<Longrightarrow> held m'"
    and released_free: "held m \<Longrightarrow> \<not> held (rel m)"
begin

definition guard_inv :: "'m guarded \<Rightarrow> bool" where
  "guard_inv s \<longleftrightarrow> (held (the_mutex s) \<longleftrightarrow> (\<exists>t. guards s t = Some True)) \<and>
     (\<forall>t t'. guards s t = Some True \<longrightarrow> guards s t' = Some True \<longrightarrow> t = t')"

definition guard_start :: "'m guarded \<Rightarrow> bool" where
  "guard_start s \<longleftrightarrow> \<not> held (the_mutex s) \<and> guards s = Map.empty"

lemma guard_inv_acquire:
  assumes "guard_inv s" "acq (the_mutex s) = Some m"
  shows "guard_inv (s\<lparr>the_mutex := m, guards := (guards s)(t \<mapsto> True)\<rparr>)"
proof -
  have "\<not> held (the_mutex s)" using assms(2) waits_iff_held [of "the_mutex s"] by auto
  then have "guards s t' \<noteq> Some True" for t' using assms(1) by (auto simp: guard_inv_def)
  then show ?thesis using acquired_held [OF assms(2)] by (auto simp: guard_inv_def)
qed

lemma guard_inv_release:
  assumes "guard_inv s" "guards s t = Some True" "g \<noteq> Some True"
  shows "guard_inv (s\<lparr>the_mutex := rel (the_mutex s), guards := (guards s)(t := g)\<rparr>)"
proof -
  have "held (the_mutex s)" using assms(1,2) by (auto simp: guard_inv_def)
  then have "\<not> held (rel (the_mutex s))" by (rule released_free)
  then show ?thesis using assms by (auto simp: guard_inv_def)
qed

lemma guard_inv_same:
  assumes "guard_inv s" "guards s t \<noteq> Some True" "g \<noteq> Some True"
  shows "guard_inv (s\<lparr>guards := (guards s)(t := g)\<rparr>)"
  using assms by (auto simp: guard_inv_def)

lemma guard_inv_step:
  assumes "guard_inv s" "guard_step acq rel s s'"
  shows "guard_inv s'"
  using assms(2)
proof cases
  case (construct t b m)
  then show ?thesis using assms(1) guard_inv_acquire by (auto simp: ScopedLock_new_def split: option.splits)
next
  case (relock t l b m)
  then show ?thesis
    using assms(1) guard_inv_acquire [of s m t] by (cases l) (auto simp: ScopedLock_lock_def fun_upd_idem split: option.splits)
next
  case (release t l b m)
  then show ?thesis
    using assms(1) guard_inv_release [of s t "Some False"] by (cases l) (auto simp: ScopedLock_unlock_def fun_upd_idem)
next
  case (destroy t l)
  then show ?thesis
    using assms(1) guard_inv_release [of s t None] guard_inv_same [of s t None]
    by (cases l) (auto simp: ScopedLock_delete_def ScopedLock_unlock_def)
qed

lemma guard_inv_start: "guard_start s \<Longrightarrow> guard_inv s"
  by (simp add: guard_start_def guard_inv_def)

end

sublocale exclusive_lock < guard_system: inductive_invariant guard_start "guard_step acq rel" guard_inv
  by unfold_locales (fact guard_inv_start guard_inv_step)+

context exclusive_lock
begin

text \<open>At most one guard is locked, and the lock waits exactly while one is.\<close>

lemma guards_exclusive:
  assumes "reach guard_start (guard_step acq rel) s"
  shows "(\<forall>t t'. guards s t = Some True \<longrightarrow> guards s t' = Some True \<longrightarrow> t = t') \<and>
    (acq (the_mutex s) = None \<longleftrightarrow> (\<exists>t. guards s t = Some True))"
  using guard_system.reach_inv [OF assms] waits_iff_held by (simp add: guard_inv_def)

end

interpretation cas: exclusive_lock CASLock_lock CASLock_unlock "\<lambda>flag. flag"
  by unfold_locales (auto simp: CASLock_lock_def CASLock_unlock_def test_and_set_def split: if_splits)

interpretation mutex: exclusive_lock Mutex_lock Mutex_unlock "\<lambda>locked. locked"
  by unfold_locales (auto simp: Mutex_lock_def Mutex_unlock_def split: if_splits)

interpretation spin: exclusive_lock SpinLock_lock SpinLock_unlock "\<lambda>locked. locked"
  by unfold_locales (auto simp: SpinLock_lock_def SpinLock_unlock_def split: if_splits)

section \<open>Readers and writers\<close>

definition readers :: "rw_guarded \<Rightarrow> nat set" where
  "readers s = {t. rw_guards s t = Some (Reader True)}"

definition writers :: "rw_guarded \<Rightarrow> nat set" where
  "writers s = {t. rw_guards s t = Some (Writer True)}"

definition rw_inv :: "rw_guarded \<Rightarrow> bool" where
  "rw_inv s \<longleftrightarrow> finite (readers s) \<and> card (readers s) = rw_readers (rw_mutex s) \<and>
     (if rw_writer (rw_mutex s) then readers s = {} \<and> (\<exists>t. writers s = {t}) else writers s = {})"

definition rw_start :: "rw_guarded \<Rightarrow> bool" where
  "rw_start s \<longleftrightarrow> rw_mutex s = RWMutex_new \<and> rw_guards s = Map.empty"

lemma readers_upd:
  "readers (s\<lparr>rw_mutex := m, rw_guards := (rw_guards s)(t := g)\<rparr>) =
   (if g = Some (Reader True) then insert t (readers s) else readers s - {t})"
  by (auto simp: readers_def)

lemma writers_upd:
  "writers (s\<lparr>rw_mutex := m, rw_guards := (rw_guards s)(t := g)\<rparr>) =
   (if g = Some (Writer True) then insert t (writers s) else writers s - {t})"
  by (auto simp: writers_def)

lemmas rw_sets = readers_upd writers_upd

lemma rw_inv_idle:
  assumes "rw_inv s" "t \<notin> readers s" "t \<notin> writers s" "g \<noteq> Some (Reader True)" "g \<noteq> Some (Writer True)"
  shows "rw_inv (s\<lparr>rw_mutex := rw_mutex s, rw_guards := (rw_guards s)(t := g)\<rparr>)"
  using assms unfolding rw_inv_def rw_sets by simp

lemma rw_inv_read:
  assumes "rw_inv s" "t \<notin> readers s" "RWMutex_rdlock (rw_mutex s) = Some m"
  shows "rw_inv (s\<lparr>rw_mutex := m, rw_guards := (rw_guards s)(t \<mapsto> Reader True)\<rparr>)"
  using assms unfolding rw_inv_def rw_sets by (auto simp: RWMutex_rdlock_def split: if_splits)

lemma rw_inv_write:
  assumes "rw_inv s" "RWMutex_wrlock (rw_mutex s) = Some m"
  shows "rw_inv (s\<lparr>rw_mutex := m, rw_guards := (rw_guards s)(t \<mapsto> Writer True)\<rparr>)"
  using assms unfolding rw_inv_def rw_sets by (auto simp: RWMutex_wrlock_def split: if_splits)

lemma rw_inv_unlock:
  assumes "rw_inv s" "t \<in> readers s \<or> t \<in> writers s" "g \<noteq> Some (Reader True)" "g \<noteq> Some (Writer True)"
  shows "rw_inv (s\<lparr>rw_mutex := RWMutex_unlock (rw_mutex s), rw_guards := (rw_guards s)(t := g)\<rparr>)"
proof (cases "rw_writer (rw_mutex s)")
  case True
  with assms(1,2) have "readers s = {}" "writers s = {t}" by (auto simp: rw_inv_def)
  with True assms show ?thesis unfolding rw_inv_def rw_sets by (simp add: RWMutex_unlock_def)
next
  case False
  with assms(1,2) have "t \<in> readers s" "writers s = {}" by (auto simp: rw_inv_def)
  with False assms show ?thesis unfolding rw_inv_def rw_sets by (simp add: RWMutex_unlock_def)
qed

lemma rw_inv_step:
  assumes "rw_inv s" "rw_step s s'"
  shows "rw_inv s'"
  using assms(2)
proof cases
  case (read_construct t b m)
  then show ?thesis using assms(1) rw_inv_read [of s t m] by (auto simp: ReadScopedLock_new_def readers_def split: option.splits)
next
  case (write_construct t b m)
  then show ?thesis using assms(1) rw_inv_write [of s m t] by (auto simp: WriteScopedLock_new_def split: option.splits)
next
  case (read_relock t l b m)
  then show ?thesis using assms(1) rw_inv_read [of s t m]
    by (cases l) (auto simp: ReadScopedLock_lock_def readers_def fun_upd_idem split: option.splits)
next
  case (write_relock t l b m)
  then show ?thesis using assms(1) rw_inv_write [of s m t]
    by (cases l) (auto simp: WriteScopedLock_lock_def fun_upd_idem split: option.splits)
next
  case (read_release t l b m)
  then show ?thesis using assms(1) rw_inv_unlock [of s t "Some (Reader False)"]
    by (cases l) (auto simp: ReadScopedLock_unlock_def readers_def fun_upd_idem)
next
  case (write_release t l b m)
  then show ?thesis using assms(1) rw_inv_unlock [of s t "Some (Writer False)"]
    by (cases l) (auto simp: WriteScopedLock_unlock_def writers_def fun_upd_idem)
next
  case (read_destroy t l)
  then show ?thesis using assms(1) rw_inv_unlock [of s t None] rw_inv_idle [of s t None]
    by (cases l) (auto simp: ReadScopedLock_delete_def ReadScopedLock_unlock_def readers_def writers_def)
next
  case (write_destroy t l)
  then show ?thesis using assms(1) rw_inv_unlock [of s t None] rw_inv_idle [of s t None]
    by (cases l) (auto simp: WriteScopedLock_delete_def WriteScopedLock_unlock_def readers_def writers_def)
qed

lemma rw_inv_start: "rw_start s \<Longrightarrow> rw_inv s"
  by (simp add: rw_start_def RWMutex_new_def rw_inv_def readers_def writers_def)

interpretation rw: inductive_invariant rw_start rw_step rw_inv
  by unfold_locales (fact rw_inv_start rw_inv_step)+

text \<open>New locks are free, so threads may start with them; guards over the null lock exclude nothing.\<close>

lemma new_locks_start:
  "cas.guard_start \<lparr>the_mutex = CASLock_new, guards = Map.empty\<rparr>"
  "mutex.guard_start \<lparr>the_mutex = Mutex_new, guards = Map.empty\<rparr>"
  "spin.guard_start \<lparr>the_mutex = SpinLock_new, guards = Map.empty\<rparr>"
  by (simp_all add: cas.guard_start_def mutex.guard_start_def spin.guard_start_def CASLock_new_def Mutex_new_def SpinLock_new_def)

lemma unguarded_overlap:
  assumes "\<And>m. acq m \<noteq> None"
  shows "\<exists>s. reach (\<lambda>s. s = \<lparr>the_mutex = m0, guards = Map.empty\<rparr>) (guard_step acq rel) s \<and>
     guards s 0 = Some True \<and> guards s 1 = Some True"
proof -
  let ?R = "reach (\<lambda>s. s = \<lparr>the_mutex = m0, guards = Map.empty\<rparr>) (guard_step acq rel)"
  obtain m1 where m1: "acq m0 = Some m1" using assms by auto
  obtain m2 where m2: "acq m1 = Some m2" using assms by auto
  have "?R \<lparr>the_mutex = m0, guards = Map.empty\<rparr>" by (rule reach_init) simp
  from reach_step [OF this guard_step.construct [where t = 0 and b = True and m = m1]] m1
  have s1: "?R \<lparr>the_mutex = m1, guards = [0 \<mapsto> True]\<rparr>" by (simp add: ScopedLock_new_def)
  from reach_step [OF s1 guard_step.construct [where t = 1 and b = True and m = m2]] m2
  have "?R \<lparr>the_mutex = m2, guards = [0 \<mapsto> True, 1 \<mapsto> True]\<rparr>" by (simp add: ScopedLock_new_def)
  then show ?thesis by (intro exI [of _ "\<lparr>the_mutex = m2, guards = [0 \<mapsto> True, 1 \<mapsto> True]\<rparr>"]) simp
qed

lemma null_guards_overlap:
  "\<exists>s. reach (\<lambda>s. s = \<lparr>the_mutex = (), guards = Map.empty\<rparr>) (guard_step NullMutex_lock NullMutex_unlock) s \<and>
     guards s 0 = Some True \<and> guards s 1 = Some True"
  by (rule unguarded_overlap) (simp add: NullMutex_lock_def)

text \<open>A locked write guard excludes every other locked guard.\<close>

lemma rw_guards_exclusive:
  assumes "reach rw_start rw_step r"
  shows "(\<forall>t t'. t \<in> writers r \<longrightarrow> t' \<noteq> t \<longrightarrow> t' \<notin> writers r \<and> t' \<notin> readers r) \<and>
    rw_readers (rw_mutex r) = card (readers r)"
  using rw.reach_inv [OF assms] by (auto simp: rw_inv_def split: if_splits)

section \<open>Starting a thread\<close>

text \<open>How far \<^verbatim>\<open>run\<close> has come.\<close>

fun stage :: "runner \<Rightarrow> nat" where
  "stage NotStarted = 0"
| "stage AtRun = 1"
| "stage IdSet = 2"
| "stage CbTaken = 3"
| "stage InCallback = 4"
| "stage Finished = 5"

definition thread_inv :: "int \<Rightarrow> 'c \<Rightarrow> 'c thread_sys \<Rightarrow> bool" where
  "thread_inv tid cb s \<longleftrightarrow>
     (creator s = InConstructor \<longrightarrow> stage (runner s) = 0) \<and>
     (creator s = Returned \<longrightarrow> 4 \<le> stage (runner s)) \<and>
     (0 < th_semaphore (th s) \<longrightarrow> 4 \<le> stage (runner s)) \<and>
     (creator s = Joined \<longrightarrow> stage (runner s) = 5) \<and>
     (2 \<le> stage (runner s) \<longrightarrow> th_id (th s) = tid) \<and>
     (3 \<le> stage (runner s) \<longrightarrow> th_cb (th s) = None \<and> running s = Some cb) \<and>
     (stage (runner s) < 3 \<longrightarrow> th_cb (th s) = Some cb)"

lemma thread_inv_step:
  assumes "thread_inv tid cb s" "thread_step tid handle s s'"
  shows "thread_inv tid cb s'"
  using assms(2)
proof cases
qed (use assms(1) in \<open>auto simp: thread_inv_def Semaphore_notify_def Semaphore_wait_def split: if_splits\<close>)

lemma stage_ge_4: "4 \<le> stage r \<Longrightarrow> r \<in> {InCallback, Finished}"
  by (cases r) auto

lemma stage_5: "stage r = 5 \<Longrightarrow> r = Finished"
  by (cases r) auto

text \<open>
  When the constructor has returned, the thread runs: its id is known, the callback was handed to the
  thread, which is calling it or has called it; after a join it has finished.
\<close>

lemma thread_started:
  assumes "reach (thread_start cb name) (thread_step tid handle) s"
  shows "(creator s = Returned \<longrightarrow> th_id (th s) = tid \<and> th_cb (th s) = None \<and> running s = Some cb \<and>
      runner s \<in> {InCallback, Finished}) \<and> (creator s = Joined \<longrightarrow> runner s = Finished)"
proof -
  have "thread_start cb name s \<Longrightarrow> thread_inv tid cb s" for s
    by (simp add: thread_start_def thread_inv_def Thread_init_def)
  with assms have "thread_inv tid cb s" by (induction rule: reach.induct) (auto intro: thread_inv_step)
  then show ?thesis using stage_ge_4 [of "runner s"] stage_5 [of "runner s"] by (auto simp: thread_inv_def)
qed

section \<open>Properties\<close>

text \<open>
  C20. Whatever threads do with their guards, locking and unlocking them again and destroying them, at
  most one guard on a \<^verbatim>\<open>CASLock\<close>, a \<^verbatim>\<open>Mutex\<close> or a \<^verbatim>\<open>SpinLock\<close> is locked, and locking waits exactly while
  one is. A locked write guard on a \<^verbatim>\<open>RWMutex\<close> excludes every other locked guard, and the lock counts
  its readers.
\<close>

theorem guards_exclude:
  "(reach (\<lambda>s. \<not> the_mutex s \<and> guards s = Map.empty) (guard_step CASLock_lock CASLock_unlock) s \<or>
    reach (\<lambda>s. \<not> the_mutex s \<and> guards s = Map.empty) (guard_step Mutex_lock Mutex_unlock) s \<or>
    reach (\<lambda>s. \<not> the_mutex s \<and> guards s = Map.empty) (guard_step SpinLock_lock SpinLock_unlock) s \<longrightarrow>
      (\<forall>t t'. guards s t = Some True \<longrightarrow> guards s t' = Some True \<longrightarrow> t = t') \<and>
      (the_mutex s \<longleftrightarrow> (\<exists>t. guards s t = Some True))) \<and>
   (reach rw_start rw_step r \<longrightarrow>
      (\<forall>t t'. rw_guards r t = Some (Writer True) \<longrightarrow> t' \<noteq> t \<longrightarrow> rw_guards r t' \<notin> {Some (Writer True), Some (Reader True)}) \<and>
      rw_readers (rw_mutex r) = card {t. rw_guards r t = Some (Reader True)})"
proof -
  have start: "(\<lambda>s. \<not> the_mutex s \<and> guards s = Map.empty) = cas.guard_start"
    "(\<lambda>s. \<not> the_mutex s \<and> guards s = Map.empty) = mutex.guard_start"
    "(\<lambda>s. \<not> the_mutex s \<and> guards s = Map.empty) = spin.guard_start"
    by (auto simp: cas.guard_start_def mutex.guard_start_def spin.guard_start_def)
  have waits: "CASLock_lock b = None \<longleftrightarrow> b" "Mutex_lock b = None \<longleftrightarrow> b" "SpinLock_lock b = None \<longleftrightarrow> b" for b
    by (rule cas.waits_iff_held mutex.waits_iff_held spin.waits_iff_held)+
  show ?thesis
    using cas.guards_exclusive [of s, folded start(1)] mutex.guards_exclusive [of s, folded start(2)]
      spin.guards_exclusive [of s, folded start(3)] rw_guards_exclusive [of r]
    unfolding waits readers_def writers_def by blast
qed

theorem guards_exclude_witness:
  "(\<exists>s. reach (\<lambda>s. \<not> the_mutex s \<and> guards s = Map.empty) (guard_step CASLock_lock CASLock_unlock) s \<and>
      guards s 7 = Some True \<and> guards s 8 \<noteq> Some True \<and> the_mutex s) \<and>
   (\<exists>r. reach rw_start rw_step r \<and> rw_guards r 7 = Some (Writer True) \<and>
      rw_guards r 8 \<notin> {Some (Writer True), Some (Reader True)} \<and>
      rw_readers (rw_mutex r) = card {t. rw_guards r t = Some (Reader True)})"
proof -
  let ?s = "\<lparr>the_mutex = False, guards = Map.empty\<rparr> :: bool guarded"
  have "reach (\<lambda>s. \<not> the_mutex s \<and> guards s = Map.empty) (guard_step CASLock_lock CASLock_unlock)
      (?s\<lparr>the_mutex := True, guards := (guards ?s)(7 \<mapsto> True)\<rparr>)"
    by (rule reach_step [where s = ?s], rule reach_init, simp, rule construct)
      (simp_all add: ScopedLock_new_def CASLock_lock_def test_and_set_def)
  moreover let ?r = "\<lparr>rw_mutex = \<lparr>rw_readers = 0, rw_writer = False\<rparr>, rw_guards = Map.empty\<rparr> :: rw_guarded"
  have "reach rw_start rw_step
      (?r\<lparr>rw_mutex := \<lparr>rw_readers = 0, rw_writer = True\<rparr>, rw_guards := (rw_guards ?r)(7 \<mapsto> Writer True)\<rparr>)"
    by (rule reach_step [where s = ?r], rule reach_init, simp add: rw_start_def RWMutex_new_def, rule write_construct)
      (simp_all add: WriteScopedLock_new_def RWMutex_wrlock_def)
  ultimately have "reach (\<lambda>s. \<not> the_mutex s \<and> guards s = Map.empty) (guard_step CASLock_lock CASLock_unlock)
      \<lparr>the_mutex = True, guards = [7 \<mapsto> True]\<rparr>" (is "reach _ _ ?s'") and
    "reach rw_start rw_step \<lparr>rw_mutex = \<lparr>rw_readers = 0, rw_writer = True\<rparr>, rw_guards = [7 \<mapsto> Writer True]\<rparr>"
      (is "reach _ _ ?r'")
    by simp_all
  moreover have "guards ?s' 7 = Some True" "rw_guards ?r' 7 = Some (Writer True)" "(8::nat) \<noteq> 7" by simp_all
  ultimately show ?thesis using guards_exclude [of ?s' ?r'] by blast
qed

end
