(* ===== verification/Descriptors.thy ===== *)
theory Descriptors
  imports Hook
begin

text \<open>
  The descriptors of the program: what all the hooked calls together do with the table of contexts and the
  flags of the kernel. A tracked descriptor is an open socket that never blocks its thread, as long as
  descriptors are closed with the hooks enabled and not made blocking by \<^verbatim>\<open>ioctl\<close>; without that, it is not.
\<close>

unbundle bit_operations_syntax

section \<open>Accepting\<close>

text \<open>The whole of \<^verbatim>\<open>accept\<close>, and what is left of it when its fiber runs again.\<close>

definition accept_finish ::
  "'k kernel \<Rightarrow> (outcome \<times> ('u, 'k) hook_env) result option \<Rightarrow> (outcome \<times> ('u, 'k) hook_env) result option" where
  "accept_finish K r = map_option (\<lambda>r. rbind r (\<lambda>(out, env).
     case out of
       Returned fd e \<Rightarrow> rbind (accept_done K fd env) (\<lambda>env'. Inr (Returned fd e, env'))
     | Suspended timer \<Rightarrow> Inr (Suspended timer, env))) r"

definition hook_accept ::
  "'k kernel \<Rightarrow> 'k epoll \<Rightarrow> int \<Rightarrow> 'k syscall \<Rightarrow> u64 \<Rightarrow> addr \<Rightarrow> addr \<Rightarrow> addr \<Rightarrow> ('u, 'k) hook_env
   \<Rightarrow> (outcome \<times> ('u, 'k) hook_env) result option" where
  "hook_accept K E fd accept_f now p ti fiber env =
     accept_finish K (hook_io K E Accept fd accept_f now p ti fiber env)"

definition hook_accept_resume ::
  "'k kernel \<Rightarrow> 'k epoll \<Rightarrow> int \<Rightarrow> 'k syscall \<Rightarrow> u64 \<Rightarrow> u64 \<Rightarrow> addr \<Rightarrow> addr \<Rightarrow> addr \<Rightarrow> addr option \<Rightarrow> ('u, 'k) hook_env
   \<Rightarrow> (outcome \<times> ('u, 'k) hook_env) result option" where
  "hook_accept_resume K E fd accept_f timeout now p ti fiber timer env =
     accept_finish K (do_io_resume E fd accept_f READ timeout now p ti fiber timer env)"

section \<open>What the kernel promises\<close>

definition open_fd :: "'k kernel \<Rightarrow> int \<Rightarrow> 'k \<Rightarrow> bool" where
  "open_fd K fd k \<longleftrightarrow> k_fstat K fd k \<noteq> None"

definition nonblocking :: "'k kernel \<Rightarrow> int \<Rightarrow> 'k \<Rightarrow> bool" where
  "nonblocking K fd k \<longleftrightarrow> k_getfl K fd k AND O_NONBLOCK \<noteq> 0"

text \<open>Open descriptors stay what they are, and non-blocking ones stay non-blocking, all but \<open>fd\<close>.\<close>

definition keeps_except :: "'k kernel \<Rightarrow> int \<Rightarrow> 'k \<Rightarrow> 'k \<Rightarrow> bool" where
  "keeps_except K fd k k' \<longleftrightarrow> (\<forall>g. g \<noteq> fd \<and> open_fd K g k \<longrightarrow>
     k_fstat K g k' = k_fstat K g k \<and> (nonblocking K g k \<longrightarrow> nonblocking K g k'))"

definition keeps :: "'k kernel \<Rightarrow> 'k \<Rightarrow> 'k \<Rightarrow> bool" where
  "keeps K k k' \<longleftrightarrow> (\<forall>fd. keeps_except K fd k k')"

text \<open>
  \<^verbatim>\<open>F_SETFL\<close> sets the flag of an open descriptor and touches no other, and \<^verbatim>\<open>epoll_ctl\<close> touches none.
\<close>

definition flags_ok :: "'k kernel \<Rightarrow> 'k epoll \<Rightarrow> bool" where
  "flags_ok K E \<longleftrightarrow>
     (\<forall>fd fl k r k'. k_setfl K fd fl k = (r, k') \<longrightarrow> keeps_except K fd k k' \<and> k_fstat K fd k' = k_fstat K fd k \<and>
        (open_fd K fd k \<longrightarrow> (nonblocking K fd k' \<longleftrightarrow> fl AND O_NONBLOCK \<noteq> 0))) \<and>
     (\<forall>op fd ev k ok k'. ep_ctl E op fd ev k = (ok, k') \<longrightarrow> keeps K k k')"

text \<open>
  System calls that open no sockets for the program, that open one (\<^verbatim>\<open>socket\<close>, \<^verbatim>\<open>accept\<close>: the new descriptor was not open
  before, whatever its flags), and that close \<open>fd\<close>.
\<close>

definition keeping :: "'k kernel \<Rightarrow> 'k syscall \<Rightarrow> bool" where
  "keeping K f \<longleftrightarrow> (\<forall>k n e k'. f k = (n, e, k') \<longrightarrow> keeps K k k')"

definition opens_socket :: "'k kernel \<Rightarrow> 'k syscall \<Rightarrow> bool" where
  "opens_socket K f \<longleftrightarrow> (\<forall>k n e k'. f k = (n, e, k') \<longrightarrow> keeps K k k' \<and> - 1 \<le> n \<and>
     (n \<noteq> - 1 \<longrightarrow> \<not> open_fd K n k \<and> k_fstat K n k' = Some True))"

definition closes :: "'k kernel \<Rightarrow> int \<Rightarrow> 'k syscall \<Rightarrow> bool" where
  "closes K fd f \<longleftrightarrow> (\<forall>k n e k'. f k = (n, e, k') \<longrightarrow> keeps_except K fd k k')"

lemma keepsI: "(\<And>g. open_fd K g k \<Longrightarrow> k_fstat K g k' = k_fstat K g k \<and> (nonblocking K g k \<longrightarrow> nonblocking K g k')) \<Longrightarrow> keeps K k k'"
  by (simp add: keeps_def keeps_except_def)

lemma keepsD: "keeps K k k' \<Longrightarrow> open_fd K g k \<Longrightarrow> k_fstat K g k' = k_fstat K g k \<and> (nonblocking K g k \<longrightarrow> nonblocking K g k')"
  unfolding keeps_def keeps_except_def by (drule spec [of _ "g + 1"]) simp

lemma keeps_refl [simp, intro]: "keeps K k k"
  by (simp add: keeps_def keeps_except_def)

lemma keeps_trans [trans]:
  assumes "keeps K k1 k2" "keeps K k2 k3"
  shows "keeps K k1 k3"
proof (rule keepsI)
  fix g
  assume g: "open_fd K g k1"
  note 1 = keepsD [OF assms(1) g]
  then have "open_fd K g k2" using g by (simp add: open_fd_def)
  from keepsD [OF assms(2) this] 1 show "k_fstat K g k3 = k_fstat K g k1 \<and> (nonblocking K g k1 \<longrightarrow> nonblocking K g k3)"
    by auto
qed

lemma opens_keeping: "opens_socket K f \<Longrightarrow> keeping K f"
  by (auto simp: opens_socket_def keeping_def)

section \<open>System calls that are retried\<close>

text \<open>A property of one call whose result is kept by calls that were interrupted before holds of the whole.\<close>

lemma io_call_result:
  assumes run: "io_call func k = Some (n, e, k')"
    and step: "\<And>k n e k'. func k = (n, e, k') \<Longrightarrow> P k n k'"
    and retry: "\<And>k e k1 n k'. func k = (- 1, e, k1) \<Longrightarrow> P k1 n k' \<Longrightarrow> P k n k'"
  shows "P k n k'"
proof -
  have "f = func \<longrightarrow> P k (fst r) (snd (snd r))" if "io_call f k = Some r" for f k r
  proof (rule io_call.raw_induct [OF _ that, of "\<lambda>f k r. f = func \<longrightarrow> P k (fst r) (snd (snd r))"], intro impI)
    fix rec f k r
    assume IH: "\<And>f k r. rec f k = Some r \<Longrightarrow> f = func \<longrightarrow> P k (fst r) (snd (snd r))"
      and body: "(case f k of (n, e, k') \<Rightarrow> if n = - 1 \<and> e = EINTR then rec f k' else Some (n, e, k')) = Some r" "f = func"
    obtain n e k1 where f: "func k = (n, e, k1)" by (metis prod_cases3)
    show "P k (fst r) (snd (snd r))"
    proof (cases "n = - 1 \<and> e = EINTR")
      case True
      with body f IH [of func k1 r] retry [of k e k1] show ?thesis by simp
    next
      case False
      with body f step [OF f] show ?thesis by auto
    qed
  qed
  from this [OF run] show ?thesis by simp
qed

lemma io_call_keeps:
  assumes "io_call func k = Some (n, e, k')" "keeping K func"
  shows "keeps K k k'"
  using assms(1)
proof (rule io_call_result)
  show "keeps K k k'" if "func k = (n, e, k')" for k n e k' using assms(2) that by (simp add: keeping_def)
  show "keeps K k k'" if "func k = (- 1, e, k1)" "keeps K k1 k'" for k e k1 k'
    using assms(2) that keeps_trans [of K k k1 k'] by (simp add: keeping_def)
qed

lemma io_call_opens:
  assumes "io_call func k = Some (n, e, k')" "opens_socket K func"
  shows "keeps K k k' \<and> - 1 \<le> n \<and> (n \<noteq> - 1 \<longrightarrow> \<not> open_fd K n k \<and> k_fstat K n k' = Some True)"
  using assms(1)
proof (rule io_call_result)
  fix k n e k'
  assume "func k = (n, e, k')"
  then show "keeps K k k' \<and> - 1 \<le> n \<and> (n \<noteq> - 1 \<longrightarrow> \<not> open_fd K n k \<and> k_fstat K n k' = Some True)"
    using assms(2) by (simp add: opens_socket_def)
next
  fix k e k1 n k'
  assume f: "func k = (- 1, e, k1)"
    and IH: "keeps K k1 k' \<and> - 1 \<le> n \<and> (n \<noteq> - 1 \<longrightarrow> \<not> open_fd K n k1 \<and> k_fstat K n k' = Some True)"
  have 1: "keeps K k k1" using f assms(2) by (simp add: opens_socket_def)
  then have "\<not> open_fd K n k" if "\<not> open_fd K n k1" using keepsD [OF 1, of n] that by (metis open_fd_def)
  with IH keeps_trans [OF 1] show "keeps K k k' \<and> - 1 \<le> n \<and> (n \<noteq> - 1 \<longrightarrow> \<not> open_fd K n k \<and> k_fstat K n k' = Some True)"
    by blast
qed

section \<open>Operations that leave the table alone\<close>

definition calm :: "'k kernel \<Rightarrow> ('u, 'k) hook_env \<Rightarrow> ('u, 'k) hook_env \<Rightarrow> bool" where
  "calm K env env' \<longleftrightarrow> h_fds env' = h_fds env \<and> keeps K (h_kernel env) (h_kernel env')"

lemma calm_trans: "calm K e1 e2 \<Longrightarrow> calm K e2 e3 \<Longrightarrow> calm K e1 e3"
  unfolding calm_def using keeps_trans by metis

lemma ctl_keeps: "flags_ok K E \<Longrightarrow> ep_ctl E op fd ev k = (ok, k') \<Longrightarrow> keeps K k k'"
  unfolding flags_ok_def by blast

lemma event_keeps:
  assumes "flags_ok K E"
  shows "addEvent E s f st fd event cb io k = Inr (b, io', k') \<Longrightarrow> keeps K k k'"
    and "cancelEvent E fd event io k = Inr (b', reqs, io', k') \<Longrightarrow> keeps K k k'"
    and "cancelAll E fd io k = Inr (b', reqs, io', k') \<Longrightarrow> keeps K k k'"
proof -
  have ctl: "keeps K k (snd (ep_ctl E op fd ev k))" for op fd ev by (rule ctl_keeps [OF assms prod.collapse [symmetric]])
  show "addEvent E s f st fd event cb io k = Inr (b, io', k') \<Longrightarrow> keeps K k k'"
    unfolding addEvent_def Let_def by (auto simp: outcome_simps case_prod_unfold ctl split: if_split_asm option.split_asm)
  show "cancelEvent E fd event io k = Inr (b', reqs, io', k') \<Longrightarrow> keeps K k k'"
    unfolding cancelEvent_def Let_def by (auto simp: outcome_simps case_prod_unfold ctl split: if_split_asm)
  show "cancelAll E fd io k = Inr (b', reqs, io', k') \<Longrightarrow> keeps K k k'"
    unfolding cancelAll_def Let_def by (auto simp: outcome_simps case_prod_unfold ctl split: if_split_asm)
qed

lemma call_once_calm: "call_once f env = (out, env') \<Longrightarrow> keeping K f \<Longrightarrow> calm K env env'"
  by (auto simp: call_once_def calm_def keeping_def split: prod.splits)

lemma timer_calm:
  "arm_timeout timeout fd event now p ti env = (timer, env') \<Longrightarrow> h_fds env' = h_fds env \<and> h_kernel env' = h_kernel env"
  "cancel_timeout timer env = Inr env' \<Longrightarrow> h_fds env' = h_fds env \<and> h_kernel env' = h_kernel env"
  "sleep_for ms now p fiber env = Inr (out, env') \<Longrightarrow> h_fds env' = h_fds env \<and> h_kernel env' = h_kernel env"
  by (auto simp: arm_timeout_def cancel_timeout_def sleep_for_def Let_def outcome_simps split: prod.splits if_splits option.splits)

text \<open>
  What a hooked call leaves, from its original: nothing open is closed or made blocking, and the result of a call that
  opens a socket is a new one.
\<close>

definition io_effect :: "'k kernel \<Rightarrow> 'k syscall \<Rightarrow> outcome \<Rightarrow> 'k \<Rightarrow> 'k \<Rightarrow> bool" where
  "io_effect K func out k k' \<longleftrightarrow> (keeping K func \<longrightarrow> keeps K k k') \<and>
     (opens_socket K func \<longrightarrow> (\<forall>n e. out = Returned n e \<longrightarrow> - 1 \<le> n \<and>
        (n \<noteq> - 1 \<longrightarrow> \<not> open_fd K n k \<and> k_fstat K n k' = Some True)))"

lemma io_call_effect: "io_call func k = Some (n, e, k') \<Longrightarrow> io_effect K func (Returned n e) k k'"
  using io_call_keeps [of func k n e k' K] io_call_opens [of func k n e k' K] by (auto simp: io_effect_def)

lemma call_once_effect: "call_once func env = (out, env') \<Longrightarrow>
    h_fds env' = h_fds env \<and> io_effect K func out (h_kernel env) (h_kernel env')"
  by (auto simp: call_once_def io_effect_def keeping_def opens_socket_def split: prod.splits)

lemma io_effect_later:
  assumes "io_effect K func (Returned n e) k k'" "keeps K k' k''" "out = Suspended t \<or> out = Returned n e'"
  shows "io_effect K func out k k''"
proof -
  have "k_fstat K n k'' = Some True" if "k_fstat K n k' = Some True"
    using keepsD [OF assms(2), of n] that by (simp add: open_fd_def)
  with assms keeps_trans [OF _ assms(2)] show ?thesis by (auto simp: io_effect_def)
qed

lemma io_effect_none: "io_effect K func (Returned (- 1) e) k k"
  by (simp add: io_effect_def)

lemma do_io_retry_effect:
  assumes E: "flags_ok K E"
    and run: "do_io_retry E fd func event timeout now p ti fiber env = Some (Inr (out, env'))"
  shows "h_fds env' = h_fds env \<and> io_effect K func out (h_kernel env) (h_kernel env')"
proof -
  from run obtain n e k' where call: "io_call func (h_kernel env) = Some (n, e, k')"
    by (auto simp: do_io_retry_def split: option.splits)
  note eff = io_call_effect [OF call, of K]
  show ?thesis
  proof (cases "n = - 1 \<and> e = EAGAIN")
    case False
    with run call eff show ?thesis by (auto simp: do_io_retry_def)
  next
    case True
    obtain timer env1 where arm: "arm_timeout timeout fd event now p ti (env\<lparr>h_kernel := k'\<rparr>) = (timer, env1)" by fastforce
    note a = timer_calm(1) [OF arm]
    from run call True arm obtain b io k'' where
      add: "addEvent E (h_iom env) fiber RUNNING fd event None (h_io env1) (h_kernel env1) = Inr (b, io, k'')"
      and env': "h_fds env' = h_fds env1" "h_kernel env' = k''" "out = Suspended timer \<or> out = Returned n e"
      by (auto simp: do_io_retry_def outcome_simps Let_def dest!: timer_calm(2) split: if_split_asm)
    then have "keeps K k' k''" using event_keeps(1) [OF E add] a by simp
    with io_effect_later [OF eff this env'(3)] env' a show ?thesis by simp
  qed
qed

lemma do_io_effect:
  assumes "flags_ok K E" "do_io K E fd func event so now p ti fiber env = Some (Inr (out, env'))"
  shows "h_fds env' = h_fds env \<and> io_effect K func out (h_kernel env) (h_kernel env')"
  using assms(2) call_once_effect [of func env out env' K] do_io_retry_effect [OF assms(1)] io_effect_none
  by (fastforce simp: do_io_def split: if_split_asm sum.splits option.splits)

lemma do_io_resume_effect:
  assumes "flags_ok K E" "do_io_resume E fd func event timeout now p ti fiber timer env = Some (Inr (out, env'))"
  shows "h_fds env' = h_fds env \<and> io_effect K func out (h_kernel env) (h_kernel env')"
proof -
  from assms(2) obtain env1 where c: "cancel_timeout timer env = Inr env1"
    by (auto simp: do_io_resume_def split: sum.splits)
  note t = timer_calm(2) [OF c]
  from assms(2) c obtain m where m: "h_tinfo env1 ti = Some m" by (auto simp: do_io_resume_def split: option.splits)
  show ?thesis
  proof (cases "m = 0")
    case True
    with assms(2) c m do_io_retry_effect [OF assms(1)] t show ?thesis by (fastforce simp: do_io_resume_def)
  next
    case False
    with assms(2) c m t io_effect_none [of K func m] show ?thesis by (auto simp: do_io_resume_def io_effect_def)
  qed
qed

lemma connect_calm:
  assumes E: "flags_ok K E" and f: "keeping K connect_f"
    and run: "connect_with_timeout K E fd connect_f so_error timeoutMs now p ti fiber env = Inr (out, env')"
  shows "calm K env env'"
proof -
  obtain n e k' where call: "connect_f (h_kernel env) = (n, e, k')" by (metis prod_cases3)
  then have k': "keeps K (h_kernel env) k'" using f by (simp add: keeping_def)
  let ?env = "env\<lparr>h_kernel := k', h_tinfo := (h_tinfo env)(ti \<mapsto> 0)\<rparr>"
  obtain timer env1 where arm: "arm_timeout timeoutMs fd WRITE now p ti ?env = (timer, env1)" by fastforce
  note a = timer_calm(1) [OF arm]
  obtain c x where get: "t_hook_enable env \<Longrightarrow> FdManager_get K fd False (h_fds env) (h_kernel env) = Inr (c, x)"
    using run by (cases "t_hook_enable env") (auto simp: connect_with_timeout_def outcome_simps)
  consider (once) "call_once connect_f env = (out, env')"
    | (same) "h_fds env' = h_fds env" "h_kernel env' = h_kernel env \<or> h_kernel env' = k'"
    | (wait) ctx where "t_hook_enable env" "c = Some ctx" "\<not> m_isClosed ctx" "\<not> (\<not> m_isSocket ctx \<or> m_userNonBlock ctx)"
        "n = - 1" "e = EINPROGRESS" "h_iom env \<noteq> 0"
  proof (cases "t_hook_enable env")
    case True
    note g = get [OF True]
    show ?thesis
    proof (cases c)
      case None
      with run True g that(2) show ?thesis by (simp add: connect_with_timeout_def)
    next
      case (Some ctx)
      show ?thesis
      proof (cases "m_isClosed ctx \<or> (\<not> m_isSocket ctx \<or> m_userNonBlock ctx) \<or> n = 0 \<or> (n \<noteq> - 1 \<or> e \<noteq> EINPROGRESS) \<or> h_iom env = 0")
        case False
        with that(3) [of ctx] True Some show ?thesis by blast
      next
        case stop: True
        then have "call_once connect_f env = (out, env') \<or>
            h_fds env' = h_fds env \<and> (h_kernel env' = h_kernel env \<or> h_kernel env' = k')"
          using run True g Some call
          by (elim disjE) (simp_all add: connect_with_timeout_def Let_def split: if_split_asm, safe, simp_all)
        with that(1,2) show ?thesis by blast
      qed
    qed
  qed (use run in \<open>simp add: connect_with_timeout_def\<close>)
  then show ?thesis
  proof cases
    case once
    then show ?thesis using call_once_calm f by blast
  next
    case same
    then show ?thesis using k' by (auto simp: calm_def)
  next
    case (wait ctx)
    let ?add = "addEvent E (h_iom env) fiber RUNNING fd WRITE None (h_io env1) (h_kernel env1)"
    have r: "rbind ?add (\<lambda>(b, io, k'').
        let ret = (if b then 1 else 0 :: int); env2 = env1\<lparr>h_io := io, h_kernel := k''\<rparr>
        in if ret = 0 then Inr (Suspended timer, env2)
           else rbind (cancel_timeout timer env2) (\<lambda>env3.
             Inr (connect_result (so_error k''), env3\<lparr>h_tinfo := (h_tinfo env3)(ti := None)\<rparr>))) = Inr (out, env')"
      using run wait get [OF wait(1)] call arm by (simp add: connect_with_timeout_def)
    obtain b io k'' where add: "?add = Inr (b, io, k'')" using r by (cases ?add) auto
    let ?env2 = "env1\<lparr>h_io := io, h_kernel := k''\<rparr>"
    have env': "h_fds env' = h_fds env1" "h_kernel env' = k''"
    proof -
      have "env' = ?env2 \<or> (\<exists>env3. cancel_timeout timer ?env2 = Inr env3 \<and> env' = env3\<lparr>h_tinfo := (h_tinfo env3)(ti := None)\<rparr>)"
        using r unfolding add by (cases b) (auto simp: rbind_eq_Inr)
      then show "h_fds env' = h_fds env1" "h_kernel env' = k''"
        using timer_calm(2) [of timer ?env2] by fastforce+
    qed
    with event_keeps(1) [OF E add] a keeps_trans [OF k'] show ?thesis by (simp add: calm_def)
  qed
qed

lemma connect_resume_calm:
  "connect_resume so_error ti timer env = Inr (out, env') \<Longrightarrow> calm K env env'"
  by (auto simp: connect_resume_def outcome_simps calm_def dest!: timer_calm(2) split: option.split_asm)

lemma sleep_calm:
  assumes "keeping K f"
  shows "hook_sleep f s now p fiber env = Inr (out, env') \<Longrightarrow> calm K env env'"
    and "hook_usleep f us now p fiber env = Inr (out, env') \<Longrightarrow> calm K env env'"
    and "hook_nanosleep f sec nsec now p fiber env = Inr (out, env') \<Longrightarrow> calm K env env'"
proof -
  have "calm K env env'" if "sleep_for ms now p fiber env = Inr (out, env')" for ms
    using timer_calm(3) [OF that] by (simp add: calm_def)
  with call_once_calm [OF _ assms]
  show "hook_sleep f s now p fiber env = Inr (out, env') \<Longrightarrow> calm K env env'"
    "hook_usleep f us now p fiber env = Inr (out, env') \<Longrightarrow> calm K env env'"
    "hook_nanosleep f sec nsec now p fiber env = Inr (out, env') \<Longrightarrow> calm K env env'"
    by (auto simp: hook_sleep_def hook_usleep_def hook_nanosleep_def split: if_split_asm)
qed

lemma io_timeout_calm:
  assumes "flags_ok K E" "io_timeout E ti fd event env = Inr (reqs, env')"
  shows "calm K env env'"
  using assms(2) event_keeps(2) [OF assms(1)]
  by (auto simp: io_timeout_def outcome_simps calm_def Let_def split: option.split_asm if_split_asm)

section \<open>The table against the kernel\<close>

definition sock_ok :: "'k kernel \<Rightarrow> int \<Rightarrow> FdCtx \<Rightarrow> 'k \<Rightarrow> bool" where
  "sock_ok K fd ctx k \<longleftrightarrow> k_fstat K fd k = Some True \<and> nonblocking K fd k \<and>
     m_isSocket ctx \<and> \<not> m_isClosed ctx \<and> m_sysNonBlock ctx"

definition sock_inv :: "'k kernel \<Rightarrow> ('u, 'k) hook_env \<Rightarrow> bool" where
  "sock_inv K env \<longleftrightarrow> 64 \<le> length (h_fds env) \<and>
     (\<forall>fd ctx. fd_lookup (h_fds env) fd = Some ctx \<longrightarrow> sock_ok K fd ctx (h_kernel env))"

lemma sock_ok_keeps: "sock_ok K fd ctx k \<Longrightarrow> keeps K k k' \<Longrightarrow> sock_ok K fd ctx k'"
  using keepsD [of K k k' fd] by (auto simp: sock_ok_def open_fd_def)

lemma sock_ok_keeps_except: "sock_ok K g ctx k \<Longrightarrow> keeps_except K fd k k' \<Longrightarrow> g \<noteq> fd \<Longrightarrow> sock_ok K g ctx k'"
  by (auto simp: sock_ok_def open_fd_def keeps_except_def)

lemma calm_inv [inv_intros]: "sock_inv K env \<Longrightarrow> calm K env env' \<Longrightarrow> sock_inv K env'"
  unfolding sock_inv_def calm_def using sock_ok_keeps by metis

lemma setfl_ok:
  assumes "flags_ok K E" "k_setfl K fd fl k = (r, k')"
  shows "keeps_except K fd k k'" and "k_fstat K fd k' = k_fstat K fd k"
    and "open_fd K fd k \<Longrightarrow> nonblocking K fd k' \<longleftrightarrow> fl AND O_NONBLOCK \<noteq> 0"
  using assms unfolding flags_ok_def by blast+

lemma O_NONBLOCK_nonzero [simp]: "O_NONBLOCK \<noteq> 0"
  by (simp add: O_NONBLOCK_def)

text \<open>The context of a new socket.\<close>

lemma FdCtx_new_ok:
  assumes E: "flags_ok K E" and sock: "k_fstat K fd k = Some True" and new: "FdCtx_new K fd k = (c, k')"
  shows "keeps K k k'" and "sock_ok K fd c k'"
proof -
  let ?fl = "k_getfl K fd k"
  have c: "m_isSocket c \<and> \<not> m_isClosed c \<and> m_sysNonBlock c" using FdCtx_new_fields [of K fd k] sock new by simp
  have "keeps K k k' \<and> k_fstat K fd k' = Some True \<and> nonblocking K fd k'"
  proof (cases "nonblocking K fd k")
    case True
    with new sock show ?thesis by (auto simp: FdCtx_new_def FdCtx_init_def nonblocking_def Let_def)
  next
    case False
    obtain r k2 where set: "k_setfl K fd (?fl OR O_NONBLOCK) k = (r, k2)" by fastforce
    note s = setfl_ok [OF E set]
    have "k' = k2" using new sock False set by (auto simp: FdCtx_new_def FdCtx_init_def nonblocking_def Let_def)
    moreover have "nonblocking K fd k2" using s(3) sock by (simp add: open_fd_def)
    moreover have "keeps K k k2"
    proof (rule keepsI)
      fix g
      assume "open_fd K g k"
      then show "k_fstat K g k2 = k_fstat K g k \<and> (nonblocking K g k \<longrightarrow> nonblocking K g k2)"
        using s(1,2) False by (cases "g = fd") (auto simp: keeps_except_def)
    qed
    ultimately show ?thesis using s(2) sock by simp
  qed
  with c show "keeps K k k'" "sock_ok K fd c k'" by (simp_all add: sock_ok_def)
qed

lemma track_fd_inv:
  assumes E: "flags_ok K E" and inv: "sock_inv K env" and sock: "k_fstat K fd (h_kernel env) = Some True" "0 \<le> fd"
    and run: "track_fd K fd env = Inr env'"
  shows "sock_inv K env'"
proof (cases "fd_lookup (h_fds env) fd")
  case (Some c)
  then have "FdManager_get K fd True (h_fds env) (h_kernel env) = Inr (Some c, h_fds env, h_kernel env)"
    by (auto simp: fd_lookup_def FdManager_get_def split: if_splits)
  with run inv show ?thesis by (auto simp: track_fd_def sock_inv_def)
next
  case None
  obtain c k' where new: "FdCtx_new K fd (h_kernel env) = (c, k')" by fastforce
  have len: "64 \<le> length (h_fds env)" using inv by (simp add: sock_inv_def)
  obtain ds where ds: "FdManager_create K fd (h_fds env) (h_kernel env) = Inr (Some c, ds, k')" "length (h_fds env) \<le> length ds"
    "fd_lookup ds fd = Some c" "\<forall>g. g \<noteq> fd \<longrightarrow> fd_lookup ds g = fd_lookup (h_fds env) g"
    using FdManager_create_spec [OF len sock(2) new] by blast
  have "FdManager_get K fd True (h_fds env) (h_kernel env) = FdManager_create K fd (h_fds env) (h_kernel env)"
    using None sock(2) by (auto simp: FdManager_get_def fd_lookup_def split: if_splits)
  with run ds(1) have env': "h_fds env' = ds" "h_kernel env' = k'" by (auto simp: track_fd_def)
  note ok = FdCtx_new_ok [OF E sock(1) new]
  have "sock_ok K g ctx k'" if "fd_lookup ds g = Some ctx" for g ctx
    using that ds(3,4) ok sock_ok_keeps [OF _ ok(1)] inv by (cases "g = fd") (auto simp: sock_inv_def)
  with env' ds(2) len show ?thesis by (simp add: sock_inv_def)
qed

section \<open>Every operation keeps the table in step\<close>

lemma hook_socket_inv:
  assumes E: "flags_ok K E" and f: "opens_socket K socket_f" and inv: "sock_inv K env"
    and run: "hook_socket K socket_f env = Inr (fd, env')"
  shows "sock_inv K env'"
proof -
  obtain n e k' where call: "socket_f (h_kernel env) = (n, e, k')" by (metis prod_cases3)
  then have o: "keeps K (h_kernel env) k'" "- 1 \<le> n" "n \<noteq> - 1 \<longrightarrow> k_fstat K n k' = Some True"
    using f unfolding opens_socket_def by blast+
  have inv1: "sock_inv K (env\<lparr>h_kernel := k'\<rparr>)" using calm_inv [OF inv] o(1) by (simp add: calm_def)
  show ?thesis
  proof (cases "\<not> t_hook_enable env \<or> n = - 1")
    case True
    with run call inv1 show ?thesis by (auto simp: hook_socket_def)
  next
    case False
    with run call have "track_fd K n (env\<lparr>h_kernel := k'\<rparr>) = Inr env'" by (auto simp: hook_socket_def rbind_eq_Inr)
    from track_fd_inv [OF E inv1 _ _ this] o False show ?thesis by simp
  qed
qed

lemma accept_finish_inv:
  fixes env :: "('u, 'k) hook_env" and r :: "(outcome \<times> ('u, 'k) hook_env) result option"
  assumes E: "flags_ok K E" and f: "opens_socket K accept_f" and inv: "sock_inv K env"
    and r: "\<And>out env1. r = Some (Inr (out, env1)) \<Longrightarrow>
      h_fds env1 = h_fds env \<and> io_effect K accept_f out (h_kernel env) (h_kernel env1)"
    and run: "accept_finish K r = Some (Inr (out, env'))"
  shows "sock_inv K env'"
proof -
  from run obtain out1 env1 where r1: "r = Some (Inr (out1, env1))"
    by (auto simp: accept_finish_def rbind_eq_Inr split: option.splits)
  note e = r [OF r1]
  then have "calm K env env1" using opens_keeping [OF f] by (simp add: calm_def io_effect_def)
  with inv have inv1: "sock_inv K env1" by (rule calm_inv)
  show ?thesis
  proof (cases out1)
    case (Suspended timer)
    with run r1 inv1 show ?thesis by (auto simp: accept_finish_def)
  next
    case (Returned n err)
    with run r1 have d: "accept_done K n env1 = Inr env'" by (auto simp: accept_finish_def rbind_eq_Inr)
    show ?thesis
    proof (cases "0 \<le> n")
      case True
      then have "k_fstat K n (h_kernel env1) = Some True" using e f Returned by (auto simp: io_effect_def)
      with track_fd_inv [OF E inv1] True d show ?thesis by (simp add: accept_done_def)
    qed (use d inv1 in \<open>simp add: accept_done_def\<close>)
  qed
qed

text \<open>Writing a context back keeps the table in step as long as the socket still is.\<close>

lemma put_fdctx_inv:
  assumes inv: "sock_inv K env" and ctx: "fd_lookup (h_fds env) fd = Some ctx"
    and k: "keeps_except K fd (h_kernel env) k'" "sock_ok K fd c k'"
  shows "sock_inv K (put_fdctx fd c (env\<lparr>h_kernel := k'\<rparr>))"
  using inv k sock_ok_keeps_except [OF _ k(1)]
  by (auto simp: sock_inv_def put_fdctx_def fd_lookup_update [OF ctx] split: if_splits)

lemma put_fdctx_call_inv:
  assumes inv: "sock_inv K env" and ctx: "fd_lookup (h_fds env) fd = Some ctx" and f: "keeping K func"
    and c: "m_isSocket c = m_isSocket ctx" "m_isClosed c = m_isClosed ctx" "m_sysNonBlock c = m_sysNonBlock ctx"
    and run: "call_once func (put_fdctx fd c env) = (out, env')"
  shows "sock_inv K env'"
proof -
  have "sock_ok K fd c (h_kernel env)" using inv ctx c by (auto simp: sock_inv_def sock_ok_def)
  then have "sock_inv K (put_fdctx fd c env)"
    using put_fdctx_inv [OF inv ctx, of "h_kernel env" c] by (simp add: keeps_except_def)
  with call_once_calm [OF run f] calm_inv show ?thesis by blast
qed

lemma fd_get_False: "FdManager_get K fd False fds k = Inr (c, x) \<Longrightarrow> c = fd_lookup fds fd"
  by (auto simp: FdManager_get_def fd_lookup_def split: if_splits)

lemma tracked_live: "sock_inv K env \<Longrightarrow> is_live_socket (fd_lookup (h_fds env) fd) \<longleftrightarrow> fd_lookup (h_fds env) fd \<noteq> None"
  by (auto simp: sock_inv_def sock_ok_def is_live_socket_def split: option.split)

lemma untracked_setfl_inv:
  assumes "flags_ok K E" "sock_inv K env" "fd_lookup (h_fds env) fd = None" "k_setfl K fd fl (h_kernel env) = (r, k')"
  shows "sock_inv K (env\<lparr>h_kernel := k'\<rparr>)"
  using assms(2,3) sock_ok_keeps_except [OF _ setfl_ok(1) [OF assms(1,4)]]
  by (auto simp: sock_inv_def) (metis option.distinct(1))

lemma fcntl_setfl_inv:
  assumes E: "flags_ok K E" and inv: "sock_inv K env" and run: "fcntl_setfl K fd arg env = Inr (r, env')"
  shows "sock_inv K env'"
proof (cases "fd_lookup (h_fds env) fd")
  case None
  with run tracked_live [OF inv, of fd] show ?thesis
    using untracked_setfl_inv [OF E inv None] by (auto simp: fcntl_setfl_def rbind_eq_Inr dest!: fd_get_False split: prod.splits)
next
  case (Some ctx)
  let ?k = "h_kernel env"
  have ok: "sock_ok K fd ctx ?k" using inv Some by (simp add: sock_inv_def)
  let ?c = "ctx\<lparr>m_userNonBlock := (arg AND O_NONBLOCK \<noteq> 0)\<rparr>"
  obtain k' where set: "k_setfl K fd (arg OR O_NONBLOCK) ?k = (r, k')" "env' = put_fdctx fd ?c (env\<lparr>h_kernel := k'\<rparr>)"
    using run Some ok tracked_live [OF inv, of fd] fd_get_known(1) [OF Some, of K ?k]
    by (auto simp: fcntl_setfl_def Let_def sock_ok_def split: prod.splits)
  note s = setfl_ok [OF E set(1)]
  have "sock_ok K fd ?c k'" using ok s(2,3) by (simp add: sock_ok_def open_fd_def)
  with put_fdctx_inv [OF inv Some s(1)] set(2) show ?thesis by simp
qed

lemma hook_fcntl_inv:
  assumes "flags_ok K E" "sock_inv K env" "\<And>cmd a. keeping K (fcntl_f cmd a)" "hook_fcntl K fcntl_f fd cmd arg env = Inr (n, env')"
  shows "sock_inv K env'"
proof -
  have orig: "sock_inv K env'"
    if "(case fcntl_f cmd a (h_kernel env) of (n, e, k') \<Rightarrow> Inr (n, env\<lparr>h_kernel := k'\<rparr>)) = Inr (n, env')" for a
    using that assms(3) [of cmd a] calm_inv [OF assms(2), of env']
    by (auto simp: keeping_def calm_def split: prod.splits)
  show ?thesis
    using assms(2,4) orig fcntl_setfl_inv [OF assms(1,2)]
    by (auto simp: hook_fcntl_def rbind_eq_Inr Let_def split: if_split_asm)
qed

lemma hook_ioctl_inv:
  assumes "sock_inv K env" "keeping K ioctl_f" "hook_ioctl K fd request val ioctl_f env = Inr (out, env')"
  shows "sock_inv K env'"
proof -
  have once: "call_once ioctl_f env = (out, env') \<Longrightarrow> sock_inv K env'" using call_once_calm assms(1,2) calm_inv by blast
  show ?thesis
  proof (cases "fd_lookup (h_fds env) fd")
    case None
    then show ?thesis using assms(3) once tracked_live [OF assms(1), of fd]
      by (auto simp: hook_ioctl_def ioctl_fionbio_def rbind_eq_Inr dest!: fd_get_False split: if_split_asm)
  next
    case (Some ctx)
    then show ?thesis
      using assms(3) once put_fdctx_call_inv [OF assms(1) Some assms(2), of "ctx\<lparr>m_userNonBlock := val \<noteq> 0\<rparr>"]
      by (auto simp: hook_ioctl_def ioctl_fionbio_def fd_get_known(1) [OF Some] split: if_split_asm)
  qed
qed

lemma hook_setsockopt_inv:
  assumes "sock_inv K env" "keeping K f" "hook_setsockopt K fd level optname sec usec f env = Inr (out, env')"
  shows "sock_inv K env'"
proof -
  have once: "call_once f env = (out, env') \<Longrightarrow> sock_inv K env'" using call_once_calm assms(1,2) calm_inv by blast
  show ?thesis
  proof (cases "fd_lookup (h_fds env) fd")
    case None
    then show ?thesis using assms(3) once
      by (auto simp: hook_setsockopt_def setsockopt_timeout_def rbind_eq_Inr dest!: fd_get_False split: if_split_asm option.split_asm)
  next
    case (Some ctx)
    then show ?thesis
      using assms(3) once put_fdctx_call_inv [OF assms(1) Some assms(2), of "setTimeout optname (word_of_int (sec * 1000 + usec sdiv 1000)) ctx"]
      by (auto simp: hook_setsockopt_def setsockopt_timeout_def fd_get_known(1) [OF Some] setTimeout_def split: if_split_asm)
  qed
qed

lemma FdManager_del_lookup:
  "FdManager_del fd fds = Inr fds' \<Longrightarrow> 0 \<le> fd \<Longrightarrow> length fds' = length fds \<and>
     (\<forall>g. fd_lookup fds' g = (if g = fd then None else fd_lookup fds g))"
  by (auto simp: FdManager_del_def fd_lookup_def nth_list_update split: if_split_asm)

lemma hook_close_inv:
  assumes E: "flags_ok K E" and inv: "sock_inv K env" and en: "t_hook_enable env" and f: "closes K fd close_f"
    and run: "hook_close K E fd close_f env = Inr (out, reqs, env')"
  shows "sock_inv K env'"
proof -
  have after: "sock_inv K env'"
    if "sock_inv K env1" "fd_lookup (h_fds env1) fd = None" "call_once close_f env1 = (out, env')" for env1
  proof -
    from that(3) have "h_fds env' = h_fds env1" "keeps_except K fd (h_kernel env1) (h_kernel env')"
      using f by (auto simp: call_once_def closes_def split: prod.splits)
    with that(1,2) sock_ok_keeps_except [OF _ this(2)] show ?thesis by (auto simp: sock_inv_def) (metis option.distinct(1))
  qed
  show ?thesis
  proof (cases "fd_lookup (h_fds env) fd")
    case None
    then have "call_once close_f env = (out, env')"
      using run en by (auto simp: hook_close_def rbind_eq_Inr Let_def dest!: fd_get_False split: prod.splits if_split_asm)
    with after [OF inv None] show ?thesis by simp
  next
    case (Some ctx)
    note known = fd_get_known [OF Some]
    let ?k = "h_kernel env"
    let ?cancel = "if h_iom env \<noteq> 0 then cancelAll E fd (h_io env) ?k else Inr (False, [], h_io env, ?k)"
    have r: "rbind ?cancel (\<lambda>(b, reqs, io, k'). rbind (FdManager_del fd (h_fds env)) (\<lambda>fds.
        case call_once close_f (env\<lparr>h_io := io, h_kernel := k', h_fds := fds\<rparr>) of (out, env') \<Rightarrow> Inr (out, reqs, env'))) =
        Inr (out, reqs, env')"
      using run en by (simp add: hook_close_def known(1))
    obtain b reqs' io k' where c: "?cancel = Inr (b, reqs', io, k')" using r by (cases ?cancel) auto
    obtain fds where d: "FdManager_del fd (h_fds env) = Inr fds" using r unfolding c by (auto simp: rbind_eq_Inr)
    have last: "call_once close_f (env\<lparr>h_io := io, h_kernel := k', h_fds := fds\<rparr>) = (out, env')"
      using r unfolding c d by (auto split: prod.splits)
    have k': "keeps K ?k k'" using c event_keeps(3) [OF E] by (auto split: if_split_asm)
    note del = FdManager_del_lookup [OF d known(2)]
    have "sock_inv K (env\<lparr>h_io := io, h_kernel := k', h_fds := fds\<rparr>)"
      using inv del sock_ok_keeps [OF _ k'] by (auto simp: sock_inv_def)
    with after [OF this _ last] del show ?thesis by simp
  qed
qed

section \<open>The steps of the program\<close>

text \<open>
  Any hooked call by any thread, on any descriptor, up to the point where its fiber yields, and what is left of it when its
  fiber runs again; hooks may be switched on and off, and threads with other managers take turns. Two things are left out:
  closing with the hooks off, and an \<^verbatim>\<open>ioctl(FIONBIO)\<close> with the value 0 that makes the descriptor blocking (its original
  is not \<open>keeping\<close>). A step is labelled with what the program says about blocking: a socket is opened, which
  blocks as far as the program knows, or it is asked to block or not.
\<close>

datatype ask = Quiet | Opened int | Asked int bool

definition returned_fd :: "outcome \<Rightarrow> ask" where
  "returned_fd out = (case out of Returned n e \<Rightarrow> Opened n | Suspended _ \<Rightarrow> Quiet)"

inductive fd_act :: "'k kernel \<Rightarrow> 'k epoll \<Rightarrow> ask \<Rightarrow> ('u, 'k) hook_env \<Rightarrow> ('u, 'k) hook_env \<Rightarrow> bool" for K E where
  fd_enable: "fd_act K E Quiet env (set_hook_enable flag env)"
| fd_thread: "fd_act K E Quiet env (env\<lparr>t_hook_enable := flag, h_iom := iom, h_io := io\<rparr>)"
| fd_socket: "hook_socket K f env = Inr (fd, env') \<Longrightarrow> opens_socket K f \<Longrightarrow> fd_act K E (Opened fd) env env'"
| fd_accept: "hook_accept K E fd f now p ti fiber env = Some (Inr (out, env')) \<Longrightarrow> opens_socket K f \<Longrightarrow> fd_act K E (returned_fd out) env env'"
| fd_accept_resume: "hook_accept_resume K E fd f timeout now p ti fiber timer env = Some (Inr (out, env')) \<Longrightarrow>
     opens_socket K f \<Longrightarrow> fd_act K E (returned_fd out) env env'"
| fd_io: "hook_io K E fn fd f now p ti fiber env = Some (Inr (out, env')) \<Longrightarrow> keeping K f \<Longrightarrow> fd_act K E Quiet env env'"
| fd_io_resume: "do_io_resume E fd f event timeout now p ti fiber timer env = Some (Inr (out, env')) \<Longrightarrow> keeping K f \<Longrightarrow>
     fd_act K E Quiet env env'"
| fd_connect: "connect_with_timeout K E fd f so_error timeout now p ti fiber env = Inr (out, env') \<Longrightarrow> keeping K f \<Longrightarrow>
     fd_act K E Quiet env env'"
| fd_connect_resume: "connect_resume so_error ti timer env = Inr (out, env') \<Longrightarrow> fd_act K E Quiet env env'"
| fd_timeout: "io_timeout E ti fd event env = Inr (reqs, env') \<Longrightarrow> fd_act K E Quiet env env'"
| fd_sleep: "hook_sleep f s now p fiber env = Inr (out, env') \<Longrightarrow> keeping K f \<Longrightarrow> fd_act K E Quiet env env'"
| fd_usleep: "hook_usleep f us now p fiber env = Inr (out, env') \<Longrightarrow> keeping K f \<Longrightarrow> fd_act K E Quiet env env'"
| fd_nanosleep: "hook_nanosleep f sec nsec now p fiber env = Inr (out, env') \<Longrightarrow> keeping K f \<Longrightarrow> fd_act K E Quiet env env'"
| fd_close: "hook_close K E fd f env = Inr (out, reqs, env') \<Longrightarrow> t_hook_enable env \<Longrightarrow> closes K fd f \<Longrightarrow> fd_act K E Quiet env env'"
| fd_fcntl: "hook_fcntl K g fd cmd arg env = Inr (n, env') \<Longrightarrow> (\<And>cmd a. keeping K (g cmd a)) \<Longrightarrow> fd_act K E (if cmd = F_SETFL then Asked fd ((ucast arg :: u32) AND O_NONBLOCK \<noteq> 0) else Quiet) env env'"
| fd_ioctl: "hook_ioctl K fd request val f env = Inr (out, env') \<Longrightarrow> keeping K f \<Longrightarrow> fd_act K E (if request = FIONBIO then Asked fd (val \<noteq> 0) else Quiet) env env'"
| fd_getsockopt: "hook_getsockopt f env = (out, env') \<Longrightarrow> keeping K f \<Longrightarrow> fd_act K E Quiet env env'"
| fd_setsockopt: "hook_setsockopt K fd level optname sec usec f env = Inr (out, env') \<Longrightarrow> keeping K f \<Longrightarrow> fd_act K E Quiet env env'"

definition fd_step :: "'k kernel \<Rightarrow> 'k epoll \<Rightarrow> ('u, 'k) hook_env \<Rightarrow> ('u, 'k) hook_env \<Rightarrow> bool" where
  "fd_step K E env env' \<longleftrightarrow> (\<exists>act. fd_act K E act env env')"

text \<open>The same steps beside a record of what the program last said about each descriptor.\<close>

fun note_ask :: "ask \<Rightarrow> (int \<Rightarrow> bool) \<Rightarrow> int \<Rightarrow> bool" where
  "note_ask Quiet asked = asked"
| "note_ask (Opened fd) asked = asked(fd := False)"
| "note_ask (Asked fd b) asked = asked(fd := b)"

definition ask_step :: "'k kernel \<Rightarrow> 'k epoll \<Rightarrow> ('u, 'k) hook_env \<times> (int \<Rightarrow> bool) \<Rightarrow> ('u, 'k) hook_env \<times> (int \<Rightarrow> bool) \<Rightarrow> bool" where
  "ask_step K E x y \<longleftrightarrow> (\<exists>act. fd_act K E act (fst x) (fst y) \<and> snd y = note_ask act (snd x))"

lemma fd_act_inv:
  assumes E: "flags_ok K E" and inv: "sock_inv K env" and step: "fd_act K E act env env'"
  shows "sock_inv K env'"
proof -
  have io: "sock_inv K env'"
    if "h_fds env' = h_fds env \<and> io_effect K f out (h_kernel env) (h_kernel env')" "keeping K f" for f out
    using calm_inv [OF inv, of env'] that by (simp add: calm_def io_effect_def)
  from step show ?thesis
  proof cases
    case (fd_enable flag)
    then show ?thesis using inv by (simp add: sock_inv_def set_hook_enable_def)
  next
    case (fd_thread flag iom io)
    then show ?thesis using inv by (simp add: sock_inv_def)
  next
    case (fd_socket f fd)
    then show ?thesis using hook_socket_inv [OF E _ inv] by blast
  next
    case (fd_accept fd f now p ti fiber out)
    then show ?thesis
      using accept_finish_inv [OF E fd_accept(3) inv do_io_effect [OF E]] by (simp add: hook_accept_def hook_io_def)
  next
    case (fd_accept_resume fd f timeout now p ti fiber timer out)
    then show ?thesis
      using accept_finish_inv [OF E fd_accept_resume(3) inv do_io_resume_effect [OF E]] by (simp add: hook_accept_resume_def)
  next
    case (fd_io fn fd f now p ti fiber out)
    then show ?thesis using io do_io_effect [OF E] by (fastforce simp: hook_io_def split: prod.splits)
  next
    case (fd_io_resume fd f event timeout now p ti fiber timer out)
    then show ?thesis using io do_io_resume_effect [OF E] by blast
  next
    case (fd_close fd f out reqs)
    then show ?thesis using hook_close_inv [OF E inv] by blast
  next
    case (fd_fcntl g fd cmd arg n)
    then show ?thesis using hook_fcntl_inv [OF E inv] by blast
  next
    case (fd_ioctl fd request val f out)
    then show ?thesis using hook_ioctl_inv [OF inv] by blast
  next
    case (fd_getsockopt f out)
    then show ?thesis using call_once_calm calm_inv [OF inv] by (metis hook_getsockopt_def)
  next
    case (fd_setsockopt fd level optname sec usec f out)
    then show ?thesis using hook_setsockopt_inv [OF inv] by blast
  next
    case fd_connect
    show ?thesis by (rule calm_inv [OF inv connect_calm [OF E fd_connect(3,2)]])
  next
    case fd_connect_resume
    show ?thesis by (rule calm_inv [OF inv connect_resume_calm [OF fd_connect_resume(2)]])
  next
    case fd_timeout
    show ?thesis by (rule calm_inv [OF inv io_timeout_calm [OF E fd_timeout(2)]])
  next
    case fd_sleep
    show ?thesis by (rule calm_inv [OF inv sleep_calm(1) [OF fd_sleep(3,2)]])
  next
    case fd_usleep
    show ?thesis by (rule calm_inv [OF inv sleep_calm(2) [OF fd_usleep(3,2)]])
  next
    case fd_nanosleep
    show ?thesis by (rule calm_inv [OF inv sleep_calm(3) [OF fd_nanosleep(3,2)]])
  qed
qed

definition fd_init :: "('u, 'k) hook_env \<Rightarrow> bool" where
  "fd_init env \<longleftrightarrow> h_fds env = FdManager_new"

interpretation fd_machine: inductive_invariant "fd_init :: ('u, 'k) hook_env \<Rightarrow> bool" "fd_step K E"
    "\<lambda>env. flags_ok K E \<longrightarrow> sock_inv K env" for K E
proof unfold_locales
  fix env :: "('u, 'k) hook_env"
  assume "fd_init env"
  then show "flags_ok K E \<longrightarrow> sock_inv K env"
    by (auto simp: fd_init_def sock_inv_def FdManager_new_def fd_lookup_def nth_vec_resize split: if_splits)
next
  fix env env' :: "('u, 'k) hook_env"
  assume "flags_ok K E \<longrightarrow> sock_inv K env" "fd_step K E env env'"
  then show "flags_ok K E \<longrightarrow> sock_inv K env'" unfolding fd_step_def using fd_act_inv by blast
qed

section \<open>What the program asked for\<close>

definition user_flags :: "('u, 'k) hook_env \<Rightarrow> int \<Rightarrow> bool option" where
  "user_flags env fd = map_option m_userNonBlock (fd_lookup (h_fds env) fd)"

definition user_inv :: "('u, 'k) hook_env \<Rightarrow> (int \<Rightarrow> bool) \<Rightarrow> bool" where
  "user_inv env asked \<longleftrightarrow> (\<forall>fd b. user_flags env fd = Some b \<longrightarrow> b = asked fd)"

lemma user_flags_same: "h_fds env' = h_fds env \<Longrightarrow> user_flags env' = user_flags env"
  by (simp add: user_flags_def fun_eq_iff)

lemma calm_flags: "calm K env env' \<Longrightarrow> user_flags env' = user_flags env"
  by (rule user_flags_same) (simp add: calm_def)

lemma put_fdctx_flags:
  assumes "fd_lookup (h_fds env) fd = Some ctx"
  shows "user_flags (put_fdctx fd c env) = (user_flags env)(fd := Some (m_userNonBlock c))"
  by (rule ext) (simp add: user_flags_def put_fdctx_def fd_lookup_update [OF assms])

lemma closed_untracked: "sock_inv K env \<Longrightarrow> \<not> open_fd K fd (h_kernel env) \<Longrightarrow> user_flags env fd = None"
  by (cases "fd_lookup (h_fds env) fd") (auto simp: sock_inv_def sock_ok_def open_fd_def user_flags_def)

lemma negative_untracked: "fd < 0 \<Longrightarrow> user_flags env fd = None"
  by (simp add: user_flags_def fd_lookup_def)

lemma track_fd_flags:
  assumes len: "64 \<le> length (h_fds env)" and new: "user_flags env fd = None" "0 \<le> fd" and run: "track_fd K fd env = Inr env'"
  shows "user_flags env' = (user_flags env)(fd := Some False)"
proof -
  obtain c k' where c: "FdCtx_new K fd (h_kernel env) = (c, k')" by fastforce
  obtain ds where ds: "FdManager_create K fd (h_fds env) (h_kernel env) = Inr (Some c, ds, k')"
    "fd_lookup ds fd = Some c" "\<forall>g. g \<noteq> fd \<longrightarrow> fd_lookup ds g = fd_lookup (h_fds env) g"
    using FdManager_create_spec [OF len new(2) c] by blast
  have "FdManager_get K fd True (h_fds env) (h_kernel env) = FdManager_create K fd (h_fds env) (h_kernel env)"
    using new by (auto simp: user_flags_def FdManager_get_def fd_lookup_def split: if_splits)
  with run ds(1) have "h_fds env' = ds" by (auto simp: track_fd_def)
  moreover have "\<not> m_userNonBlock c" using FdCtx_new_fields(2) [of K fd "h_kernel env"] c by simp
  ultimately show ?thesis using ds(2,3) by (auto simp: user_flags_def)
qed

text \<open>A socket that was opened just now is not tracked yet, and the program has not asked for anything.\<close>

lemma opened_user_inv:
  assumes "user_inv env asked" "user_flags env fd = None" "user_flags env' = user_flags env \<or> user_flags env' = (user_flags env)(fd := Some False)"
  shows "user_inv env' (asked(fd := False))"
  using assms by (auto simp: user_inv_def)

lemma hook_socket_flags:
  assumes f: "opens_socket K socket_f" and inv: "sock_inv K env" and run: "hook_socket K socket_f env = Inr (fd, env')"
  shows "user_flags env fd = None \<and> (user_flags env' = user_flags env \<or> user_flags env' = (user_flags env)(fd := Some False))"
proof -
  obtain n e k' where call: "socket_f (h_kernel env) = (n, e, k')" by (metis prod_cases3)
  then have o: "- 1 \<le> n" "n \<noteq> - 1 \<longrightarrow> \<not> open_fd K n (h_kernel env)"
    using f unfolding opens_socket_def by blast+
  have fd: "fd = n" using run call by (auto simp: hook_socket_def Let_def rbind_eq_Inr split: if_splits)
  have none: "user_flags env n = None" using closed_untracked [OF inv, of n] negative_untracked [of n env] o by auto
  have same: "user_flags (env\<lparr>h_kernel := k'\<rparr>) = user_flags env" by (rule user_flags_same) simp
  show ?thesis
  proof (cases "\<not> t_hook_enable env \<or> n = - 1")
    case True
    with run call none same fd show ?thesis by (auto simp: hook_socket_def)
  next
    case False
    with run call have "track_fd K n (env\<lparr>h_kernel := k'\<rparr>) = Inr env'" by (auto simp: hook_socket_def rbind_eq_Inr)
    from track_fd_flags [OF _ _ _ this] none same fd False o inv show ?thesis by (simp add: sock_inv_def)
  qed
qed

lemma accept_finish_flags:
  fixes env :: "('u, 'k) hook_env" and r :: "(outcome \<times> ('u, 'k) hook_env) result option"
  assumes f: "opens_socket K accept_f" and inv: "sock_inv K env" and user: "user_inv env asked"
    and r: "\<And>out env1. r = Some (Inr (out, env1)) \<Longrightarrow>
      h_fds env1 = h_fds env \<and> io_effect K accept_f out (h_kernel env) (h_kernel env1)"
    and run: "accept_finish K r = Some (Inr (out, env'))"
  shows "user_inv env' (note_ask (returned_fd out) asked)"
proof -
  from run obtain out1 env1 where r1: "r = Some (Inr (out1, env1))"
    by (auto simp: accept_finish_def rbind_eq_Inr split: option.splits)
  note e = r [OF r1]
  then have same: "user_flags env1 = user_flags env" by (intro user_flags_same) simp
  show ?thesis
  proof (cases out1)
    case (Suspended timer)
    with run r1 same user show ?thesis by (auto simp: accept_finish_def returned_fd_def user_inv_def)
  next
    case (Returned n err)
    with run r1 have d: "accept_done K n env1 = Inr env'" "out = Returned n err"
      by (auto simp: accept_finish_def rbind_eq_Inr)
    have o: "- 1 \<le> n" "n \<noteq> - 1 \<longrightarrow> \<not> open_fd K n (h_kernel env)" using e f Returned by (auto simp: io_effect_def)
    have none: "user_flags env n = None" using closed_untracked [OF inv, of n] negative_untracked [of n env] o by auto
    have "user_flags env' = user_flags env \<or> user_flags env' = (user_flags env)(n := Some False)"
    proof (cases "0 \<le> n")
      case True
      with track_fd_flags [of env1 n K env'] none same d(1) e inv show ?thesis
        by (simp add: accept_done_def sock_inv_def)
    qed (use d(1) same in \<open>simp add: accept_done_def\<close>)
    with opened_user_inv [OF user none] d(2) show ?thesis by (simp add: returned_fd_def)
  qed
qed

lemma fcntl_setfl_flags:
  assumes inv: "sock_inv K env" and run: "fcntl_setfl K fd arg env = Inr (r, env')"
  shows "user_flags env' = (if user_flags env fd = None then user_flags env
    else (user_flags env)(fd := Some (arg AND O_NONBLOCK \<noteq> 0)))"
proof (cases "fd_lookup (h_fds env) fd")
  case None
  with run tracked_live [OF inv, of fd] have "h_fds env' = h_fds env"
    by (auto simp: fcntl_setfl_def rbind_eq_Inr dest!: fd_get_False split: prod.splits)
  with None show ?thesis using user_flags_same [of env' env] by (simp add: user_flags_def)
next
  case (Some ctx)
  then obtain k' where "env' = put_fdctx fd (ctx\<lparr>m_userNonBlock := (arg AND O_NONBLOCK \<noteq> 0)\<rparr>) (env\<lparr>h_kernel := k'\<rparr>)"
    using run tracked_live [OF inv, of fd] fd_get_known(1) [OF Some, of K "h_kernel env"]
    by (auto simp: fcntl_setfl_def Let_def split: prod.splits)
  with Some show ?thesis
    using put_fdctx_flags [of "env\<lparr>h_kernel := k'\<rparr>" fd ctx] user_flags_same [of "env\<lparr>h_kernel := k'\<rparr>" env]
    by (simp add: user_flags_def)
qed

lemma hook_fcntl_flags:
  assumes "sock_inv K env" "hook_fcntl K fcntl_f fd cmd arg env = Inr (n, env')"
  shows "user_flags env' = (if cmd = F_SETFL \<and> user_flags env fd \<noteq> None
    then (user_flags env)(fd := Some ((ucast arg :: u32) AND O_NONBLOCK \<noteq> 0)) else user_flags env)"
proof (cases "cmd = F_SETFL")
  case True
  with assms fcntl_setfl_flags [OF assms(1), of fd "ucast arg" n env'] show ?thesis by (simp add: hook_fcntl_def)
next
  case False
  with assms(2) have "h_fds env' = h_fds env"
    by (auto simp: hook_fcntl_def rbind_eq_Inr Let_def split: if_split_asm prod.splits)
  then have "user_flags env' = user_flags env" by (rule user_flags_same)
  with False show ?thesis by simp
qed

lemma call_once_flags: "call_once f env = (out, env') \<Longrightarrow> user_flags env' = user_flags env"
  by (auto simp: call_once_def user_flags_def split: prod.splits)

lemma hook_ioctl_flags:
  assumes "sock_inv K env" "hook_ioctl K fd request val ioctl_f env = Inr (out, env')"
  shows "user_flags env' = (if request = FIONBIO \<and> user_flags env fd \<noteq> None
    then (user_flags env)(fd := Some (val \<noteq> 0)) else user_flags env)"
proof (cases "fd_lookup (h_fds env) fd")
  case None
  then have "call_once ioctl_f env = (out, env')"
    using assms(2) tracked_live [OF assms(1), of fd]
    by (auto simp: hook_ioctl_def ioctl_fionbio_def rbind_eq_Inr dest!: fd_get_False split: if_split_asm)
  with None show ?thesis using call_once_flags [of ioctl_f env out env'] by (simp add: user_flags_def)
next
  case (Some ctx)
  let ?env = "if request = FIONBIO then put_fdctx fd (ctx\<lparr>m_userNonBlock := val \<noteq> 0\<rparr>) env else env"
  have "call_once ioctl_f ?env = (out, env')"
    using Some assms(2) tracked_live [OF assms(1), of fd]
    by (auto simp: hook_ioctl_def ioctl_fionbio_def fd_get_known(1) [OF Some] split: if_split_asm)
  from call_once_flags [OF this] Some put_fdctx_flags [OF Some] show ?thesis by (simp add: user_flags_def)
qed

lemma hook_setsockopt_flags:
  assumes "hook_setsockopt K fd level optname sec usec f env = Inr (out, env')"
  shows "user_flags env' = user_flags env"
proof (cases "fd_lookup (h_fds env) fd")
  case None
  with assms call_once_flags [of f env out env'] show ?thesis
    by (auto simp: hook_setsockopt_def setsockopt_timeout_def rbind_eq_Inr dest!: fd_get_False split: if_split_asm option.split_asm)
next
  case (Some ctx)
  let ?c = "setTimeout optname (word_of_int (sec * 1000 + usec sdiv 1000)) ctx"
  have "user_flags (put_fdctx fd ?c env) = user_flags env"
    using put_fdctx_flags [OF Some, of ?c] Some by (auto simp: setTimeout_def user_flags_def fun_eq_iff)
  with assms call_once_flags [of f env out env'] call_once_flags [of f "put_fdctx fd ?c env" out env'] show ?thesis
    by (auto simp: hook_setsockopt_def setsockopt_timeout_def fd_get_known(1) [OF Some] split: if_split_asm)
qed

lemma hook_close_flags:
  assumes run: "hook_close K E fd close_f env = Inr (out, reqs, env')"
  shows "user_flags env' g = None \<or> user_flags env' g = user_flags env g"
proof (cases "t_hook_enable env \<and> fd_lookup (h_fds env) fd \<noteq> None")
  case False
  then have "call_once close_f env = (out, env')"
    using run by (auto simp: hook_close_def rbind_eq_Inr Let_def dest!: fd_get_False split: prod.splits if_split_asm)
  then show ?thesis using call_once_flags [of close_f env out env'] by simp
next
  case True
  then obtain ctx where ctx: "fd_lookup (h_fds env) fd = Some ctx" by blast
  let ?k = "h_kernel env"
  let ?cancel = "if h_iom env \<noteq> 0 then cancelAll E fd (h_io env) ?k else Inr (False, [], h_io env, ?k)"
  have r: "rbind ?cancel (\<lambda>(b, reqs, io, k'). rbind (FdManager_del fd (h_fds env)) (\<lambda>fds.
      case call_once close_f (env\<lparr>h_io := io, h_kernel := k', h_fds := fds\<rparr>) of (out, env') \<Rightarrow> Inr (out, reqs, env'))) =
      Inr (out, reqs, env')"
    using run True by (simp add: hook_close_def fd_get_known(1) [OF ctx])
  obtain b reqs' io k' where c: "?cancel = Inr (b, reqs', io, k')" using r by (cases ?cancel) auto
  obtain fds where d: "FdManager_del fd (h_fds env) = Inr fds" using r unfolding c by (auto simp: rbind_eq_Inr)
  have "call_once close_f (env\<lparr>h_io := io, h_kernel := k', h_fds := fds\<rparr>) = (out, env')"
    using r unfolding c d by (auto split: prod.splits)
  from call_once_flags [OF this] FdManager_del_lookup [OF d fd_get_known(2) [OF ctx]] show ?thesis
    by (simp add: user_flags_def)
qed

lemma fd_act_user_inv:
  assumes E: "flags_ok K E" and inv: "sock_inv K env" and user: "user_inv env asked" and step: "fd_act K E act env env'"
  shows "user_inv env' (note_ask act asked)"
proof -
  have calm: ?thesis if "user_flags env' = user_flags env" "act = Quiet" using that user by (simp add: user_inv_def)
  from step show ?thesis
  proof cases
    case (fd_socket f fd)
    from hook_socket_flags [OF fd_socket(3) inv fd_socket(2)] opened_user_inv [OF user]
    show ?thesis unfolding fd_socket(1) note_ask.simps by blast
  next
    case (fd_accept fd f now p ti fiber out)
    then show ?thesis
      using accept_finish_flags [OF fd_accept(3) inv user do_io_effect [OF E]] by (simp add: hook_accept_def hook_io_def)
  next
    case (fd_accept_resume fd f timeout now p ti fiber timer out)
    then show ?thesis
      using accept_finish_flags [OF fd_accept_resume(3) inv user do_io_resume_effect [OF E]] by (simp add: hook_accept_resume_def)
  next
    case (fd_close fd f out reqs)
    then show ?thesis using user hook_close_flags [OF fd_close(2)] by (simp add: user_inv_def) (metis option.distinct(1))
  next
    case (fd_fcntl g fd cmd arg n)
    then show ?thesis using user hook_fcntl_flags [OF inv fd_fcntl(2)] by (auto simp: user_inv_def split: if_splits)
  next
    case (fd_ioctl fd request val f out)
    then show ?thesis using user hook_ioctl_flags [OF inv fd_ioctl(2)] by (auto simp: user_inv_def split: if_splits)
  next
    case (fd_setsockopt fd level optname sec usec f out)
    then show ?thesis using calm hook_setsockopt_flags by blast
  next
    case (fd_io fn fd f now p ti fiber out)
    then have "h_fds env' = h_fds env" using do_io_effect [OF E] by (fastforce simp: hook_io_def split: prod.splits)
    then show ?thesis by (intro calm user_flags_same fd_io(1))
  next
    case (fd_io_resume fd f event timeout now p ti fiber timer out)
    then have "h_fds env' = h_fds env" using do_io_resume_effect [OF E] by blast
    then show ?thesis by (intro calm user_flags_same fd_io_resume(1))
  next
    case fd_connect
    show ?thesis by (rule calm [OF calm_flags [OF connect_calm [OF E fd_connect(3,2)]] fd_connect(1)])
  next
    case fd_connect_resume
    show ?thesis by (rule calm [OF calm_flags [OF connect_resume_calm [OF fd_connect_resume(2)]] fd_connect_resume(1)])
  next
    case fd_timeout
    show ?thesis by (rule calm [OF calm_flags [OF io_timeout_calm [OF E fd_timeout(2)]] fd_timeout(1)])
  next
    case fd_sleep
    show ?thesis by (rule calm [OF calm_flags [OF sleep_calm(1) [OF fd_sleep(3,2)]] fd_sleep(1)])
  next
    case fd_usleep
    show ?thesis by (rule calm [OF calm_flags [OF sleep_calm(2) [OF fd_usleep(3,2)]] fd_usleep(1)])
  next
    case fd_nanosleep
    show ?thesis by (rule calm [OF calm_flags [OF sleep_calm(3) [OF fd_nanosleep(3,2)]] fd_nanosleep(1)])
  next
    case (fd_getsockopt f out)
    then show ?thesis using calm call_once_flags [of f env out env'] by (simp add: hook_getsockopt_def)
  next
    case (fd_enable flag)
    then show ?thesis using calm user_flags_same [of env' env] by (simp add: set_hook_enable_def)
  next
    case (fd_thread flag iom io)
    then show ?thesis using calm user_flags_same [of env' env] by simp
  qed
qed

interpretation ask_machine: inductive_invariant "\<lambda>x :: ('u, 'k) hook_env \<times> (int \<Rightarrow> bool). fd_init (fst x)" "ask_step K E"
    "\<lambda>x. flags_ok K E \<longrightarrow> sock_inv K (fst x) \<and> user_inv (fst x) (snd x)" for K E
proof unfold_locales
  fix x :: "('u, 'k) hook_env \<times> (int \<Rightarrow> bool)"
  assume "fd_init (fst x)"
  then show "flags_ok K E \<longrightarrow> sock_inv K (fst x) \<and> user_inv (fst x) (snd x)"
    using fd_machine.inv_init [of "fst x"]
    by (auto simp: fd_init_def user_inv_def user_flags_def FdManager_new_def fd_lookup_def nth_vec_resize split: if_splits)
next
  fix x y :: "('u, 'k) hook_env \<times> (int \<Rightarrow> bool)"
  assume "flags_ok K E \<longrightarrow> sock_inv K (fst x) \<and> user_inv (fst x) (snd x)" "ask_step K E x y"
  then show "flags_ok K E \<longrightarrow> sock_inv K (fst y) \<and> user_inv (fst y) (snd y)"
    unfolding ask_step_def using fd_act_inv fd_act_user_inv by metis
qed

section \<open>Properties\<close>

text \<open>
  C6. Hooked sockets do not block their thread. Whatever hooked calls the threads of the program have made, but for closing with
  the hooks off and \<^verbatim>\<open>ioctl(FIONBIO, 0)\<close> (for which see the next property), and as long as no other original call makes
  a descriptor blocking, a descriptor that
  the table tracks is an open socket whose kernel flags have \<^verbatim>\<open>O_NONBLOCK\<close>, so that the original calls that \<^verbatim>\<open>do_io\<close> makes
  return at once. \<^verbatim>\<open>F_GETFL\<close> shows the program the kernel's flags except for \<^verbatim>\<open>O_NONBLOCK\<close>, which it shows as the
  program last set it with \<^verbatim>\<open>F_SETFL\<close> or \<^verbatim>\<open>FIONBIO\<close>, or as clear when it has not since the socket was opened.
\<close>

theorem tracked_sockets_nonblocking:
  assumes "flags_ok K E" "reach (\<lambda>x. fd_init (fst x)) (ask_step K E) (env, asked)" "fd_lookup (h_fds env) fd = Some ctx"
  shows "k_fstat K fd (h_kernel env) = Some True \<and> k_getfl K fd (h_kernel env) AND O_NONBLOCK \<noteq> 0 \<and>
    m_isSocket ctx \<and> \<not> m_isClosed ctx \<and> m_sysNonBlock ctx \<and>
    (\<exists>fl. fcntl_getfl K fd env = Inr fl \<and> (fl AND O_NONBLOCK \<noteq> 0 \<longleftrightarrow> asked fd) \<and>
      fl OR O_NONBLOCK = k_getfl K fd (h_kernel env) OR O_NONBLOCK)"
proof -
  have inv: "sock_inv K env" "user_inv env asked" using ask_machine.reach_inv [OF assms(2)] assms(1) by simp_all
  then have ok: "sock_ok K fd ctx (h_kernel env)" using assms(3) by (simp add: sock_inv_def)
  have user: "m_userNonBlock ctx = asked fd" using inv(2) assms(3) by (auto simp: user_inv_def user_flags_def)
  let ?fl = "k_getfl K fd (h_kernel env)"
  have "fcntl_getfl K fd env = Inr (if asked fd then ?fl OR O_NONBLOCK else ?fl AND NOT O_NONBLOCK)"
    using ok user by (simp add: fcntl_getfl_def fd_get_known(1) [OF assms(3)] is_live_socket_def sock_ok_def)
  moreover have "(w AND NOT O_NONBLOCK) AND O_NONBLOCK = 0" "(w AND NOT O_NONBLOCK) OR O_NONBLOCK = w OR O_NONBLOCK" for w
    by (auto intro!: bit_eqI simp: bit_simps)
  ultimately show ?thesis using ok by (simp add: sock_ok_def nonblocking_def)
qed

text \<open>A kernel with the kind and the flags of every descriptor.\<close>

type_synonym fd_modes = "int \<Rightarrow> bool option \<times> u32"

definition fd_kernel :: "fd_modes kernel" where
  "fd_kernel = \<lparr>k_fstat = (\<lambda>fd k. fst (k fd)), k_getfl = (\<lambda>fd k. snd (k fd)),
     k_setfl = (\<lambda>fd fl k. (0, k(fd := (fst (k fd), fl))))\<rparr>"

definition deaf_epoll :: "fd_modes epoll" where
  "deaf_epoll = \<lparr>ep_ctl = (\<lambda>op fd ev k. (True, k)), ep_interest = (\<lambda>k fd. None)\<rparr>"

definition new_socket :: "fd_modes syscall" where
  "new_socket k = (if fst (k 5) = None then (5, 0, k(5 := (Some True, 2))) else (- 1, 24, k))"

definition fd_env :: "(bool, fd_modes) hook_env" where
  "fd_env = \<lparr>t_hook_enable = True, h_fds = FdManager_new, h_iom = 0, h_io = hook_io_start, h_tinfo = Map.empty,
     h_kernel = (\<lambda>_. (None, 0))\<rparr>"

lemma fd_kernel_ok: "flags_ok fd_kernel deaf_epoll"
  by (auto simp: flags_ok_def fd_kernel_def deaf_epoll_def keeps_except_def open_fd_def nonblocking_def)

lemma new_socket_opens: "opens_socket fd_kernel new_socket"
  by (auto simp: opens_socket_def new_socket_def fd_kernel_def open_fd_def nonblocking_def intro!: keepsI split: if_splits)

lemma first_socket:
  "\<exists>env ctx. hook_socket fd_kernel new_socket fd_env = Inr (5, env) \<and> reach fd_init (fd_step fd_kernel deaf_epoll) env \<and>
     fd_lookup (h_fds env) 5 = Some ctx \<and> \<not> m_userNonBlock ctx \<and> h_iom env = 0"
proof -
  let ?k = "(\<lambda>_. (None, 0))(5 := (Some True, 2)) :: fd_modes"
  obtain c k' where new: "FdCtx_new fd_kernel 5 ?k = (c, k')" by fastforce
  have "64 \<le> length FdManager_new" by (simp add: FdManager_new_def)
  from FdManager_create_spec [OF this _ new] obtain ds where
    ds: "FdManager_create fd_kernel 5 FdManager_new ?k = Inr (Some c, ds, k')" "fd_lookup ds 5 = Some c" by auto
  let ?env = "fd_env\<lparr>h_fds := ds, h_kernel := k'\<rparr>"
  have run: "hook_socket fd_kernel new_socket fd_env = Inr (5, ?env)"
  proof -
    have "FdManager_get fd_kernel 5 True FdManager_new ?k = FdManager_create fd_kernel 5 FdManager_new ?k"
      unfolding FdManager_get_def by (simp add: FdManager_new_def nth_vec_resize)
    with ds(1) show ?thesis by (simp add: hook_socket_def new_socket_def fd_env_def track_fd_def)
  qed
  have "reach fd_init (fd_step fd_kernel deaf_epoll) ?env"
  proof (rule reach_step)
    show "reach fd_init (fd_step fd_kernel deaf_epoll) fd_env" by (rule reach_init) (simp add: fd_init_def fd_env_def)
    show "fd_step fd_kernel deaf_epoll fd_env ?env" unfolding fd_step_def using fd_socket [OF run new_socket_opens] by blast
  qed
  moreover have "\<not> m_userNonBlock c" using FdCtx_new_fields(2) [of fd_kernel 5 ?k] new by simp
  ultimately show ?thesis using run ds(2) by (intro exI [of _ ?env] exI [of _ c]) (simp add: fd_env_def)
qed

theorem tracked_sockets_nonblocking_witness:
  "\<exists>env fl. hook_socket fd_kernel new_socket fd_env = Inr (5, env) \<and> k_getfl fd_kernel 5 (h_kernel env) AND O_NONBLOCK \<noteq> 0 \<and>
     fcntl_getfl fd_kernel 5 env = Inr fl \<and> fl AND O_NONBLOCK = 0"
proof -
  obtain env ctx where s: "hook_socket fd_kernel new_socket fd_env = Inr (5, env)" "fd_lookup (h_fds env) 5 = Some ctx"
    using first_socket by blast
  let ?init = "\<lambda>x :: (bool, fd_modes) hook_env \<times> (int \<Rightarrow> bool). fd_init (fst x)" and ?asked = "(\<lambda>_. True)(5 := False)"
  have "reach ?init (ask_step fd_kernel deaf_epoll) (fd_env, \<lambda>_. True)" by (rule reach_init) (simp add: fd_init_def fd_env_def)
  moreover have "ask_step fd_kernel deaf_epoll (fd_env, \<lambda>_. True) (env, ?asked)"
    unfolding ask_step_def using fd_socket [OF s(1) new_socket_opens] by (intro exI [of _ "Opened 5"]) simp
  ultimately have "reach ?init (ask_step fd_kernel deaf_epoll) (env, ?asked)" by (rule reach_step)
  from tracked_sockets_nonblocking [OF fd_kernel_ok this s(2)] s(1) show ?thesis by auto
qed

text \<open>
  C35. The two ways in which a tracked socket comes to block. \<^verbatim>\<open>ioctl(fd, FIONBIO, 0)\<close> passes the request to the kernel,
  where \<^verbatim>\<open>fcntl\<close> would keep the flag. And \<^verbatim>\<open>close\<close> with the hooks off leaves the context in the table: a socket
  that is opened later under the same number finds it there, and is never made non-blocking. In both states the table
  says that the socket is non-blocking in the kernel and that \<^verbatim>\<open>do_io\<close> may make the original call, which blocks the
  thread.
\<close>

theorem tracked_socket_may_block:
  assumes "flags_ok K E" "reach fd_init (fd_step K E) env" "fd_lookup (h_fds env) fd = Some ctx"
    and ioctl: "ioctl_f (h_kernel env) = (0, e1, k1)" "k_getfl K fd k1 AND O_NONBLOCK = 0"
    and reuse: "close_f (h_kernel env) = (0, e2, k2)" "socket_f k2 = (fd, e3, k3)" "k_getfl K fd k3 AND O_NONBLOCK = 0"
  shows "(\<exists>env1 ctx1. hook_ioctl K fd FIONBIO 0 ioctl_f env = Inr (Returned 0 e1, env1) \<and>
      fd_lookup (h_fds env1) fd = Some ctx1 \<and> m_sysNonBlock ctx1 \<and> \<not> m_userNonBlock ctx1 \<and>
      k_getfl K fd (h_kernel env1) AND O_NONBLOCK = 0) \<and>
    (\<exists>env2 env3. hook_close K E fd close_f (set_hook_enable False env) = Inr (Returned 0 e2, [], env2) \<and>
      hook_socket K socket_f (set_hook_enable True env2) = Inr (fd, env3) \<and>
      fd_lookup (h_fds env3) fd = Some ctx \<and> m_sysNonBlock ctx \<and> k_getfl K fd (h_kernel env3) AND O_NONBLOCK = 0)"
proof -
  note known = fd_get_known [OF assms(3)]
  have "sock_inv K env" using fd_machine.reach_inv [OF assms(2)] assms(1) by blast
  then have ctx: "m_isSocket ctx" "\<not> m_isClosed ctx" "m_sysNonBlock ctx"
    using assms(3) by (auto simp: sock_inv_def sock_ok_def)
  let ?c = "ctx\<lparr>m_userNonBlock := False\<rparr>"
  let ?env1 = "(put_fdctx fd ?c env)\<lparr>h_kernel := k1\<rparr>"
  have "hook_ioctl K fd FIONBIO 0 ioctl_f env = Inr (Returned 0 e1, ?env1)"
    using ctx ioctl(1) by (simp add: hook_ioctl_def ioctl_fionbio_def known(1) is_live_socket_def call_once_def put_fdctx_def)
  moreover have "fd_lookup (h_fds ?env1) fd = Some ?c" by (simp add: put_fdctx_def fd_lookup_update [OF assms(3)])
  moreover let ?env2 = "env\<lparr>t_hook_enable := False, h_kernel := k2\<rparr>"
  have "hook_close K E fd close_f (set_hook_enable False env) = Inr (Returned 0 e2, [], ?env2)"
    using reuse(1) by (simp add: hook_close_def set_hook_enable_def call_once_def)
  moreover let ?env3 = "env\<lparr>t_hook_enable := True, h_kernel := k3\<rparr>"
  have "FdManager_get K fd True (h_fds env) k3 = Inr (Some ctx, h_fds env, k3)"
    using assms(3) by (auto simp: fd_lookup_def FdManager_get_def split: if_splits)
  then have "hook_socket K socket_f (set_hook_enable True ?env2) = Inr (fd, ?env3)"
    using reuse(2) known(2) by (simp add: hook_socket_def set_hook_enable_def track_fd_def)
  ultimately show ?thesis
    using ctx ioctl(2) reuse(3) assms(3)
    by (intro conjI exI [of _ ?env1] exI [of _ ?c] exI [of _ ?env2] exI [of _ ?env3]) simp_all
qed

text \<open>The first socket of the program, made blocking, or closed by a thread without hooks.\<close>

theorem tracked_socket_may_block_witness:
  "\<exists>env env2 env3 ctx. hook_socket fd_kernel new_socket fd_env = Inr (5, env) \<and>
     hook_close fd_kernel deaf_epoll 5 (\<lambda>k. (0, 0, k(5 := (None, 0)))) (set_hook_enable False env) =
       Inr (Returned 0 0, [], env2) \<and>
     hook_socket fd_kernel new_socket (set_hook_enable True env2) = Inr (5, env3) \<and>
     fd_lookup (h_fds env3) 5 = Some ctx \<and> m_sysNonBlock ctx \<and> snd (h_kernel env3 5) AND O_NONBLOCK = 0"
proof -
  obtain env ctx where s: "hook_socket fd_kernel new_socket fd_env = Inr (5, env)"
    "reach fd_init (fd_step fd_kernel deaf_epoll) env" "fd_lookup (h_fds env) 5 = Some ctx"
    using first_socket by blast
  let ?k = "h_kernel env"
  have "k_getfl fd_kernel 5 (?k(5 := (Some True, 2))) AND O_NONBLOCK = 0" by (simp add: fd_kernel_def O_NONBLOCK_def)
  moreover have "new_socket (?k(5 := (None, 0))) = (5, 0, ?k(5 := (Some True, 2)))" by (simp add: new_socket_def)
  ultimately obtain env2 env3 where
    "hook_close fd_kernel deaf_epoll 5 (\<lambda>k. (0, 0, k(5 := (None, 0)))) (set_hook_enable False env) = Inr (Returned 0 0, [], env2)"
    "hook_socket fd_kernel new_socket (set_hook_enable True env2) = Inr (5, env3)" "fd_lookup (h_fds env3) 5 = Some ctx"
    "m_sysNonBlock ctx" "k_getfl fd_kernel 5 (h_kernel env3) AND O_NONBLOCK = 0"
    using tracked_socket_may_block [OF fd_kernel_ok s(2,3), of "\<lambda>k. (0, 0, k(5 := (Some True, 2)))" 0 _
        "\<lambda>k. (0, 0, k(5 := (None, 0)))" 0 _ new_socket 0] by blast
  with s(1) show ?thesis by (intro exI conjI) (assumption | simp add: fd_kernel_def)+
qed

end
