(* ===== verification/Scheduler_Drain.thy ===== *)
theory Scheduler_Drain
  imports Scheduler
begin

text \<open>
  Progress of the scheduler: from every reachable state the threads can, by steps of their own, run every queued task to its
  end, and once \<^verbatim>\<open>stop()\<close> has been called, leave \<^verbatim>\<open>run()\<close>, so that the joins of \<^verbatim>\<open>stop()\<close> return.
\<close>

section \<open>Work left\<close>

text \<open>Steps without anyone scheduling.\<close>

abbreviation own_step :: "'c sched_sys \<Rightarrow> 'c sched_sys \<Rightarrow> bool" where
  "own_step \<equiv> sched_step (\<lambda>_ _. False)"

fun busy :: "'c pc \<Rightarrow> nat" where
  "busy (Dispatch (Some t)) = 4"
| "busy (Resuming f t) = 3"
| "busy (InFiber f t) = 2"
| "busy (Leaving f t) = 1"
| "busy _ = 0"

definition work :: "'c sched_sys \<Rightarrow> nat" where
  "work y = 5 * length (m_tasks (sched y)) + pc_sum busy (pcs y)"

text \<open>A task is servable when a thread may run it whose idle fiber has not ended.\<close>

definition servable :: "'c sched_sys \<Rightarrow> bool" where
  "servable y \<longleftrightarrow> (\<forall>t\<in>set (m_tasks (sched y)). \<exists>tid. mine tid t \<and> pcs y tid \<noteq> None \<and> tid \<notin> idle_ended y)"

definition sound :: "'c sched_sys \<Rightarrow> bool" where
  "sound y \<longleftrightarrow> fibers_inv y \<and> sched_inv y \<and> finite (dom (fstate y))"

text \<open>What such steps leave alone.\<close>

definition onward :: "'c sched_sys \<Rightarrow> 'c sched_sys \<Rightarrow> bool" where
  "onward y y' \<longleftrightarrow> own_step\<^sup>*\<^sup>* y y' \<and> accepted y' = accepted y \<and> m_stopping (sched y') = m_stopping (sched y) \<and>
     dom (pcs y') = dom (pcs y) \<and> idle_ended y' = idle_ended y \<and> set (m_tasks (sched y')) \<subseteq> set (m_tasks (sched y))"

lemma onward_refl [simp]: "onward y y"
  by (simp add: onward_def)

lemma onward_trans: "onward y1 y2 \<Longrightarrow> onward y2 y3 \<Longrightarrow> onward y1 y3"
  by (auto simp: onward_def dest: rtranclp_trans)

lemma onward_servable: "onward y y' \<Longrightarrow> servable y \<Longrightarrow> servable y'"
  unfolding onward_def servable_def by (metis domIff subsetD)

lemma own_disciplined: "own_step y y' \<Longrightarrow> sched_step disciplined y y'"
  by (induction rule: sched_step.induct) (auto intro: sched_step.intros)

lemma step_fstate_finite: "sched_step P y y' \<Longrightarrow> finite (dom (fstate y)) \<Longrightarrow> finite (dom (fstate y'))"
  by (induction rule: sched_step.induct)
    (auto simp: sys_schedule_def sys_fetch_def set_pc_def sys_dispatch_def sys_switch_def sys_leave_def sys_return_def
      sys_idle_def sys_idle_return_def split: sum.splits)

lemma own_sound:
  assumes "sound y" "own_step\<^sup>*\<^sup>* y y'"
  shows "sound y'"
  using assms(2)
proof (induction rule: rtranclp_induct)
  case (step y' y'')
  have "fibers_inv y''" using disciplined_machine.inv_step own_disciplined [OF step(2)] step(3) by (auto simp: sound_def)
  moreover have "sched_inv y''" using sched_step_inv [OF step(2)] step(3) by (simp add: sound_def)
  ultimately show ?case using step_fstate_finite [OF step(2)] step(3) by (simp add: sound_def)
qed (rule assms(1))

lemma reach_sound:
  assumes "reach sched_init (sched_step disciplined) y"
  shows "sound y"
proof -
  have "finite (dom (fstate y))"
    using assms by induction (auto simp: sched_init_def intro: step_fstate_finite)
  then show ?thesis
    using disciplined_machine.reach_inv [OF assms] sched_machine.reach_inv [OF assms] by (simp add: sound_def)
qed

section \<open>A step of work\<close>

lemma advance:
  assumes "own_step y y'" "sound y" "pcs y tid = Some p" "pcs y' = (pcs y)(tid \<mapsto> p')" "busy p' < busy p"
    and "m_tasks (sched y') = m_tasks (sched y)" "accepted y' = accepted y" "m_stopping (sched y') = m_stopping (sched y)"
    and "idle_ended y' = idle_ended y"
  shows "onward y y' \<and> work y' < work y"
proof -
  have "finite (dom (pcs y))" using assms(2) by (simp add: sound_def sched_inv_def)
  from pc_sum_update [where g = busy and p' = p', OF assms(3) this] assms(4-6) have "work y' < work y" by (simp add: work_def)
  moreover have "dom (pcs y') = dom (pcs y)" using assms(3,4) by auto
  ultimately show ?thesis using assms(1,6-9) by (auto simp: onward_def)
qed

lemma busy_step:
  assumes ok: "sound y" and pc: "pcs y tid = Some p" "busy p > 0"
  shows "\<exists>y'. onward y y' \<and> work y' < work y"
proof -
  have live: "\<not> aborted y" and fib: "pc_fiber_ok (fstate y) p" using ok pc(1) by (auto simp: sound_def fibers_inv_def)
  show ?thesis
  proof (cases p)
    case (Dispatch task)
    with pc(2) obtain t where t: "p = Dispatch (Some t)" by (cases task) auto
    obtain q where q: "q \<notin> insert 0 (dom (fstate y))"
      using ok ex_new_if_finite [of "insert 0 (dom (fstate y))"] by (auto simp: sound_def)
    let ?y = "sys_dispatch q tid t y"
    have "own_step y ?y" using live pc(1) t q by (intro st_dispatch) auto
    moreover have "pcs ?y = (pcs y)(tid \<mapsto> Resuming (if m_task_fiber t \<noteq> 0 then m_task_fiber t else q) t)"
      using fib t by (auto simp: sys_dispatch_def set_pc_def)
    ultimately show ?thesis
      using advance [OF _ ok pc(1)] t by (intro exI [of _ ?y]) (auto simp: sys_dispatch_def set_pc_def)
  next
    case (Resuming f t)
    then have "own_step y (sys_switch tid f t y)" using live pc(1) by (intro st_switch) auto
    from advance [OF this ok pc(1)] Resuming show ?thesis by (fastforce simp: sys_switch_def set_pc_def)
  next
    case (InFiber f t)
    then have "own_step y (sys_leave READY tid f t y)" using live pc(1) by (intro st_leave) auto
    from advance [OF this ok pc(1)] InFiber show ?thesis by (fastforce simp: sys_leave_def set_pc_def)
  next
    case (Leaving f t)
    then have "own_step y (sys_return tid t y)" using live pc(1) by (intro st_return) auto
    from advance [OF this ok pc(1)] Leaving show ?thesis by (fastforce simp: sys_return_def set_pc_def)
  qed (use pc(2) in simp_all)
qed

section \<open>Taking the next task\<close>

text \<open>A thread that is idle comes back to the top of the loop while there is a task.\<close>

lemma idle_comes_back:
  assumes ok: "sound y" and pc: "pcs y tid = Some p" "busy p = 0" "tid \<notin> idle_ended y" and ts: "m_tasks (sched y) \<noteq> []"
  shows "\<exists>y'. onward y y' \<and> work y' = work y \<and> pcs y' tid = Some AtTop \<and> m_tasks (sched y') = m_tasks (sched y)"
proof -
  have fin: "finite (dom (pcs y))" and live: "\<not> aborted y" using ok by (auto simp: sound_def sched_inv_def fibers_inv_def)
  have returns: "\<exists>y'. onward z y' \<and> work y' = work z \<and> pcs y' tid = Some AtTop \<and> m_tasks (sched y') = m_tasks (sched z)"
    if z: "pcs z tid = Some InIdle" "\<not> aborted z" "m_tasks (sched z) \<noteq> []" "finite (dom (pcs z))" for z :: "'a sched_sys"
  proof -
    have "own_step z (sys_idle_return tid z)" using z by (intro st_idle_return)
    moreover have "\<not> stopping (sched z)" using z(3) by (simp add: stopping_def)
    ultimately show ?thesis
      using z pc_sum_same [of "pcs z" tid InIdle busy AtTop]
      by (intro exI [of _ "sys_idle_return tid z"]) (auto simp: onward_def work_def sys_idle_return_def set_pc_def)
  qed
  show ?thesis
  proof (cases p)
    case AtTop
    then show ?thesis using pc by (intro exI [of _ y]) simp
  next
    case (Dispatch task)
    then have task: "p = Dispatch None" using pc(2) by (cases task) auto
    let ?z = "sys_idle tid y"
    have z: "own_step y ?z" using live pc(1) task by (intro st_idle) auto
    then have "onward y ?z" "work ?z = work y" "pcs ?z tid = Some InIdle" "m_tasks (sched ?z) = m_tasks (sched y)"
      "\<not> aborted ?z" "finite (dom (pcs ?z))"
      using pc(1,3) task live fin pc_sum_same [of "pcs y" tid p busy InIdle]
      by (auto simp: onward_def work_def sys_idle_def set_pc_def)
    with returns [of ?z] ts show ?thesis using onward_trans by metis
  next
    case InIdle
    with returns [of y] pc(1) live ts fin show ?thesis by simp
  next
    case Exited
    with ok pc show ?thesis by (auto simp: sound_def sched_inv_def)
  qed (use pc(2) in simp_all)
qed

lemma fetch_step:
  assumes ok: "sound y" and pc: "pcs y tid = Some AtTop" and t: "t \<in> set (m_tasks (sched y))" "mine tid t"
  shows "\<exists>y'. onward y y' \<and> work y' < work y"
proof -
  have fib: "fibers_inv y" and live: "\<not> aborted y" and fin: "finite (dom (pcs y))"
    using ok by (auto simp: sound_def fibers_inv_def)
  have "runnable u \<and> (m_task_fiber u = 0 \<or> fstate y (m_task_fiber u) = Some READY)" if "u \<in> set (m_tasks (sched y))" for u
    using fib that in_queued_fibers [of "m_task_fiber u" "m_tasks (sched y)"] unfolding fibers_inv_def by blast
  then obtain task rest tk where s: "scan_tasks tid (fstate y) (m_tasks (sched y)) = Inr (task, rest, tk)"
    using scan_tasks_total by blast
  have "dropWhile (\<lambda>t. \<not> mine tid t) (m_tasks (sched y)) \<noteq> []" using t by (auto simp: dropWhile_eq_Nil_conv)
  then have "task \<noteq> None" using s
    by (cases "dropWhile (\<lambda>t. \<not> mine tid t) (m_tasks (sched y))")
      (auto simp: scan_tasks_split Let_def sylar_assert_eq_Inr simp del: dropWhile_eq_Nil_conv)
  with scan_tasks_cases [OF s] obtain u xs ys where u: "task = Some u" "m_tasks (sched y) = xs @ u # ys" "rest = xs @ ys"
    by auto
  let ?y = "sys_fetch tid y"
  have y: "sched ?y = (sched y)\<lparr>m_tasks := xs @ ys, m_activeThreadCount := m_activeThreadCount (sched y) + 1\<rparr>"
    "pcs ?y = (pcs y)(tid \<mapsto> Dispatch (Some u))" "accepted ?y = accepted y" "idle_ended ?y = idle_ended y"
    using s u by (simp_all add: sys_fetch_def take_task_def set_pc_def)
  have "own_step y ?y" using live pc by (intro st_fetch)
  moreover have "dom (pcs ?y) = dom (pcs y)" using y(2) pc by auto
  ultimately have "onward y ?y" using y u(2) by (auto simp: onward_def)
  moreover have "work ?y < work y"
    using y(1,2) u(2) pc_sum_update [where g = busy and p' = "Dispatch (Some u)", OF pc fin] by (simp add: work_def)
  ultimately show ?thesis by blast
qed

lemma work_step:
  assumes ok: "sound y" and serve: "servable y" and "work y > 0"
  shows "\<exists>y'. onward y y' \<and> work y' < work y"
proof (cases "\<exists>tid p. pcs y tid = Some p \<and> busy p > 0")
  case True
  with busy_step [OF ok] show ?thesis by blast
next
  case False
  then have "pc_sum busy (pcs y) = 0" unfolding pc_sum_def by (intro sum.neutral) auto
  with assms(3) obtain t where t: "t \<in> set (m_tasks (sched y))" by (cases "m_tasks (sched y)") (auto simp: work_def)
  with serve obtain tid p where tid: "mine tid t" "pcs y tid = Some p" "tid \<notin> idle_ended y"
    unfolding servable_def by blast
  have "m_tasks (sched y) \<noteq> []" using t by auto
  from idle_comes_back [OF ok tid(2) _ tid(3) this] False tid(2) obtain z where
    z: "onward y z" "work z = work y" "pcs z tid = Some AtTop" "m_tasks (sched z) = m_tasks (sched y)" by auto
  have "sound z" using own_sound [OF ok] z(1) by (simp add: onward_def)
  from fetch_step [OF this z(3) _ tid(1)] t z(4) obtain y' where "onward z y'" "work y' < work z" by auto
  with z show ?thesis using onward_trans by metis
qed

lemma all_work_done:
  assumes "sound y" "servable y"
  shows "\<exists>y'. onward y y' \<and> work y' = 0"
  using assms
proof (induction "work y" arbitrary: y rule: less_induct)
  case less
  show ?case
  proof (cases "work y = 0")
    case False
    with work_step [OF less(2,3)] obtain z where z: "onward y z" "work z < work y" by auto
    have "sound z" using own_sound [OF less(2)] z(1) by (simp add: onward_def)
    from less(1) [OF z(2) this onward_servable [OF z(1) less(3)]] z(1) show ?thesis using onward_trans by blast
  qed (auto intro: exI [of _ y])
qed

lemma no_work:
  assumes "sched_inv y" "work y = 0"
  shows "m_tasks (sched y) = []" "mset (finished y) = mset (accepted y)" "m_activeThreadCount (sched y) = 0"
proof -
  have fin: "finite (dom (pcs y))" using assms(1) by (simp add: sched_inv_def)
  show ts: "m_tasks (sched y) = []" using assms(2) by (simp add: work_def)
  have "pc_sum busy (pcs y) = 0" using assms(2) by (simp add: work_def)
  then have b: "busy (the (pcs y tid)) = 0" if "tid \<in> dom (pcs y)" for tid
    using that fin by (simp add: pc_sum_def)
  have "held p = {#}" if "busy p = 0" for p :: "'a pc" using that by (cases p rule: held.cases) auto
  then have "in_hands y = {#}" using b by (simp add: in_hands_def pc_sum_def)
  with assms(1) ts show "mset (finished y) = mset (accepted y)" "m_activeThreadCount (sched y) = 0" by (simp_all add: sched_inv_def)
qed

section \<open>Leaving the loop\<close>

text \<open>A stopped scheduler with nothing queued and nothing running.\<close>

definition quiet :: "'c sched_sys \<Rightarrow> bool" where
  "quiet y \<longleftrightarrow> m_tasks (sched y) = [] \<and> m_activeThreadCount (sched y) = 0 \<and> m_stopping (sched y) \<and> \<not> aborted y"

text \<open>What a thread does then changes only its own program point.\<close>

definition settles :: "int \<Rightarrow> 'c pc \<Rightarrow> 'c sched_sys \<Rightarrow> 'c sched_sys \<Rightarrow> bool" where
  "settles tid p y y' \<longleftrightarrow> own_step\<^sup>*\<^sup>* y y' \<and> quiet y' \<and> pcs y' = (pcs y)(tid \<mapsto> p) \<and>
     accepted y' = accepted y \<and> finished y' = finished y \<and> (\<forall>i. i \<in> idle_ended y \<longrightarrow> i \<in> idle_ended y')"

lemma settles_trans: "settles tid p y1 y2 \<Longrightarrow> settles tid q y2 y3 \<Longrightarrow> settles tid q y1 y3"
  unfolding settles_def by (auto dest: rtranclp_trans)

lemma quiet_fetch: "quiet y \<Longrightarrow> pcs y tid = Some AtTop \<Longrightarrow> settles tid (Dispatch None) y (sys_fetch tid y)"
  using st_fetch [of y tid "\<lambda>_ _. False"]
  by (auto simp: settles_def quiet_def sys_fetch_def take_task_def set_pc_def)

lemma quiet_idle_return:
  "quiet y \<Longrightarrow> pcs y tid = Some InIdle \<Longrightarrow>
     settles tid AtTop y (sys_idle_return tid y) \<and> tid \<in> idle_ended (sys_idle_return tid y)"
  using st_idle_return [of y tid "\<lambda>_ _. False"]
  by (auto simp: settles_def quiet_def sys_idle_return_def set_pc_def stopping_def)

lemma quiet_idle:
  "quiet y \<Longrightarrow> pcs y tid = Some (Dispatch None) \<Longrightarrow>
     settles tid (if tid \<in> idle_ended y then Exited else InIdle) y (sys_idle tid y)"
  using st_idle [of y tid "\<lambda>_ _. False"]
  by (auto simp: settles_def quiet_def sys_idle_def set_pc_def)

lemma thread_leaves:
  assumes "quiet y" "pcs y tid = Some p" "busy p = 0" "p \<noteq> Exited"
  shows "\<exists>y'. settles tid Exited y y'"
proof -
  have pc: "pcs y' tid = Some q" and quiet: "quiet y'" if "settles tid q y y'" for y y' :: "'a sched_sys" and q
    using that by (simp_all add: settles_def)
  have ended: "\<exists>y'. settles tid Exited y y'" if "quiet y" "pcs y tid = Some (Dispatch None)" "tid \<in> idle_ended y" for y :: "'a sched_sys"
    using quiet_idle [OF that(1,2)] that(3) by auto
  have top: "\<exists>y'. settles tid Exited y y'" if "quiet y" "pcs y tid = Some AtTop" "tid \<in> idle_ended y" for y :: "'a sched_sys"
  proof -
    note f = quiet_fetch [OF that(1,2)]
    have "tid \<in> idle_ended (sys_fetch tid y)" using f that(3) by (simp add: settles_def)
    from ended [OF quiet [OF f] pc [OF f] this] settles_trans [OF f] show ?thesis by blast
  qed
  have idle: "\<exists>y'. settles tid Exited y y'" if "quiet y" "pcs y tid = Some InIdle" for y :: "'a sched_sys"
  proof -
    note f = quiet_idle_return [OF that, THEN conjunct1] quiet_idle_return [OF that, THEN conjunct2]
    from top [OF quiet [OF f(1)] pc [OF f(1)] f(2)] settles_trans [OF f(1)] show ?thesis by blast
  qed
  have none: "\<exists>y'. settles tid Exited y y'" if "quiet y" "pcs y tid = Some (Dispatch None)" for y :: "'a sched_sys"
  proof (cases "tid \<in> idle_ended y")
    case False
    then have f: "settles tid InIdle y (sys_idle tid y)" using quiet_idle [OF that] by simp
    from idle [OF quiet [OF f] pc [OF f]] settles_trans [OF f] show ?thesis by blast
  qed (rule ended [OF that])
  show ?thesis
  proof (cases p)
    case AtTop
    with assms have f: "settles tid (Dispatch None) y (sys_fetch tid y)" by (simp add: quiet_fetch)
    from none [OF quiet [OF f] pc [OF f]] settles_trans [OF f] show ?thesis by blast
  next
    case (Dispatch task)
    with assms none [of y] show ?thesis by (cases task) auto
  qed (use assms idle [of y] in simp_all)
qed

lemma all_leave:
  assumes "quiet y" "finite (dom (pcs y))" "\<forall>p\<in>ran (pcs y). busy p = 0"
  shows "\<exists>y'. own_step\<^sup>*\<^sup>* y y' \<and> quiet y' \<and> ran (pcs y') \<subseteq> {Exited} \<and> accepted y' = accepted y \<and> finished y' = finished y"
  using assms
proof (induction "card {tid. pcs y tid \<notin> {None, Some Exited}}" arbitrary: y rule: less_induct)
  case less
  let ?L = "{tid. pcs y tid \<notin> {None, Some Exited}}"
  show ?case
  proof (cases "?L = {}")
    case True
    then have "ran (pcs y) \<subseteq> {Exited}" by (auto simp: ran_def) (metis option.distinct(1) option.inject)
    with less(2) show ?thesis by blast
  next
    case False
    then obtain tid p where p: "pcs y tid = Some p" "p \<noteq> Exited" by auto
    with less(4) have "busy p = 0" by (auto simp: ran_def)
    from thread_leaves [OF less(2) p(1) this p(2)] obtain z where z: "settles tid Exited y z" by blast
    have pz: "pcs z = (pcs y)(tid \<mapsto> Exited)" using z by (simp add: settles_def)
    have L: "{i. pcs z i \<notin> {None, Some Exited}} = ?L - {tid}" using pz by auto
    have "finite ?L" using less(3) by (rule finite_subset [rotated]) (auto simp: dom_def)
    then have "card {i. pcs z i \<notin> {None, Some Exited}} < card ?L"
      unfolding L using p by (intro card_Diff1_less) auto
    moreover have "quiet z" "finite (dom (pcs z))" "\<forall>p\<in>ran (pcs z). busy p = 0"
      using z less(3,4) by (auto simp: settles_def ran_def)
    ultimately obtain y' where "own_step\<^sup>*\<^sup>* z y'" "quiet y'" "ran (pcs y') \<subseteq> {Exited}" "accepted y' = accepted z" "finished y' = finished z"
      using less(1) by blast
    moreover have "own_step\<^sup>*\<^sup>* y z" "accepted z = accepted y" "finished z = finished y" using z by (simp_all add: settles_def)
    ultimately show ?thesis by (metis rtranclp_trans)
  qed
qed

section \<open>Properties\<close>

text \<open>
  C3. The scheduler can always finish. In every reachable state of a scheduler whose clients schedule only suspended fibers
  that nobody holds, if every queued task may be run by some thread whose idle fiber has not ended, then the
  threads can, by themselves and without an abort, run every accepted task exactly once until its fiber yields or ends; and when
  \<^verbatim>\<open>stop()\<close> has been called they can all leave \<^verbatim>\<open>run()\<close> afterwards. No state is a deadlock.
\<close>

theorem scheduler_can_finish:
  assumes "reach sched_init (sched_step disciplined) y" "servable y"
  shows "\<exists>y'. own_step\<^sup>*\<^sup>* y y' \<and> \<not> aborted y' \<and> m_tasks (sched y') = [] \<and> mset (finished y') = mset (accepted y) \<and>
    m_stopping (sched y') = m_stopping (sched y) \<and> (m_stopping (sched y) \<longrightarrow> ran (pcs y') \<subseteq> {Exited})"
proof -
  have ok: "sound y" by (rule reach_sound [OF assms(1)])
  from all_work_done [OF ok assms(2)] obtain z where z: "onward y z" "work z = 0" by blast
  have run: "own_step\<^sup>*\<^sup>* y z" "accepted z = accepted y" "m_stopping (sched z) = m_stopping (sched y)"
    using z(1) by (simp_all add: onward_def)
  have "sound z" by (rule own_sound [OF ok run(1)])
  then have inv: "sched_inv z" "\<not> aborted z" "finite (dom (pcs z))" by (auto simp: sound_def fibers_inv_def)
  note all = no_work [OF inv(1) z(2)]
  show ?thesis
  proof (cases "m_stopping (sched y)")
    case False
    with run inv(2) all show ?thesis by auto
  next
    case True
    then have "quiet z" using run(3) inv(2) all by (simp add: quiet_def)
    moreover have "\<forall>p\<in>ran (pcs z). busy p = 0"
      using z(2) inv(3) by (auto simp: work_def pc_sum_def ran_def) (metis domI option.sel)
    ultimately obtain y' where "own_step\<^sup>*\<^sup>* z y'" "quiet y'" "ran (pcs y') \<subseteq> {Exited}" "accepted y' = accepted z" "finished y' = finished z"
      using all_leave [OF _ inv(3)] by blast
    with run(1,2) all True show ?thesis by (intro exI [of _ y']) (auto simp: quiet_def dest: rtranclp_trans)
  qed
qed

text \<open>Two threads, one callback, and a call of \<^verbatim>\<open>stop()\<close> before anything has run.\<close>

theorem scheduler_can_finish_witness:
  "\<exists>y y'. sched_run [Do_stop] (sys_schedule (Task_cb (Some True) (- 1)) two_threads) = Some y \<and>
     own_step\<^sup>*\<^sup>* y y' \<and> mset (finished y') = {#Task_cb (Some True) (- 1)#} \<and> ran (pcs y') \<subseteq> {Exited}"
  (is "\<exists>y y'. sched_run ?cs ?start = Some y \<and> _ y y'")
proof -
  let ?y = "the (sched_run ?cs ?start)"
  have y: "sched_run ?cs ?start = Some ?y" "m_stopping (sched ?y)" "accepted ?y = [Task_cb (Some True) (- 1)]"
    by (simp_all add: run_simps)
  have "reach sched_init (sched_step disciplined) ?y"
    by (rule sched_run_reach [OF two_threads_scheduled y(1)])
       (simp_all add: no_schedule_def disciplined_def Task_cb_def)
  moreover have "servable ?y" by (auto simp: servable_def run_simps mine_def)
  ultimately show ?thesis using scheduler_can_finish [of ?y] y by auto
qed

end
