(* ===== verification/Log_Race.thy ===== *)
theory Log_Race
  imports Log_Total
begin

text \<open>
  \<^verbatim>\<open>Logger::log\<close> walks over \<^verbatim>\<open>m_appenders\<close> without the lock that \<^verbatim>\<open>addAppender\<close>, \<^verbatim>\<open>delAppender\<close> and \<^verbatim>\<open>clearAppenders\<close>
  take. Here the list has nodes with an identity, an iterator is a node, and the steps of the walk and of other
  threads interleave. A walk alone is \<open>Logger_log\<close>; it is safe next to additions, and dangles after \<^verbatim>\<open>clear\<close>.
\<close>

section \<open>The walk\<close>

text \<open>At a node, past the call of its appender, at \<^verbatim>\<open>end()\<close>, ended by a fault, or past the use of a node that was freed.\<close>

datatype walk_pc = Entering | AtNode nat | Logged nat | WalkDone | WalkFault fault | Dangling

text \<open>
  One logger at address \<open>a\<close>: \<open>nodes\<close> are the nodes of its list with their appenders, \<open>fresh\<close> the next node to be
  allocated; \<open>visited\<close> records the appenders that were called.
\<close>

record walk =
  w_log :: Log
  nodes :: "(nat \<times> addr) list"
  fresh :: nat
  w_pc :: walk_pc
  visited :: "addr list"

fun next_node :: "(nat \<times> addr) list \<Rightarrow> nat \<Rightarrow> nat option" where
  "next_node [] n = None"
| "next_node ((m, p) # ns) n = (if m = n then (case ns of [] \<Rightarrow> None | (m', _) # _ \<Rightarrow> Some m') else next_node ns n)"

definition go_to :: "nat option \<Rightarrow> walk_pc" where
  "go_to n = (case n of None \<Rightarrow> WalkDone | Some n \<Rightarrow> AtNode n)"

text \<open>A step of the thread that logs: the test of the level, the body of the loop, the increment of the iterator.\<close>

definition walk_next :: "log_env \<Rightarrow> addr \<Rightarrow> LogEvent \<Rightarrow> walk \<Rightarrow> walk" where
  "walk_next E a event y =
     (case w_pc y of
        Entering \<Rightarrow>
          (case loggers (w_log y) a of
             None \<Rightarrow> y\<lparr>w_pc := WalkFault (UndefinedBehaviour ''null logger'')\<rparr>
           | Some lg \<Rightarrow>
               if m_level event \<le> lg_level lg
               then y\<lparr>w_pc := go_to (case nodes y of [] \<Rightarrow> None | (n, _) # _ \<Rightarrow> Some n)\<rparr> else y\<lparr>w_pc := WalkDone\<rparr>)
      | AtNode n \<Rightarrow>
          (case map_of (nodes y) n of
             None \<Rightarrow> y\<lparr>w_pc := Dangling\<rparr>
           | Some p \<Rightarrow>
               (case appender_log E event p (w_log y) of
                  Inl e \<Rightarrow> y\<lparr>w_pc := WalkFault e\<rparr>
                | Inr L \<Rightarrow> y\<lparr>w_log := L, w_pc := Logged n, visited := visited y @ [p]\<rparr>))
      | Logged n \<Rightarrow>
          (case map_of (nodes y) n of
             None \<Rightarrow> y\<lparr>w_pc := Dangling\<rparr>
           | Some _ \<Rightarrow> y\<lparr>w_pc := go_to (next_node (nodes y) n)\<rparr>)
      | _ \<Rightarrow> y)"

text \<open>Other threads, under the lock of the logger: \<^verbatim>\<open>push_back\<close> allocates a node, \<^verbatim>\<open>clear\<close> frees all of them.\<close>

definition walk_add :: "addr \<Rightarrow> addr \<Rightarrow> walk \<Rightarrow> walk" where
  "walk_add a p y =
     (case addAppender a p (w_log y) of
        Inl e \<Rightarrow> y\<lparr>w_pc := WalkFault e\<rparr>
      | Inr L \<Rightarrow> y\<lparr>w_log := L, nodes := nodes y @ [(fresh y, p)], fresh := fresh y + 1\<rparr>)"

definition walk_clear :: "addr \<Rightarrow> walk \<Rightarrow> walk" where
  "walk_clear a y =
     (case clearAppenders a (w_log y) of
        Inl e \<Rightarrow> y\<lparr>w_pc := WalkFault e\<rparr>
      | Inr L \<Rightarrow> y\<lparr>w_log := L, nodes := []\<rparr>)"

text \<open>Steps without removals: the walk, additions, and anything that leaves the loggers as they are.\<close>

inductive walk_step :: "log_env \<Rightarrow> addr \<Rightarrow> LogEvent \<Rightarrow> walk \<Rightarrow> walk \<Rightarrow> bool" for E a event where
  wk_next: "walk_step E a event y (walk_next E a event y)"
| wk_add: "walk_step E a event y (walk_add a p y)"
| wk_other: "loggers L = loggers (w_log y) \<Longrightarrow> walk_step E a event y (y\<lparr>w_log := L\<rparr>)"

section \<open>The invariant of the walk\<close>

text \<open>
  The nodes before the iterator are the ones visited, and the list has only grown since the walk began, when the
  logger was \<open>lg0\<close>.
\<close>

definition list_ok :: "addr \<Rightarrow> Logger \<Rightarrow> (addr \<rightharpoonup> Logger) \<Rightarrow> (nat \<times> addr) list \<Rightarrow> nat \<Rightarrow> bool" where
  "list_ok a lg0 lgs ns fr \<longleftrightarrow>
     (\<exists>lg. lgs a = Some lg \<and> map snd ns = lg_appenders lg \<and> lg_level lg = lg_level lg0) \<and>
     (\<exists>added. map snd ns = lg_appenders lg0 @ added) \<and> distinct (map fst ns) \<and> (\<forall>n\<in>set ns. fst n < fr)"

definition pc_ok :: "LogEvent \<Rightarrow> Logger \<Rightarrow> (nat \<times> addr) list \<Rightarrow> addr list \<Rightarrow> walk_pc \<Rightarrow> bool" where
  "pc_ok event lg0 ns vs p =
     (case p of
        Entering \<Rightarrow> vs = []
      | AtNode n \<Rightarrow> m_level event \<le> lg_level lg0 \<and> (\<exists>xs p ys. ns = xs @ (n, p) # ys \<and> vs = map snd xs)
      | Logged n \<Rightarrow> m_level event \<le> lg_level lg0 \<and> (\<exists>xs p ys. ns = xs @ (n, p) # ys \<and> vs = map snd xs @ [p])
      | WalkDone \<Rightarrow>
          if m_level event \<le> lg_level lg0
          then (\<exists>later. map snd ns = vs @ later) \<and> (\<exists>added. vs = lg_appenders lg0 @ added) else vs = []
      | WalkFault e \<Rightarrow> True
      | Dangling \<Rightarrow> False)"

definition walk_inv :: "addr \<Rightarrow> LogEvent \<Rightarrow> Logger \<Rightarrow> walk \<Rightarrow> bool" where
  "walk_inv a event lg0 y \<longleftrightarrow> list_ok a lg0 (loggers (w_log y)) (nodes y) (fresh y) \<and>
     pc_ok event lg0 (nodes y) (visited y) (w_pc y)"

lemma pc_ok_grows:
  assumes "pc_ok event lg0 ns vs p"
  shows "pc_ok event lg0 (ns @ [(n, q)]) vs p"
proof (cases p)
  case (AtNode m)
  with assms obtain xs p' ys where "ns = xs @ (m, p') # ys" "vs = map snd xs" "m_level event \<le> lg_level lg0"
    by (auto simp: pc_ok_def)
  moreover have "(xs @ (m, p') # ys) @ [(n, q)] = xs @ (m, p') # (ys @ [(n, q)])" by simp
  ultimately show ?thesis unfolding AtNode pc_ok_def walk_pc.case by blast
next
  case (Logged m)
  with assms obtain xs p' ys where "ns = xs @ (m, p') # ys" "vs = map snd xs @ [p']" "m_level event \<le> lg_level lg0"
    by (auto simp: pc_ok_def)
  moreover have "(xs @ (m, p') # ys) @ [(n, q)] = xs @ (m, p') # (ys @ [(n, q)])" by simp
  ultimately show ?thesis unfolding Logged pc_ok_def walk_pc.case by blast
qed (use assms in \<open>auto simp: pc_ok_def\<close>)

lemma next_node_split:
  "distinct (map fst (xs @ (n, p) # ys)) \<Longrightarrow>
     next_node (xs @ (n, p) # ys) n = (case ys of [] \<Rightarrow> None | (m, _) # _ \<Rightarrow> Some m)"
  by (induction xs) auto

lemma map_of_split: "distinct (map fst (xs @ (n, p) # ys)) \<Longrightarrow> map_of (xs @ (n, p) # ys) n = Some p"
  by (induction xs) auto

lemma walk_next_inv:
  assumes inv: "walk_inv a event lg0 y"
  shows "walk_inv a event lg0 (walk_next E a event y)"
proof (cases "w_pc y")
  case Entering
  from inv obtain lg added where lg: "loggers (w_log y) a = Some lg" "lg_level lg = lg_level lg0"
    "map snd (nodes y) = lg_appenders lg0 @ added" by (auto simp: walk_inv_def list_ok_def)
  show ?thesis
  proof (cases "m_level event \<le> lg_level lg")
    case True
    then have step: "walk_next E a event y = y\<lparr>w_pc := go_to (case nodes y of [] \<Rightarrow> None | (n, _) # _ \<Rightarrow> Some n)\<rparr>"
      using Entering lg by (simp add: walk_next_def)
    have "visited y = []" using inv Entering by (simp add: walk_inv_def pc_ok_def)
    then have "pc_ok event lg0 (nodes y) (visited y) (go_to (case nodes y of [] \<Rightarrow> None | (n, _) # _ \<Rightarrow> Some n))"
      using True lg by (cases "nodes y") (auto simp: pc_ok_def go_to_def)
    with inv show ?thesis unfolding step by (simp add: walk_inv_def)
  next
    case False
    with inv Entering lg show ?thesis by (simp add: walk_next_def walk_inv_def pc_ok_def)
  qed
next
  case (AtNode n)
  with inv obtain xs p ys where n: "nodes y = xs @ (n, p) # ys" "visited y = map snd xs" "m_level event \<le> lg_level lg0"
    by (auto simp: walk_inv_def pc_ok_def)
  have "map_of (nodes y) n = Some p"
    unfolding n(1) by (rule map_of_split) (use inv n(1) in \<open>simp add: walk_inv_def list_ok_def\<close>)
  with inv AtNode n show ?thesis
    by (cases "appender_log E event p (w_log y)") (auto simp: walk_inv_def walk_next_def pc_ok_def dest!: appender_log_keeps)
next
  case (Logged n)
  with inv obtain xs p ys where n: "nodes y = xs @ (n, p) # ys" "visited y = map snd xs @ [p]" "m_level event \<le> lg_level lg0"
    by (auto simp: walk_inv_def pc_ok_def)
  have d: "distinct (map fst (xs @ (n, p) # ys))" using inv n(1) by (simp add: walk_inv_def list_ok_def)
  have "map_of (nodes y) n = Some p" "next_node (nodes y) n = (case ys of [] \<Rightarrow> None | (m, _) # _ \<Rightarrow> Some m)"
    unfolding n(1) by (rule map_of_split [OF d], rule next_node_split [OF d])
  then have step: "walk_next E a event y = y\<lparr>w_pc := go_to (case ys of [] \<Rightarrow> None | (m, _) # _ \<Rightarrow> Some m)\<rparr>"
    using Logged by (simp add: walk_next_def)
  have "pc_ok event lg0 (nodes y) (visited y) (go_to (case ys of [] \<Rightarrow> None | (m, _) # _ \<Rightarrow> Some m))"
  proof (cases ys)
    case Nil
    then have "visited y = map snd (nodes y)" using n by simp
    with inv n(3) Nil show ?thesis by (auto simp: walk_inv_def list_ok_def pc_ok_def go_to_def)
  next
    case (Cons m zs)
    then have "nodes y = (xs @ [(n, p)]) @ (fst m, snd m) # zs \<and> visited y = map snd (xs @ [(n, p)])" using n by simp
    then have "pc_ok event lg0 (nodes y) (visited y) (AtNode (fst m))"
      using n(3) unfolding pc_ok_def walk_pc.case by blast
    with Cons show ?thesis by (cases m) (simp add: go_to_def)
  qed
  with inv show ?thesis unfolding step by (simp add: walk_inv_def)
qed (use inv in \<open>simp_all add: walk_next_def\<close>)

lemma walk_add_inv:
  assumes inv: "walk_inv a event lg0 y"
  shows "walk_inv a event lg0 (walk_add a p y)"
proof -
  from inv obtain lg where lg: "loggers (w_log y) a = Some lg" "map snd (nodes y) = lg_appenders lg" "lg_level lg = lg_level lg0"
    by (auto simp: walk_inv_def list_ok_def)
  let ?L = "(w_log y)\<lparr>loggers := (loggers (w_log y))(a \<mapsto> lg\<lparr>lg_appenders := lg_appenders lg @ [p]\<rparr>)\<rparr>"
  have step: "walk_add a p y = y\<lparr>w_log := ?L, nodes := nodes y @ [(fresh y, p)], fresh := fresh y + 1\<rparr>"
    using lg(1) by (simp add: walk_add_def addAppender_def upd_logger_def with_logger_def)
  have "list_ok a lg0 (loggers ?L) (nodes y @ [(fresh y, p)]) (fresh y + 1)"
    using inv lg by (fastforce simp: walk_inv_def list_ok_def)
  with inv pc_ok_grows show ?thesis unfolding step by (simp add: walk_inv_def)
qed

lemma walk_step_inv:
  assumes "walk_inv a event lg0 y" "walk_step E a event y y'"
  shows "walk_inv a event lg0 y'"
  using assms(2)
proof cases
  case wk_next
  then show ?thesis using walk_next_inv [OF assms(1)] by simp
next
  case (wk_add p)
  then show ?thesis using walk_add_inv [OF assms(1)] by simp
next
  case (wk_other L)
  then show ?thesis using assms(1) by (simp add: walk_inv_def)
qed

definition walk_start :: "addr \<Rightarrow> Logger \<Rightarrow> walk \<Rightarrow> bool" where
  "walk_start a lg0 y \<longleftrightarrow> loggers (w_log y) a = Some lg0 \<and> map snd (nodes y) = lg_appenders lg0 \<and>
     distinct (map fst (nodes y)) \<and> (\<forall>n\<in>set (nodes y). fst n < fresh y) \<and> w_pc y = Entering \<and> visited y = []"

interpretation walk_machine: inductive_invariant "walk_start a lg0" "walk_step E a event" "walk_inv a event lg0"
  for a lg0 E event
proof unfold_locales
  show "walk_inv a event lg0 y" if "walk_start a lg0 y" for y
    using that by (auto simp: walk_start_def walk_inv_def list_ok_def pc_ok_def)
qed (rule walk_step_inv)

section \<open>Alone, the walk is \<open>Logger_log\<close>\<close>

lemma walk_from_node:
  assumes "nodes y = xs @ ys" "distinct (map fst (nodes y))"
    and "w_pc y = go_to (case ys of [] \<Rightarrow> None | (n, _) # _ \<Rightarrow> Some n)"
  shows "\<exists>k. case appenders_log E event (map snd ys) (w_log y) of
      Inl e \<Rightarrow> w_pc ((walk_next E a event ^^ k) y) = WalkFault e
    | Inr L \<Rightarrow> w_pc ((walk_next E a event ^^ k) y) = WalkDone \<and> w_log ((walk_next E a event ^^ k) y) = L"
  using assms
proof (induction ys arbitrary: xs y)
  case Nil
  then show ?case by (intro exI [of _ 0]) (simp add: go_to_def)
next
  case (Cons m ys)
  obtain n p where m: "m = (n, p)" by force
  have at: "w_pc y = AtNode n" using Cons.prems(3) m by (simp add: go_to_def)
  have ns: "nodes y = xs @ (n, p) # ys" using Cons.prems(1) m by simp
  have d: "distinct (map fst (xs @ (n, p) # ys))" using Cons.prems(2) ns by simp
  have look: "map_of (nodes y) n = Some p" "next_node (nodes y) n = (case ys of [] \<Rightarrow> None | (m, _) # _ \<Rightarrow> Some m)"
    unfolding ns by (rule map_of_split [OF d], rule next_node_split [OF d])
  show ?case
  proof (cases "appender_log E event p (w_log y)")
    case (Inl e)
    with at look m show ?thesis by (intro exI [of _ 1]) (simp add: walk_next_def)
  next
    case (Inr L)
    let ?z = "y\<lparr>w_log := L, visited := visited y @ [p], w_pc := go_to (case ys of [] \<Rightarrow> None | (n, _) # _ \<Rightarrow> Some n)\<rparr>"
    have two: "(walk_next E a event ^^ 2) y = ?z"
      using at look Inr by (simp add: numeral_2_eq_2 walk_next_def)
    have "nodes ?z = (xs @ [m]) @ ys" "distinct (map fst (nodes ?z))" using Cons.prems by simp_all
    from Cons.IH [OF this] obtain k where k: "case appenders_log E event (map snd ys) L of
        Inl e \<Rightarrow> w_pc ((walk_next E a event ^^ k) ?z) = WalkFault e
      | Inr L' \<Rightarrow> w_pc ((walk_next E a event ^^ k) ?z) = WalkDone \<and> w_log ((walk_next E a event ^^ k) ?z) = L'"
      by auto
    have "(walk_next E a event ^^ (k + 2)) y = (walk_next E a event ^^ k) ?z" by (simp only: funpow_add comp_apply two)
    then show ?thesis using k Inr m by (intro exI [of _ "k + 2"]) (simp del: add_2_eq_Suc' funpow.simps split: sum.splits)
  qed
qed

lemma walk_alone:
  assumes "walk_start a lg0 y"
  shows "\<exists>k. case Logger_log E a event (w_log y) of
      Inl e \<Rightarrow> w_pc ((walk_next E a event ^^ k) y) = WalkFault e
    | Inr L \<Rightarrow> w_pc ((walk_next E a event ^^ k) y) = WalkDone \<and> w_log ((walk_next E a event ^^ k) y) = L"
proof (cases "m_level event \<le> lg_level lg0")
  case False
  with assms show ?thesis
    by (intro exI [of _ 1]) (simp add: walk_start_def walk_next_def Logger_log_def with_logger_def)
next
  case True
  let ?z = "y\<lparr>w_pc := go_to (case nodes y of [] \<Rightarrow> None | (n, _) # _ \<Rightarrow> Some n)\<rparr>"
  have one: "walk_next E a event y = ?z" using assms True by (simp add: walk_start_def walk_next_def)
  have "nodes ?z = [] @ nodes y" "distinct (map fst (nodes ?z))" using assms by (simp_all add: walk_start_def)
  from walk_from_node [OF this, where E = E and event = event and a = a] obtain k where k: "case appenders_log E event (map snd (nodes y)) (w_log y) of
      Inl e \<Rightarrow> w_pc ((walk_next E a event ^^ k) ?z) = WalkFault e
    | Inr L \<Rightarrow> w_pc ((walk_next E a event ^^ k) ?z) = WalkDone \<and> w_log ((walk_next E a event ^^ k) ?z) = L"
    by auto
  have "(walk_next E a event ^^ Suc k) y = (walk_next E a event ^^ k) ?z" by (simp only: funpow_Suc_right comp_apply one)
  then show ?thesis using k assms True
    by (intro exI [of _ "Suc k"]) (simp add: walk_start_def Logger_log_def with_logger_def del: funpow.simps split: sum.splits)
qed

section \<open>Properties\<close>

lemma walk_add_nodes:
  assumes "loggers (w_log y) a = Some lg"
  shows "\<exists>lg'. loggers (w_log (walk_add a p y)) a = Some lg' \<and> w_pc (walk_add a p y) = w_pc y \<and>
    nodes (walk_add a p y) = nodes y @ [(fresh y, p)] \<and> fresh (walk_add a p y) = fresh y + 1"
  using assms by (simp add: walk_add_def addAppender_def upd_logger_def with_logger_def)

text \<open>
  C39. Logging while the logger is changed. Next to any number of \<^verbatim>\<open>addAppender\<close> and of other threads that log, the walk of
  \<^verbatim>\<open>Logger::log\<close> never uses a node that was freed, and when it ends it has called every appender that the logger had when it
  began, in order and once, and then some of those added meanwhile. But \<^verbatim>\<open>clearAppenders\<close>, with which the listener of
  \<^verbatim>\<open>logs\<close> starts to change a logger, frees the node of a walk under way, and the next step of the walk is undefined,
  whatever appenders the listener has added by then.
\<close>

theorem logging_races_with_clear:
  assumes "reach (walk_start a lg0) (walk_step E a event) y"
  shows "w_pc y \<noteq> Dangling \<and>
    (w_pc y = WalkDone \<longrightarrow> (if m_level event \<le> lg_level lg0 then \<exists>added. visited y = lg_appenders lg0 @ added else visited y = [])) \<and>
    (\<forall>n ps. w_pc y \<in> {AtNode n, Logged n} \<longrightarrow> w_pc (walk_next E a event (fold (walk_add a) ps (walk_clear a y))) = Dangling)"
proof -
  have inv: "walk_inv a event lg0 y" using walk_machine.reach_inv [OF assms] .
  have gone: "w_pc (walk_next E a event (fold (walk_add a) ps (walk_clear a y))) = Dangling"
    if pc: "w_pc y \<in> {AtNode n, Logged n}" for n ps
  proof -
    from inv obtain lg where lg: "loggers (w_log y) a = Some lg" by (auto simp: walk_inv_def list_ok_def)
    have n: "n < fresh y" using inv pc by (auto simp: walk_inv_def pc_ok_def list_ok_def)
    have "\<exists>lg'. loggers (w_log z) a = Some lg' \<and> w_pc z = w_pc y \<and> n < fresh z \<and> n \<notin> fst ` set (nodes z) \<Longrightarrow>
      w_pc (walk_next E a event (fold (walk_add a) ps z)) = Dangling" for z
    proof (induction ps arbitrary: z)
      case Nil
      then have "map_of (nodes z) n = None" by (simp add: map_of_eq_None_iff)
      with Nil pc show ?case by (auto simp: walk_next_def)
    next
      case (Cons p ps)
      then obtain lg' where z: "loggers (w_log z) a = Some lg'" "w_pc z = w_pc y" "n < fresh z" "n \<notin> fst ` set (nodes z)" by blast
      from walk_add_nodes [OF z(1), of p] z Cons.IH [of "walk_add a p z"] show ?case by auto
    qed
    from this [of "walk_clear a y"] lg n show ?thesis
      by (simp add: walk_clear_def clearAppenders_def upd_logger_def with_logger_def)
  qed
  with inv show ?thesis by (auto simp: walk_inv_def pc_ok_def split: if_splits)
qed

text \<open>The root logger of a new manager, which has one appender: logged to while its appenders are cleared.\<close>

theorem logging_races_with_clear_witness:
  "\<exists>y. w_pc (walk_next good_env 1 hello_event y) = AtNode 0 \<and>
     w_pc (walk_next good_env 1 hello_event (fold (walk_add 1) [9] (walk_clear 1 (walk_next good_env 1 hello_event y)))) = Dangling"
proof -
  let ?lg = "\<lparr>lg_name = ''root'', lg_level = DEBUG, lg_appenders = [5], lg_createTime = 0\<rparr>"
  let ?y = "\<lparr>w_log = \<lparr>appenders = Map.empty, loggers = [1 \<mapsto> ?lg], next_addr = 10, m_loggers = [''root'' \<mapsto> 1], m_root = 1, cout = [],
      disk = (\<lambda>_. [])\<rparr>, nodes = [(0, 5)], fresh = 1, w_pc = Entering, visited = []\<rparr>"
  let ?z = "walk_next good_env 1 hello_event ?y"
  have "walk_start 1 ?lg ?y" by (simp add: walk_start_def)
  then have "reach (walk_start 1 ?lg) (walk_step good_env 1 hello_event) ?y" by (rule reach_init)
  then have "reach (walk_start 1 ?lg) (walk_step good_env 1 hello_event) ?z" using wk_next by (rule reach_step)
  from logging_races_with_clear [OF this] have "w_pc ?z = AtNode 0 \<longrightarrow>
    w_pc (walk_next good_env 1 hello_event (fold (walk_add 1) [9] (walk_clear 1 ?z))) = Dangling" by blast
  moreover have "m_level hello_event \<le> DEBUG" by (simp add: hello_event_def less_eq_Level_def LogEvent_new_def vprintf_def)
  then have "w_pc ?z = AtNode 0" by (simp add: walk_next_def go_to_def)
  ultimately show ?thesis by (intro exI [of _ ?y]) simp
qed

end
