(* ===== verification/Spec2Isabelle.thy ===== *)
theory Spec2Isabelle
  imports Runtime Program Diagnostics Sync Descriptors Scheduler_Drain Log_Race
begin

text \<open>
  \<^bold>\<open>Verification of the sylar server framework\<close> (C++ sources under \<^verbatim>\<open>src/sylar\<close>).

  \<^bold>\<open>The program.\<close> Fibers (\<^verbatim>\<open>fiber.cpp\<close>) are run by the threads of a scheduler (\<^verbatim>\<open>scheduler.cpp\<close>), which take
  tasks from a shared queue. The I/O manager (\<^verbatim>\<open>iomanager.cpp\<close>) is a scheduler whose idle fibers wait in
  epoll; it keeps the events a fiber or callback waits for, and a timer manager (\<^verbatim>\<open>timer.cpp\<close>). The
  hooked system calls (\<^verbatim>\<open>hook.cpp\<close>) turn a blocking call into a registration with the I/O manager and a
  yield; per descriptor they consult the contexts of \<^verbatim>\<open>fd_manager.cpp\<close>. Around this core are logging
  (\<^verbatim>\<open>log.cpp\<close>), configuration variables loaded from YAML (\<^verbatim>\<open>config.h\<close>, \<^verbatim>\<open>config.cpp\<close>), the program's arguments and
  paths (\<^verbatim>\<open>env.cpp\<close>), utilities (\<^verbatim>\<open>util.cpp\<close>), and locks and threads (\<^verbatim>\<open>mutex.h\<close>, \<^verbatim>\<open>thread.cpp\<close>).

  \<^bold>\<open>Conventions.\<close> A class is a record with the source's members, a method a function on it. Fixed-width integers are
  words. A call ends with a value or a fault: a failed assertion, undefined behaviour or an exception. Shared
  objects live in stores indexed by addresses. Code that holds a lock throughout is one step; where threads
  interleave, steps form a transition relation and properties are proved of the reachable states. What
  the kernel and libraries do (clocks, epoll, the original system calls, the file system, yaml-cpp, strftime) is an
  argument or a record of functions.

  \<^bold>\<open>The theories.\<close>

  \<^item> \<open>Prelude\<close>: words, outcomes, vectors, reachability, the locale of inductive invariants.
  \<^item> \<open>Std_Set\<close>: \<^verbatim>\<open>std::set\<close> as a sorted sequence, with the contract of its comparator as locales, interpreted by
    the timer comparator and by the order of log definitions.
  \<^item> \<open>Timer\<close> (\<^verbatim>\<open>timer.h\<close>, \<^verbatim>\<open>timer.cpp\<close>): timers in a heap and the ordered set of pointers to them; every operation
    refines an abstract table of deadlines, expiry fires exactly the due timers, cancelling is safe.
  \<^item> \<open>Fiber\<close> (\<^verbatim>\<open>fiber.cpp\<close>): the fibers of a thread and the saved contexts; resuming and yielding are inverse, and exactly the
    fibers on the path of control run.
  \<^item> \<open>Fd_Table\<close>, \<open>FdManager\<close> (\<^verbatim>\<open>fd_manager.cpp\<close>): growing tables of descriptors behave as a map.
  \<^item> \<open>Scheduler\<close> (\<^verbatim>\<open>scheduler.h\<close>, \<^verbatim>\<open>scheduler.cpp\<close>): queue, task fetching and the steps of the worker threads; a
    stopped scheduler has finished everything, a fiber runs on one thread at a time under the stated
    discipline, and the races outside of it. \<open>Scheduler_Drain\<close>: from every reachable state under that discipline the
    threads can run what was accepted and, once stopped, leave; no state is a deadlock.
  \<^item> \<open>IOManager\<close> (\<^verbatim>\<open>iomanager.cpp\<close>): event contexts, registration, cancelling, the idle loop in rounds; the kernel watches
    exactly what is registered, waiters are woken once, timeouts are bounded. Two threads at the start of \<^verbatim>\<open>addEvent\<close>, up to
    the look-up of their contexts, are interleaved separately.
  \<^item> \<open>Hook\<close> (\<^verbatim>\<open>hook.h\<close>, \<^verbatim>\<open>hook.cpp\<close>): the table of the original functions, and each hooked call, split where its fiber
    yields; every command of \<^verbatim>\<open>fcntl\<close> and \<^verbatim>\<open>ioctl\<close> with the arguments it is passed on with. \<open>Descriptors\<close>: the hooked
    calls, \<^verbatim>\<open>accept\<close> among them, as steps on the table of contexts and the kernel; a tracked descriptor is a socket that does
    not block, and shows the program the non-blocking flag it last asked for; and the two ways in which it comes to block
    outside the steps.
  \<^item> \<open>Runtime\<close>: hooked calls, timers and the scheduler together: a sleep arms a timer, idle rounds fire it when it is due
    and not before, and its callback queues the fiber; the value \<^verbatim>\<open>connect\<close> ends with.
  \<^item> \<open>Util\<close> (\<^verbatim>\<open>util.cpp\<close>) and \<open>Env\<close> (\<^verbatim>\<open>env.cpp\<close>): paths, directories, number parsing; argument parsing against a grammar.
  \<^item> \<open>Config\<close> (\<^verbatim>\<open>config.h\<close>, \<^verbatim>\<open>config.cpp\<close>): conversions, variables and listeners, the registry, loading documents and
    directories.
  \<^item> \<open>LogFormat\<close> and \<open>Log\<close> (\<^verbatim>\<open>log.h\<close>, \<^verbatim>\<open>log.cpp\<close>): levels, the pattern parser with its index against a grammar of
    patterns; appenders, loggers, the manager, and the listener that applies a changed configuration, shown to
    refine an abstract update of the loggers' views. \<open>Log_Total\<close>: logging and the listener return, given short dates.
    \<open>Log_Race\<close>: the walk of \<^verbatim>\<open>Logger::log\<close> over the nodes of the unlocked list, interleaved with changes of the list; alone
    it computes what \<open>Logger_log\<close> does.
  \<^item> \<open>Singleton\<close> (\<^verbatim>\<open>singleton.h\<close>): function-local statics. The templates are in an unnamed namespace, so each source file
    that uses them has an instance of its own.
  \<^item> \<open>Diagnostics\<close> (\<^verbatim>\<open>macro.h\<close>, the macros of \<^verbatim>\<open>log.h\<close>, the printers of \<^verbatim>\<open>iomanager.cpp\<close>): a logged line is an event
    whose destructor logs it; an assertion logs one line and aborts.
  \<^item> \<open>Program\<close>: the static objects of \<^verbatim>\<open>fiber.cpp\<close>, \<^verbatim>\<open>hook.cpp\<close> and \<^verbatim>\<open>log.cpp\<close> that register variables and their listeners
    when the program starts, and the steps a running process takes: loading documents, setting and looking up variables,
    obtaining loggers, logging. The loggers of \<^verbatim>\<open>log.cpp\<close> and the timeout of \<^verbatim>\<open>connect\<close> follow the variables after any such
    steps one after the other; two threads in the two locked sections of \<^verbatim>\<open>setValue\<close> are interleaved separately.
  \<^item> \<open>Sync\<close> (\<^verbatim>\<open>mutex.h\<close>, \<^verbatim>\<open>mutex.cpp\<close>, \<^verbatim>\<open>thread.cpp\<close>): locks and guards. The contract of an exclusive lock is a locale that
    three lock classes interpret; mutual exclusion is proved once in it.

  \<^bold>\<open>Loops and bounds.\<close> Loops over containers and indices are total functions with termination proofs. Fuel is
  used only where directories are followed (\<open>ListAllFile\<close>, \<open>Rm\<close>): it bounds the nesting, and the depth of
  the tree is shown to be enough for \<open>ListAllFile\<close>. Loops that wait (the idle loop, a spin lock, a retried
  system call) are split into rounds.

  \<^bold>\<open>Not modelled.\<close> Stack memory and machine contexts of fibers; the diagnostic lines the components log on their
  way (the macros that log them are); \<^verbatim>\<open>noncopyable.h\<close>, which only deletes copy operations, the tests and the
  build files. The race of \<^verbatim>\<open>Logger::log\<close> is modelled at the level of list nodes, a call of an appender being one step;
  data races of plain reads and writes and weak memory are not modelled. Also left out: the assertion on the write in
  \<^verbatim>\<open>tickle\<close> (a signal at a full pipe), the buffers of file streams, a thread that locks an \<^verbatim>\<open>RWMutex\<close> it holds already, and a
  context whose address looks like the descriptor of the pipe. Each is noted at the definition.
\<close>

end
